(* ===== verification/Xv6_Prelude.thy ===== *)
theory Xv6_Prelude
  imports Main "HOL-Library.Word"
begin

unbundle bit_operations_syntax

text \<open>
  Shared material of the development.
  \<^item> The C integer types as words, the names of the kernel's spin locks and sleep channels.
  \<^item> The outcome of running a piece of kernel code and the state-passing combinators every
    component is written with: \<open>kbind\<close> sequences two statements, \<open>kfor\<close> is a counting loop with
    an early \<open>return\<close> or \<open>break\<close>, \<open>kforall\<close> a counting loop without one.
  \<^item> \<open>runs m s P\<close>: the statement \<open>m\<close>, started in \<open>s\<close>, returns normally (no panic, no fault, no
    suspension) and its result and final state satisfy \<open>P\<close>. Its equations are simplification
    rules, so the simplifier executes code symbolically.
  \<^item> Generic lemmas on words, lists and folds.
\<close>

section \<open>C integer types\<close>

text \<open>\<open>uchar\<close>, \<open>ushort\<close>, \<open>uint\<close> and \<open>uint64\<close> of types.h. A C \<open>int\<close> whose overflow would be
  undefined behaviour is an \<open>int\<close>.\<close>

type_synonym u8 = "8 word"
type_synonym u16 = "16 word"
type_synonym u32 = "32 word"
type_synonym u64 = "64 word"

text \<open>Byte-addressed physical memory. The kernel maps it one to one, so a kernel pointer is a
  physical address.\<close>

type_synonym memory = "u64 \<Rightarrow> u8"

section \<open>Locks and sleep channels\<close>

text \<open>Every \<open>struct spinlock\<close> of the kernel, named by the object that holds it. A process, a
  buffer, an inode and an open file are named by their index in the table that holds them, a pipe
  by the address of its page. The last three are the inner spin locks of sleep locks.\<close>

datatype lockid =
    LkKmem | LkPid | LkWait | LkTicks | LkBcache | LkLog | LkItable | LkFtable
  | LkCons | LkUart | LkPr | LkDisk | LkProc nat | LkPipe u64 | LkBuf nat | LkInode nat

text \<open>Every \<open>void *chan\<close> the kernel sleeps on.\<close>

datatype chan =
    ChProc nat | ChTicks | ChLog | ChPipeRead u64 | ChPipeWrite u64 | ChConsRead
  | ChUartTx | ChDiskFree | ChBuf nat | ChBufLock nat | ChInodeLock nat

section \<open>Outcomes and statements\<close>

text \<open>What running kernel code leads to: it returns a value, it calls \<open>panic\<close> (which prints and
  never returns), it does something C leaves undefined (a null pointer dereference, an index
  outside an array), or it stops inside \<open>acquire\<close> on a lock held elsewhere, inside \<open>sleep\<close> on a
  channel, in a loop that polls a device register, in \<open>for(;;);\<close>, or in \<open>sched\<close> with the processor given up.\<close>

datatype wait_for = OnLock lockid | OnChan chan | OnDev u64 | Forever | OnSched

datatype ('a, 's) outcome = Ok 'a 's | Panic string | Fault string | Block wait_for 's

type_synonym ('a, 's) M = "'s \<Rightarrow> ('a, 's) outcome"

definition ret :: "'a \<Rightarrow> ('a, 's) M" where
  "ret x = (\<lambda>s. Ok x s)"

definition kbind :: "('a, 's) M \<Rightarrow> ('a \<Rightarrow> ('b, 's) M) \<Rightarrow> ('b, 's) M" where
  "kbind m f = (\<lambda>s. case m s of
     Ok x t \<Rightarrow> f x t | Panic e \<Rightarrow> Panic e | Fault e \<Rightarrow> Fault e | Block w t \<Rightarrow> Block w t)"

definition kthen :: "(unit, 's) M \<Rightarrow> ('b, 's) M \<Rightarrow> ('b, 's) M" where
  "kthen m n = kbind m (\<lambda>_. n)"

definition gets :: "('s \<Rightarrow> 'a) \<Rightarrow> ('a, 's) M" where
  "gets f = (\<lambda>s. Ok (f s) s)"

definition modify :: "('s \<Rightarrow> 's) \<Rightarrow> (unit, 's) M" where
  "modify f = (\<lambda>s. Ok () (f s))"

definition panic :: "string \<Rightarrow> ('a, 's) M" where
  "panic e = (\<lambda>s. Panic e)"

definition fault :: "string \<Rightarrow> ('a, 's) M" where
  "fault e = (\<lambda>s. Fault e)"

definition block :: "wait_for \<Rightarrow> ('a, 's) M" where
  "block w = (\<lambda>s. Block w s)"

definition kwhen :: "bool \<Rightarrow> (unit, 's) M \<Rightarrow> (unit, 's) M" where
  "kwhen b m = (if b then m else ret ())"

fun kfor :: "'i list \<Rightarrow> ('i \<Rightarrow> ('b option, 's) M) \<Rightarrow> ('b option, 's) M" where
  "kfor [] body = ret None"
| "kfor (i # is) body =
     kbind (body i) (\<lambda>r. case r of None \<Rightarrow> kfor is body | Some b \<Rightarrow> ret (Some b))"

fun kforall :: "'i list \<Rightarrow> ('i \<Rightarrow> (unit, 's) M) \<Rightarrow> (unit, 's) M" where
  "kforall [] body = ret ()"
| "kforall (i # is) body = kthen (body i) (kforall is body)"

text \<open>\<open>kloop n body l\<close>: a C loop with local variables \<open>l\<close>. The body ends an iteration with
  \<open>Inl l'\<close> to go on with \<open>l'\<close> or with \<open>Inr b\<close> to leave the loop with \<open>b\<close>. At most \<open>n\<close> iterations run;
  that this is enough is part of every theorem that says the code returns.\<close>

fun kloop :: "nat \<Rightarrow> ('l \<Rightarrow> ('l + 'b, 's) M) \<Rightarrow> 'l \<Rightarrow> ('b, 's) M" where
  "kloop 0 body l = fault ''iteration bound''"
| "kloop (Suc n) body l =
     kbind (body l) (\<lambda>r. case r of Inl l' \<Rightarrow> kloop n body l' | Inr b \<Rightarrow> ret b)"

text \<open>\<open>runs m s P\<close>: the weakest precondition of \<open>m\<close> for returning normally with \<open>P\<close>.\<close>

definition runs :: "('a, 's) M \<Rightarrow> 's \<Rightarrow> ('a \<Rightarrow> 's \<Rightarrow> bool) \<Rightarrow> bool" where
  "runs m s P = (case m s of Ok x t \<Rightarrow> P x t | Panic e \<Rightarrow> False | Fault e \<Rightarrow> False
     | Block w t \<Rightarrow> False)"

lemma runs_iff: "runs m s P \<longleftrightarrow> (\<exists>x t. m s = Ok x t \<and> P x t)"
  by (auto simp: runs_def split: outcome.splits)

lemma runs_ret [simp]: "runs (ret x) s P = P x s"
  by (simp add: runs_def ret_def)

lemma runs_Ok [simp]: "runs (Ok x) s P = P x s"
  by (simp add: runs_def)

lemma runs_Block [simp]: "\<not> runs (Block w) s P"
  by (simp add: runs_def)

lemma runs_kbind [simp]: "runs (kbind m f) s P = runs m s (\<lambda>x t. runs (f x) t P)"
  by (auto simp: runs_def kbind_def split: outcome.splits)

lemma runs_kthen [simp]: "runs (kthen m n) s P = runs m s (\<lambda>x t. runs n t P)"
  by (simp add: kthen_def)

lemma runs_gets [simp]: "runs (gets f) s P = P (f s) s"
  by (simp add: runs_def gets_def)

lemma runs_modify [simp]: "runs (modify f) s P = P () (f s)"
  by (simp add: runs_def modify_def)

lemma runs_stop [simp]:
  "\<not> runs (panic e) s P" "\<not> runs (fault e) s P" "\<not> runs (block w) s P"
  by (simp_all add: runs_def panic_def fault_def block_def)

lemma runs_kwhen [simp]: "runs (kwhen b m) s P = (if b then runs m s P else P () s)"
  by (simp add: kwhen_def)

lemma runs_if [simp]:
  "runs (if b then m else n) s P = (if b then runs m s P else runs n s P)"
  by simp

lemma runs_case_option [simp]:
  "runs (case x of None \<Rightarrow> m | Some a \<Rightarrow> f a) s P =
     (case x of None \<Rightarrow> runs m s P | Some a \<Rightarrow> runs (f a) s P)"
  by (cases x) simp_all

lemma runs_case_prod [simp]:
  "runs (case x of (a, b) \<Rightarrow> f a b) s P = (case x of (a, b) \<Rightarrow> runs (f a b) s P)"
  by (cases x) simp

lemma runs_case_sum [simp]:
  "runs (case x of Inl a \<Rightarrow> f a | Inr b \<Rightarrow> g b) s P =
     (case x of Inl a \<Rightarrow> runs (f a) s P | Inr b \<Rightarrow> runs (g b) s P)"
  by (cases x) simp_all

lemma runs_mono: "runs m s P \<Longrightarrow> (\<And>x t. P x t \<Longrightarrow> Q x t) \<Longrightarrow> runs m s Q"
  by (auto simp: runs_iff)

lemma runs_conj: "runs m s (\<lambda>x t. P x t \<and> Q x t) \<longleftrightarrow> runs m s P \<and> runs m s Q"
  by (auto simp: runs_iff)

lemma runs_OkD: "runs m s P \<Longrightarrow> m s = Ok x t \<Longrightarrow> P x t"
  by (simp add: runs_def)

text \<open>The same combinators as equations on outcomes, for the branches that do not return.\<close>

lemma ret_app [simp]: "ret x s = Ok x s"
  by (simp add: ret_def)

lemma gets_app [simp]: "gets f s = Ok (f s) s"
  by (simp add: gets_def)

lemma modify_app [simp]: "modify f s = Ok () (f s)"
  by (simp add: modify_def)

lemma stop_app [simp]:
  "panic e s = Panic e" "fault e s = Fault e" "block w s = Block w s"
  by (simp_all add: panic_def fault_def block_def)

lemma kwhen_app [simp]: "kwhen b m s = (if b then m s else Ok () s)"
  by (simp add: kwhen_def)

lemma kbind_Ok [simp]: "m s = Ok x t \<Longrightarrow> kbind m f s = f x t"
  by (simp add: kbind_def)

lemma kthen_Ok [simp]: "m s = Ok () t \<Longrightarrow> kthen m n s = n t"
  by (simp add: kthen_def)

lemma kbind_stop [simp]:
  "m s = Panic e \<Longrightarrow> kbind m f s = Panic e" "m s = Fault e \<Longrightarrow> kbind m f s = Fault e"
  "m s = Block w t \<Longrightarrow> kbind m f s = Block w t"
  by (simp_all add: kbind_def)

lemma kthen_stop [simp]:
  "m s = Panic e \<Longrightarrow> kthen m n s = Panic e" "m s = Fault e \<Longrightarrow> kthen m n s = Fault e"
  "m s = Block w t \<Longrightarrow> kthen m n s = Block w t"
  by (simp_all add: kthen_def)

text \<open>Loop rules: an invariant that every iteration keeps, indexed by the iterations left.\<close>

lemma kforall_append: "kforall (xs @ ys) body = kthen (kforall xs body) (kforall ys body)"
proof (induction xs)
  case (Cons x xs)
  then show ?case by (auto simp: kthen_def kbind_def fun_eq_iff split: outcome.split)
qed (simp add: kthen_def kbind_def ret_def)

text \<open>The list of indices a loop has still to visit.\<close>

lemma upt_Cons: "i # is = [k..<n] \<Longrightarrow> k < n \<and> i = k \<and> is = [Suc k..<n]"
  using upt_eq_Cons_conv [of k n i "is"] by auto

lemma upt_Nil: "[] = [k..<n] \<Longrightarrow> k \<le> n \<Longrightarrow> k = n"
  by (cases "k < n") (simp_all add: upt_conv_Cons)

lemma runs_kforall_inv:
  assumes "I is s"
    and "\<And>i is s. I (i # is) s \<Longrightarrow> runs (body i) s (\<lambda>_ t. I is t)"
  shows "runs (kforall is body) s (\<lambda>_ t. I [] t)"
  using assms(1)
proof (induction "is" arbitrary: s)
  case Nil
  then show ?case by simp
next
  case (Cons i "is")
  have "runs (body i) s (\<lambda>_ t. I is t)" by (rule assms(2)) (rule Cons.prems)
  then show ?case by (auto intro: runs_mono Cons.IH)
qed

text \<open>A loop whose iterations all return and update the state by a function.\<close>

lemma kforall_fold:
  assumes "\<And>i s. i \<in> set is \<Longrightarrow> I s \<Longrightarrow> body i s = Ok () (f i s) \<and> I (f i s)" and "I s"
  shows "kforall is body s = Ok () (fold f is s) \<and> I (fold f is s)"
  using assms
proof (induction "is" arbitrary: s)
  case (Cons i "is")
  then have "body i s = Ok () (f i s)" "I (f i s)" by simp_all
  then show ?case using Cons.IH [of "f i s"] Cons.prems(1) by simp
qed simp

text \<open>A loop that passes over iterations without effect until one leaves it.\<close>

lemma kfor_skip:
  "(\<And>i. i \<in> set is \<Longrightarrow> body i s = Ok None s) \<Longrightarrow> kfor (is @ js) body s = kfor js body s"
  by (induction "is") simp_all

lemma kfor_None:
  "(\<And>i. i \<in> set is \<Longrightarrow> body i s = Ok None s) \<Longrightarrow> kfor is body s = Ok None s"
  using kfor_skip [of "is" body s "[]"] by simp

lemma kfor_first:
  assumes "\<And>i. a \<le> i \<Longrightarrow> i < k \<Longrightarrow> body i s = Ok None s" "a \<le> k" "k < n" "body k s = Ok (Some b) t"
  shows "kfor [a..<n] body s = Ok (Some b) t"
proof -
  have "[a..<n] = [a..<k] @ k # [Suc k..<n]"
    using assms(2,3) by (metis le_add_diff_inverse less_imp_le upt_add_eq_append upt_conv_Cons)
  then show ?thesis using kfor_skip [of "[a..<k]" body s] assms(1,4) by simp
qed

lemma runs_kfor_inv:
  assumes "I is s"
    and "\<And>i is s. I (i # is) s \<Longrightarrow>
      runs (body i) s (\<lambda>r t. case r of None \<Rightarrow> I is t | Some b \<Rightarrow> Q b t)"
  shows "runs (kfor is body) s (\<lambda>r t. case r of None \<Rightarrow> I [] t | Some b \<Rightarrow> Q b t)"
  using assms(1)
proof (induction "is" arbitrary: s)
  case Nil
  then show ?case by simp
next
  case (Cons i "is")
  have "runs (body i) s (\<lambda>r t. case r of None \<Rightarrow> I is t | Some b \<Rightarrow> Q b t)"
    by (rule assms(2)) (rule Cons.prems)
  then have "runs (body i) s (\<lambda>r t. case r of
      None \<Rightarrow> runs (kfor is body) t (\<lambda>r t. case r of None \<Rightarrow> I [] t | Some b \<Rightarrow> Q b t)
    | Some b \<Rightarrow> Q b t)"
  proof (rule runs_mono)
    fix r t
    assume "case r of None \<Rightarrow> I is t | Some b \<Rightarrow> Q b t"
    then show "case r of
        None \<Rightarrow> runs (kfor is body) t (\<lambda>r t. case r of None \<Rightarrow> I [] t | Some b \<Rightarrow> Q b t)
      | Some b \<Rightarrow> Q b t"
      by (cases r) (simp_all add: Cons.IH)
  qed
  then show ?case by (simp cong: option.case_cong)
qed

lemma runs_kloop_inv:
  assumes "I l s" and "measure_of l < n"
    and "\<And>l s. I l s \<Longrightarrow>
      runs (body l) s (\<lambda>r t. case r of Inl l' \<Rightarrow> I l' t \<and> measure_of l' < (measure_of l :: nat) | Inr b \<Rightarrow> Q b t)"
  shows "runs (kloop n body l) s Q"
  using assms(1,2)
proof (induction n arbitrary: l s)
  case 0
  then show ?case by simp
next
  case (Suc n)
  have "runs (body l) s (\<lambda>r t. case r of Inl l' \<Rightarrow> runs (kloop n body l') t Q | Inr b \<Rightarrow> Q b t)"
    using assms(3) [OF Suc.prems(1)]
  proof (rule runs_mono)
    fix r t
    assume "case r of Inl l' \<Rightarrow> I l' t \<and> measure_of l' < measure_of l | Inr b \<Rightarrow> Q b t"
    then show "case r of Inl l' \<Rightarrow> runs (kloop n body l') t Q | Inr b \<Rightarrow> Q b t"
      using Suc by (cases r) auto
  qed
  then show ?case by (simp cong: sum.case_cong)
qed

lemma runs_kloop_step:
  "0 < n \<Longrightarrow> runs (kloop n body l) s P =
     runs (body l) s (\<lambda>r t. case r of Inl l' \<Rightarrow> runs (kloop (n - 1) body l') t P | Inr b \<Rightarrow> P b t)"
  by (cases n) (simp_all cong: sum.case_cong)

section \<open>Words\<close>

lemma unat_u8: "unat (x :: u8) < 256"
  using unsigned_less [of x, where ?'a = nat] by simp

lemma unat_u16: "unat (x :: u16) < 65536"
  using unsigned_less [of x, where ?'a = nat] by simp

lemma unat_u32: "unat (x :: u32) < 4294967296"
  using unsigned_less [of x, where ?'a = nat] by simp

lemma unat_u64: "unat (x :: u64) < 18446744073709551616"
  using unsigned_less [of x, where ?'a = nat] by simp

lemma unat_ucast_u32_u64 [simp]: "unat (ucast (n :: u32) :: u64) = unat n"
  using unat_u32 [of n] by (simp add: unsigned_ucast_eq take_bit_nat_eq_self)

lemma uint_diff_eq_0 [simp]: "uint x - uint y = 0 \<longleftrightarrow> x = y"
  by (simp add: word_uint_eq_iff)

lemma unat_of_nat_u64: "k < 2 ^ 64 \<Longrightarrow> unat (of_nat k :: u64) = k"
  by (simp add: unat_of_nat)

lemma unat_diff_eq_iff:
  fixes a d :: u64
  assumes "k < 2 ^ 64"
  shows "unat (a - d) = k \<longleftrightarrow> a = d + of_nat k"
proof
  assume "unat (a - d) = k"
  then have "a - d = of_nat k" by auto
  then show "a = d + of_nat k" by (simp add: algebra_simps)
next
  assume "a = d + of_nat k"
  with assms show "unat (a - d) = k" by (simp add: unat_of_nat)
qed

end
