(* ===== verification/Xv6_String.thy ===== *)
theory Xv6_String
  imports Xv6_Prelude
begin

text \<open>
  kernel/string.c. \<open>memset\<close>, \<open>memcmp\<close> and \<open>memmove\<close> work on physical memory and take addresses.
  The string routines take the bytes a \<open>char *\<close> points at as a function of the index, \<open>p i\<close> for
  \<open>p[i]\<close>, so that they apply both to memory and to an array field of a structure; a routine that
  writes returns the updated array.
\<close>

section \<open>Memory blocks\<close>

definition memset :: "u64 \<Rightarrow> int \<Rightarrow> u32 \<Rightarrow> memory \<Rightarrow> memory" where
  "memset dst c n m = fold (\<lambda>i m. m(dst + of_nat i := word_of_int c)) [0..<unat n] m"

fun memcmp_loop :: "nat \<Rightarrow> u64 \<Rightarrow> u64 \<Rightarrow> memory \<Rightarrow> int" where
  "memcmp_loop 0 s1 s2 m = 0"
| "memcmp_loop (Suc n) s1 s2 m =
     (if m s1 \<noteq> m s2 then uint (m s1) - uint (m s2) else memcmp_loop n (s1 + 1) (s2 + 1) m)"

definition memcmp :: "u64 \<Rightarrow> u64 \<Rightarrow> u32 \<Rightarrow> memory \<Rightarrow> int" where
  "memcmp v1 v2 n m = memcmp_loop (unat n) v1 v2 m"

fun memmove_down :: "nat \<Rightarrow> u64 \<Rightarrow> u64 \<Rightarrow> memory \<Rightarrow> memory" where
  "memmove_down 0 d s m = m"
| "memmove_down (Suc n) d s m = memmove_down n (d - 1) (s - 1) (m(d - 1 := m (s - 1)))"

fun memmove_up :: "nat \<Rightarrow> u64 \<Rightarrow> u64 \<Rightarrow> memory \<Rightarrow> memory" where
  "memmove_up 0 d s m = m"
| "memmove_up (Suc n) d s m = memmove_up n (d + 1) (s + 1) (m(d := m s))"

definition memmove :: "u64 \<Rightarrow> u64 \<Rightarrow> u32 \<Rightarrow> memory \<Rightarrow> memory" where
  "memmove dst src n m =
     (if n = 0 then m
      else if src < dst \<and> src + ucast n > dst
      then memmove_down (unat n) (dst + ucast n) (src + ucast n) m
      else memmove_up (unat n) dst src m)"

definition memcpy :: "u64 \<Rightarrow> u64 \<Rightarrow> u32 \<Rightarrow> memory \<Rightarrow> memory" where
  "memcpy dst src n m = memmove dst src n m"

section \<open>Strings\<close>

fun strncmp_loop :: "(nat \<Rightarrow> u8) \<Rightarrow> (nat \<Rightarrow> u8) \<Rightarrow> nat \<Rightarrow> nat \<Rightarrow> int" where
  "strncmp_loop p q i 0 = 0"
| "strncmp_loop p q i (Suc n) =
     (if p i \<noteq> 0 \<and> p i = q i then strncmp_loop p q (Suc i) n else uint (p i) - uint (q i))"

definition strncmp :: "(nat \<Rightarrow> u8) \<Rightarrow> (nat \<Rightarrow> u8) \<Rightarrow> u32 \<Rightarrow> int" where
  "strncmp p q n = strncmp_loop p q 0 (unat n)"

fun strncpy_pad :: "(nat \<Rightarrow> u8) \<Rightarrow> nat \<Rightarrow> nat \<Rightarrow> nat \<Rightarrow> u8" where
  "strncpy_pad s i 0 = s"
| "strncpy_pad s i (Suc n) = strncpy_pad (s(i := 0)) (Suc i) n"

fun strncpy_copy :: "(nat \<Rightarrow> u8) \<Rightarrow> (nat \<Rightarrow> u8) \<Rightarrow> nat \<Rightarrow> nat \<Rightarrow> nat \<Rightarrow> u8" where
  "strncpy_copy s t i 0 = s"
| "strncpy_copy s t i (Suc n) =
     (if t i \<noteq> 0 then strncpy_copy (s(i := t i)) t (Suc i) n
      else strncpy_pad (s(i := t i)) (Suc i) n)"

definition strncpy :: "(nat \<Rightarrow> u8) \<Rightarrow> (nat \<Rightarrow> u8) \<Rightarrow> int \<Rightarrow> nat \<Rightarrow> u8" where
  "strncpy s t n = strncpy_copy s t 0 (nat n)"

text \<open>\<open>safestrcpy_loop s t i n\<close> enters the loop head with \<open>n > 0\<close> still to be decremented.\<close>

fun safestrcpy_loop :: "(nat \<Rightarrow> u8) \<Rightarrow> (nat \<Rightarrow> u8) \<Rightarrow> nat \<Rightarrow> nat \<Rightarrow> nat \<Rightarrow> u8" where
  "safestrcpy_loop s t i 0 = s"
| "safestrcpy_loop s t i (Suc n) =
     (if n > 0
      then if t i \<noteq> 0 then safestrcpy_loop (s(i := t i)) t (Suc i) n
           else (s(i := t i))(Suc i := 0)
      else s(i := 0))"

definition safestrcpy :: "(nat \<Rightarrow> u8) \<Rightarrow> (nat \<Rightarrow> u8) \<Rightarrow> int \<Rightarrow> nat \<Rightarrow> u8" where
  "safestrcpy s t n = (if n \<le> 0 then s else safestrcpy_loop s t 0 (nat n))"

text \<open>\<open>strlen\<close> scans until a NUL byte; without one it never returns.\<close>

partial_function (option) strlen_loop :: "(nat \<Rightarrow> u8) \<Rightarrow> nat \<Rightarrow> nat option" where
  "strlen_loop s n = (if s n = 0 then Some n else strlen_loop s (Suc n))"

definition strlen :: "(nat \<Rightarrow> u8) \<Rightarrow> nat option" where
  "strlen s = strlen_loop s 0"

section \<open>What the block routines do\<close>

lemma fold_upd_range:
  "k \<le> 2 ^ 64 \<Longrightarrow> fold (\<lambda>i m. m(d + of_nat i := c)) [0..<k] m a =
     (if unat (a - d :: u64) < k then c else m a)"
proof (induction k)
  case 0
  then show ?case by simp
next
  case (Suc k)
  then have "a = d + of_nat k \<longleftrightarrow> unat (a - d) = k"
    by (subst unat_diff_eq_iff) auto
  with Suc show ?case by auto
qed

lemma memset_apply:
  "memset d c n m a = (if unat (a - d) < unat n then word_of_int c else m a)"
proof -
  have "unat n \<le> 2 ^ 64" using unat_u32 [of n] by simp
  then show ?thesis unfolding memset_def by (rule fold_upd_range)
qed

text \<open>The two copying directions of \<open>memmove\<close>. Each is correct when the block it has yet to read
  is not one it has already written: upwards when the destination starts at or below the source
  or the blocks are disjoint, downwards when it starts above.\<close>

lemma memmove_up_apply:
  assumes "unat s + n \<le> 2 ^ 64" "unat d + n \<le> 2 ^ 64"
    and "unat d \<le> unat s \<or> unat s + n \<le> unat d"
  shows "memmove_up n d s m a = (if unat (a - d) < n then m (s + (a - d)) else m a)"
  using assms
proof (induction n arbitrary: d s m)
  case 0
  then show ?case by simp
next
  case (Suc n)
  show ?case
  proof (cases "n = 0")
    case True
    then show ?thesis
      by (auto simp: unat_diff_eq_iff)
  next
    case False
    have s1: "unat (s + 1) = unat s + 1" and d1: "unat (d + 1) = unat d + 1"
      using Suc.prems False by (simp_all add: unat_plus_if')
    have IH: "memmove_up n (d + 1) (s + 1) (m(d := m s)) a =
      (if unat (a - (d + 1)) < n then (m(d := m s)) (s + 1 + (a - (d + 1))) else (m(d := m s)) a)"
      using Suc.prems False by (intro Suc.IH) (auto simp: s1 d1)
    show ?thesis
    proof (cases "a = d")
      case True
      with IH show ?thesis using Suc.prems by simp
    next
      case False
      define k where "k = unat (a - d)"
      have a: "a = d + of_nat k" by (simp add: k_def)
      have k: "0 < k" "k < 2 ^ 64" using False unat_u64 [of "a - d"] by (simp_all add: k_def unat_gt_0)
      have ad: "unat (a - (d + 1)) = k - 1"
      proof -
        have "a - (d + 1) = of_nat (k - 1)" using k by (simp add: a of_nat_diff)
        then show ?thesis using k by (simp only:) (rule unat_of_nat_u64, simp)
      qed
      have sk: "s + (a - d) \<noteq> d" if "k < Suc n"
      proof -
        have "unat (s + (a - d)) = unat s + k"
          using Suc.prems(1) that k by (simp add: unat_plus_if' flip: k_def)
        then have "unat (s + (a - d)) \<noteq> unat d" using Suc.prems(3) that k by auto
        then show ?thesis by metis
      qed
      have e: "s + 1 + (a - (d + 1)) = s + (a - d)" by simp
      show ?thesis
      proof (cases "k < Suc n")
        case True
        then have "memmove_up n (d + 1) (s + 1) (m(d := m s)) a = (m(d := m s)) (s + (a - d))"
          using True k(1) by (subst IH) (simp add: e ad less_diff_conv2)
        then show ?thesis using True sk by (simp flip: k_def)
      next
        case False
        then have "memmove_up n (d + 1) (s + 1) (m(d := m s)) a = m a"
          using \<open>a \<noteq> d\<close> k(1) by (subst IH) (simp add: ad less_diff_conv2)
        then show ?thesis using False by (simp flip: k_def)
      qed
    qed
  qed
qed

lemma memmove_down_apply:
  assumes "unat s + n \<le> 2 ^ 64" "unat d + n < 2 ^ 64"
    and "unat s \<le> unat d"
  shows "memmove_down n (d + of_nat n) (s + of_nat n) m a =
    (if unat (a - d) < n then m (s + (a - d)) else m a)"
  using assms
proof (induction n arbitrary: m)
  case 0
  then show ?case by simp
next
  case (Suc n)
  have IH: "memmove_down n (d + of_nat n) (s + of_nat n) (m(d + of_nat n := m (s + of_nat n))) a =
    (if unat (a - d) < n then (m(d + of_nat n := m (s + of_nat n))) (s + (a - d))
     else (m(d + of_nat n := m (s + of_nat n))) a)"
    using Suc.prems by (intro Suc.IH) auto
  have last: "a = d + of_nat n \<longleftrightarrow> unat (a - d) = n"
    using Suc.prems by (subst unat_diff_eq_iff) auto
  have "s + (a - d) \<noteq> d + of_nat n" if "unat (a - d) < n"
  proof -
    have "unat (s + (a - d)) = unat s + unat (a - d)"
      using Suc.prems(1) that by (simp add: unat_plus_if')
    moreover have "unat (d + of_nat n) = unat d + n"
      using Suc.prems(2) by (simp add: unat_plus_if' unat_of_nat)
    ultimately have "unat (s + (a - d)) \<noteq> unat (d + of_nat n)"
      using Suc.prems(3) that by simp
    then show ?thesis by metis
  qed
  moreover have "memmove_down (Suc n) (d + of_nat (Suc n)) (s + of_nat (Suc n)) m =
    memmove_down n (d + of_nat n) (s + of_nat n) (m(d + of_nat n := m (s + of_nat n)))"
    by simp
  ultimately show ?case using IH last by (simp only:) auto
qed

lemma memmove_apply:
  assumes "unat src + unat n < 2 ^ 64" "unat dst + unat n < 2 ^ 64"
  shows "memmove dst src n m a = (if unat (a - dst) < unat n then m (src + (a - dst)) else m a)"
proof (cases "n = 0")
  case True
  then show ?thesis by (simp add: memmove_def)
next
  case False
  have n: "ucast n = (of_nat (unat n) :: u64)" by simp
  show ?thesis
  proof (cases "src < dst \<and> src + ucast n > dst")
    case True
    then have "unat src \<le> unat dst" by (simp add: word_less_nat_alt)
    then show ?thesis
      using memmove_down_apply [OF less_imp_le [OF assms(1)] assms(2)] True False by (simp add: memmove_def flip: n)
  next
    case no: False
    have "unat dst \<le> unat src \<or> unat src + unat n \<le> unat dst"
    proof (rule ccontr)
      assume c: "\<not> (unat dst \<le> unat src \<or> unat src + unat n \<le> unat dst)"
      then have "unat (src + ucast n) = unat src + unat n"
        using assms(1) by (simp add: unat_plus_if')
      with c no show False by (simp add: word_less_nat_alt)
    qed
    then show ?thesis
      using memmove_up_apply [of src "unat n" dst] assms no False by (auto simp: memmove_def)
  qed
qed

lemma memcmp_loop_0_iff:
  "memcmp_loop n s1 s2 m = 0 \<longleftrightarrow> (\<forall>i < n. m (s1 + of_nat i) = m (s2 + of_nat i))"
proof (induction n arbitrary: s1 s2)
  case 0
  then show ?case by simp
next
  case (Suc n)
  have "(\<forall>i < Suc n. m (s1 + of_nat i) = m (s2 + of_nat i)) \<longleftrightarrow>
    m s1 = m s2 \<and> (\<forall>i < n. m (s1 + 1 + of_nat i) = m (s2 + 1 + of_nat i))"
    by (auto simp: less_Suc_eq_0_disj algebra_simps)
  moreover have "uint (m s1) = uint (m s2) \<longleftrightarrow> m s1 = m s2" by (simp add: word_uint_eq_iff)
  ultimately show ?case using Suc by simp
qed

section \<open>What the string routines do\<close>

text \<open>The C string in the first \<open>n\<close> bytes of \<open>p\<close>: everything before the first NUL.\<close>

definition cstr :: "nat \<Rightarrow> (nat \<Rightarrow> u8) \<Rightarrow> u8 list" where
  "cstr n p = takeWhile (\<lambda>c. c \<noteq> 0) (map p [0..<n])"

lemma cstr_0 [simp]: "cstr 0 p = []"
  by (simp add: cstr_def)

lemma cstr_Suc: "cstr (Suc n) p = (if p 0 = 0 then [] else p 0 # cstr n (\<lambda>i. p (Suc i)))"
proof -
  have "map p [0..<Suc n] = p 0 # map (\<lambda>i. p (Suc i)) [0..<n]"
    by (simp only: map_upt_Suc)
  then show ?thesis by (simp add: cstr_def)
qed

lemma strncmp_loop_0_iff:
  "strncmp_loop p q i n = 0 \<longleftrightarrow> cstr n (\<lambda>j. p (i + j)) = cstr n (\<lambda>j. q (i + j))"
proof (induction n arbitrary: i)
  case 0
  then show ?case by simp
next
  case (Suc n)
  then show ?case by (simp only: strncmp_loop.simps cstr_Suc uint_diff_eq_0 split: if_split) auto
qed

lemma strncmp_0_iff: "strncmp p q n = 0 \<longleftrightarrow> cstr (unat n) p = cstr (unat n) q"
  by (simp add: strncmp_def strncmp_loop_0_iff)

lemma strncpy_pad_apply: "strncpy_pad s i n j = (if i \<le> j \<and> j < i + n then 0 else s j)"
  by (induction n arbitrary: s i) auto

lemma strncpy_copy_apply:
  "strncpy_copy s t i n j =
     (if i \<le> j \<and> j < i + n then if \<exists>k. i \<le> k \<and> k < j \<and> t k = 0 then 0 else t j else s j)"
proof (induction n arbitrary: s i)
  case 0
  then show ?case by auto
next
  case (Suc n)
  show ?case
  proof (cases "t i = 0")
    case True
    then show ?thesis by (auto simp: strncpy_pad_apply)
  next
    case False
    then have "(\<exists>k. i \<le> k \<and> k < j \<and> t k = 0) \<longleftrightarrow> (\<exists>k. Suc i \<le> k \<and> k < j \<and> t k = 0)"
      by (metis Suc_leD Suc_leI le_neq_implies_less)
    with False show ?thesis by (auto simp: Suc.IH)
  qed
qed

lemma strncpy_apply:
  "strncpy s t n i = (if int i < n then if \<exists>k < i. t k = 0 then 0 else t i else s i)"
  by (auto simp: strncpy_def strncpy_copy_apply)

lemma safestrcpy_loop_frame:
  "j < i \<or> i + n \<le> j \<Longrightarrow> safestrcpy_loop s t i n j = s j"
  by (induction n arbitrary: s i) auto

lemma safestrcpy_loop_cstr:
  "0 < n \<Longrightarrow>
     cstr n (\<lambda>j. safestrcpy_loop s t i n (i + j)) = cstr (n - 1) (\<lambda>j. t (i + j))"
proof (induction n arbitrary: s i)
  case 0
  then show ?case by simp
next
  case (Suc n)
  show ?case
  proof (cases "n = 0 \<or> t i = 0")
    case True
    then show ?thesis by (cases n) (auto simp: cstr_Suc)
  next
    case False
    have "cstr n (\<lambda>j. safestrcpy_loop (s(i := t i)) t (Suc i) n (Suc i + j)) =
        cstr (n - 1) (\<lambda>j. t (Suc i + j))"
      using False by (intro Suc.IH) simp
    moreover have "safestrcpy_loop (s(i := t i)) t (Suc i) n i = t i"
      by (simp add: safestrcpy_loop_frame)
    moreover have "safestrcpy_loop s t i (Suc n) = safestrcpy_loop (s(i := t i)) t (Suc i) n"
      using False by simp
    moreover have "cstr n (\<lambda>j. t (i + j)) = t i # cstr (n - 1) (\<lambda>j. t (Suc i + j))"
      using False by (cases n) (auto simp: cstr_Suc)
    ultimately show ?thesis using False by (simp only: cstr_Suc) simp
  qed
qed

lemma cstr_short_iff: "length (cstr n p) < n \<longleftrightarrow> (\<exists>i < n. p i = 0)"
proof (induction n arbitrary: p)
  case 0
  then show ?case by simp
next
  case (Suc n)
  then show ?case by (auto simp: cstr_Suc less_Suc_eq_0_disj)
qed

lemma length_cstr_le: "length (cstr n p) \<le> n"
  using length_takeWhile_le [of "\<lambda>c. c \<noteq> 0" "map p [0..<n]"] by (simp add: cstr_def)

lemma safestrcpy_cstr:
  "0 < n \<Longrightarrow> cstr (nat n) (safestrcpy s t n) = cstr (nat n - 1) t"
  using safestrcpy_loop_cstr [of "nat n" s t 0] by (simp add: safestrcpy_def)

lemma safestrcpy_nul: "0 < n \<Longrightarrow> \<exists>i < nat n. safestrcpy s t n i = 0"
  using length_cstr_le [of "nat n - 1" t] by (simp flip: cstr_short_iff add: safestrcpy_cstr)

lemma safestrcpy_frame: "n \<le> int i \<Longrightarrow> safestrcpy s t n i = s i"
  by (simp add: safestrcpy_def safestrcpy_loop_frame)

lemma strlen_loop_Some:
  "s k = 0 \<Longrightarrow> (\<forall>j. i \<le> j \<and> j < k \<longrightarrow> s j \<noteq> 0) \<Longrightarrow> i \<le> k \<Longrightarrow> strlen_loop s i = Some k"
proof (induction "k - i" arbitrary: i)
  case 0
  then show ?case by (subst strlen_loop.simps) simp
next
  case (Suc d)
  then have "strlen_loop s (Suc i) = Some k" by (intro Suc.hyps(1)) auto
  moreover have "s i \<noteq> 0" using Suc.prems Suc.hyps(2) by auto
  ultimately show ?case by (subst strlen_loop.simps) simp
qed

lemma strlen_eq_length_cstr:
  assumes "\<exists>i < n. s i = 0"
  shows "strlen s = Some (length (cstr n s))"
proof -
  let ?xs = "map s [0..<n]"
  have len: "length (cstr n s) < n" using assms by (simp add: cstr_short_iff)
  have nz: "\<forall>j < length (cstr n s). s j \<noteq> 0"
  proof (intro allI impI)
    fix j assume j: "j < length (cstr n s)"
    then have "cstr n s ! j = s j" using len by (simp add: cstr_def takeWhile_nth)
    moreover have "cstr n s ! j \<in> set (cstr n s)" using j by (rule nth_mem)
    ultimately show "s j \<noteq> 0" by (auto simp: cstr_def dest: set_takeWhileD)
  qed
  have "?xs ! length (cstr n s) = 0"
    using nth_length_takeWhile [of "\<lambda>c. c \<noteq> 0" ?xs] len by (simp add: cstr_def)
  with nz len show ?thesis by (simp add: strlen_def strlen_loop_Some)
qed

section \<open>Properties\<close>

text \<open>C15: \<open>memmove\<close> copies as if through a temporary, for every overlap of the two blocks: the
  destination block ends up with the old contents of the source block and no other byte changes,
  as long as neither block runs past the end of the address space.\<close>

theorem memmove_correct:
  assumes "unat src + unat n < 2 ^ 64" and "unat dst + unat n < 2 ^ 64"
  shows "(\<forall>i < unat n. memmove dst src n m (dst + of_nat i) = m (src + of_nat i)) \<and>
    (\<forall>a. unat n \<le> unat (a - dst) \<longrightarrow> memmove dst src n m a = m a)"
proof -
  have "unat (of_nat i :: u64) = i" if "i < unat n" for i
    using that unat_u32 [of n] by (simp add: unat_of_nat)
  then show ?thesis by (auto simp: memmove_apply [OF assms])
qed

theorem memmove_correct_witness:
  "unat (100 :: u64) + unat (4 :: u32) < 2 ^ 64 \<and> unat (102 :: u64) + unat (4 :: u32) < 2 ^ 64 \<and>
   memmove 102 100 4 (\<lambda>a. ucast a) 105 = 103"
proof -
  have "\<forall>i < 4. memmove 102 100 4 (\<lambda>a. ucast a) (102 + of_nat i) = ucast (100 + of_nat i :: u64)"
    using memmove_correct [of 100 4 102 "\<lambda>a. ucast a"] by simp
  from this [rule_format, of 3] show ?thesis by simp
qed

text \<open>C16: \<open>safestrcpy\<close> always NUL-terminates within a non-empty destination, stores the source
  string cut to \<open>n - 1\<close> bytes, and writes nothing outside the destination array.\<close>

theorem safestrcpy_correct:
  assumes "0 < n"
  shows "(\<exists>i < nat n. safestrcpy s t n i = 0) \<and>
    cstr (nat n) (safestrcpy s t n) = cstr (nat n - 1) t \<and>
    (\<forall>i. nat n \<le> i \<longrightarrow> safestrcpy s t n i = s i)"
  using assms by (auto simp: safestrcpy_nul safestrcpy_cstr safestrcpy_frame nat_le_iff)

theorem safestrcpy_correct_witness:
  "0 < (3 :: int) \<and> cstr 3 (safestrcpy (\<lambda>_. 7) (\<lambda>i. if i < 5 then 9 else 0) 3) = [9, 9]"
proof -
  have "cstr 2 (\<lambda>i. if i < 5 then 9 else 0) = [9, 9]" by code_simp
  then show ?thesis
    using safestrcpy_correct [of 3 "\<lambda>_. 7" "\<lambda>i. if i < 5 then 9 else 0"] by simp
qed

end
