(* ===== verification/Xv6_Mem.thy ===== *)
theory Xv6_Mem
  imports Xv6_String
begin

text \<open>
  64-bit accesses to physical memory, page numbers and page rounding (riscv.h), and what block
  operations on one page do to accesses in that page and outside it.
\<close>

section \<open>Loads and stores\<close>

text \<open>RISC-V is little endian: bit \<open>n\<close> of the double word at \<open>a\<close> is bit \<open>n mod 8\<close> of the byte at
  \<open>a + n div 8\<close>.\<close>

definition load64 :: "memory \<Rightarrow> u64 \<Rightarrow> u64" where
  "load64 m a = horner_sum of_bool 2 (map (\<lambda>n. bit (m (a + of_nat (n div 8))) (n mod 8)) [0..<64])"

definition store64 :: "u64 \<Rightarrow> u64 \<Rightarrow> memory \<Rightarrow> memory" where
  "store64 a v m = (\<lambda>x. if unat (x - a) < 8 then ucast (drop_bit (8 * unat (x - a)) v) else m x)"

section \<open>Pages\<close>

definition PGSIZE :: u64 where
  "PGSIZE = 4096"

definition PGROUNDUP :: "u64 \<Rightarrow> u64" where
  "PGROUNDUP sz = (sz + PGSIZE - 1) AND NOT (PGSIZE - 1)"

definition PGROUNDDOWN :: "u64 \<Rightarrow> u64" where
  "PGROUNDDOWN a = a AND NOT (PGSIZE - 1)"

lemma bit_load64: "bit (load64 m a) n \<longleftrightarrow> n < 64 \<and> bit (m (a + of_nat (n div 8))) (n mod 8)"
  by (auto simp: load64_def bit_horner_sum_bit_word_iff)

lemma load64_cong: "(\<And>i. i < 8 \<Longrightarrow> m (a + of_nat i) = m' (a + of_nat i)) \<Longrightarrow> load64 m a = load64 m' a"
  by (rule bit_word_eqI) (auto simp: bit_load64 less_mult_imp_div_less)

lemma load64_store64: "load64 (store64 a v m) a = v"
proof (rule bit_word_eqI)
  fix n assume n: "n < LENGTH(64)"
  have "unat (of_nat (n div 8) :: u64) = n div 8"
    using n by (simp add: unat_of_nat)
  then show "bit (load64 (store64 a v m) a) n = bit v n"
    using n by (auto simp: bit_load64 store64_def bit_simps less_mult_imp_div_less)
qed

lemma load64_const: "(\<And>i. i < 8 \<Longrightarrow> m (a + of_nat i) = 0) \<Longrightarrow> load64 m a = 0"
  by (rule bit_word_eqI) (auto simp: bit_load64 less_mult_imp_div_less)

text \<open>The page an address lies in, and a page's base address.\<close>

definition pageno :: "u64 \<Rightarrow> nat" where
  "pageno a = unat a div 4096"

definition page_aligned :: "u64 \<Rightarrow> bool" where
  "page_aligned a \<longleftrightarrow> a mod PGSIZE = 0"

lemma page_aligned_unat: "page_aligned a \<longleftrightarrow> unat a mod 4096 = 0"
proof -
  have "unat (a mod 4096) = unat a mod 4096" by (simp add: unat_mod)
  then show ?thesis by (simp add: page_aligned_def PGSIZE_def) (metis unat_0 unat_eq_zero)
qed

lemma page_aligned_eqI: "page_aligned p \<Longrightarrow> page_aligned q \<Longrightarrow> pageno p = pageno q \<Longrightarrow> p = q"
  unfolding page_aligned_unat pageno_def
  by (metis div_mult_mod_eq add.right_neutral word_unat_eq_iff)

lemma in_page_iff:
  assumes "page_aligned p"
  shows "unat (x - p) < 4096 \<longleftrightarrow> pageno x = pageno p"
proof -
  obtain k where k: "unat p = 4096 * k" using assms by (auto simp: page_aligned_unat)
  have p: "k < 4503599627370496" using k unat_u64 [of p] by simp
  show ?thesis
  proof (cases "p \<le> x")
    case True
    then show ?thesis using k by (auto simp: unat_sub_if' word_le_nat_alt pageno_def)
  next
    case False
    then have "unat (x - p) = 2 ^ 64 + unat x - unat p" "unat x < unat p"
      by (auto simp: unat_sub_if' word_le_nat_alt)
    then show ?thesis using k p by (auto simp: pageno_def)
  qed
qed

lemma PGROUNDDOWN_unat: "unat (PGROUNDDOWN a) = unat a div 4096 * 4096"
proof -
  have "PGROUNDDOWN a = push_bit 12 (drop_bit 12 a)"
  proof (rule bit_word_eqI)
    fix n assume "n < LENGTH(64)"
    moreover have "PGSIZE - 1 = mask 12" by (simp add: PGSIZE_def mask_eq_exp_minus_1)
    ultimately show "bit (PGROUNDDOWN a) n = bit (push_bit 12 (drop_bit 12 a)) n"
      by (auto simp: PGROUNDDOWN_def bit_simps)
  qed
  then have "unat (PGROUNDDOWN a) = take_bit 64 (push_bit 12 (drop_bit 12 (unat a)))"
    using unat_u64 [of a] by (simp add: unsigned_push_bit_eq unsigned_drop_bit_eq take_bit_nat_eq_self)
  also have "\<dots> = unat a div 4096 * 4096"
    using unat_u64 [of a] by (simp add: push_bit_eq_mult drop_bit_eq_div take_bit_nat_eq_self_iff)
  finally show ?thesis .
qed

lemma PGROUNDUP_eq: "PGROUNDUP a = PGROUNDDOWN (a + PGSIZE - 1)"
  by (simp add: PGROUNDUP_def PGROUNDDOWN_def)

lemma PGROUNDUP_unat:
  "unat a + 4095 < 2 ^ 64 \<Longrightarrow> unat (PGROUNDUP a) = (unat a + 4095) div 4096 * 4096"
  by (simp add: PGROUNDUP_eq PGROUNDDOWN_unat PGSIZE_def unat_plus_if')

lemma page_aligned_PGROUND [simp]: "page_aligned (PGROUNDDOWN a)" "page_aligned (PGROUNDUP a)"
  by (simp_all add: page_aligned_unat PGROUNDUP_eq PGROUNDDOWN_unat)

lemma pageno_PGROUNDDOWN [simp]: "pageno (PGROUNDDOWN a) = pageno a"
  by (simp add: pageno_def PGROUNDDOWN_unat)

section \<open>Accesses to one page\<close>

text \<open>A double word that lies in one page; \<open>agree P m m'\<close>: the memories agree outside the pages \<open>P\<close>.\<close>

definition in_page8 :: "u64 \<Rightarrow> bool" where
  "in_page8 a \<longleftrightarrow> unat a mod 4096 \<le> 4088"

definition agree :: "nat set \<Rightarrow> memory \<Rightarrow> memory \<Rightarrow> bool" where
  "agree P m m' \<longleftrightarrow> (\<forall>x. pageno x \<notin> P \<longrightarrow> m x = m' x)"

lemma pageno_offset: "in_page8 a \<Longrightarrow> i < 8 \<Longrightarrow> pageno (a + of_nat i) = pageno a"
proof -
  assume a: "in_page8 a" and i: "i < 8"
  have "unat a mod 4096 + i < 4096" using a i by (simp add: in_page8_def)
  moreover have "unat a + i = (unat a mod 4096 + i) + unat a div 4096 * 4096" by simp
  ultimately have e: "(unat a + i) div 4096 = unat a div 4096"
    by (metis div_less div_mult_self1 add_0_right zero_neq_numeral)
  have "unat a + i < 2 ^ 64"
  proof -
    have "unat a div 4096 < 4503599627370496" using unat_u64 [of a] by simp
    with e show ?thesis by simp
  qed
  with i e show ?thesis by (simp add: pageno_def unat_plus_if' unat_of_nat)
qed

lemma in_page8_aligned [simp]: "page_aligned a \<Longrightarrow> in_page8 a"
  by (simp add: in_page8_def page_aligned_unat)

lemma store64_other: "in_page8 a \<Longrightarrow> pageno x \<noteq> pageno a \<Longrightarrow> store64 a v m x = m x"
proof -
  assume a: "in_page8 a" and x: "pageno x \<noteq> pageno a"
  have "\<not> unat (x - a) < 8"
  proof
    assume "unat (x - a) < 8"
    then have "pageno (a + of_nat (unat (x - a))) = pageno a" using a by (rule pageno_offset [rotated])
    with x show False by simp
  qed
  then show ?thesis by (simp add: store64_def)
qed

lemma load64_agree: "agree P m m' \<Longrightarrow> in_page8 a \<Longrightarrow> pageno a \<notin> P \<Longrightarrow> load64 m a = load64 m' a"
  by (rule load64_cong) (simp add: agree_def pageno_offset)

lemma agree_refl [simp]: "agree P m m"
  by (simp add: agree_def)

lemma agree_sym: "agree P m m' \<Longrightarrow> agree P m' m"
  by (simp add: agree_def)

lemma agree_trans: "agree P m m' \<Longrightarrow> agree Q m' m'' \<Longrightarrow> agree (P \<union> Q) m m''"
  by (simp add: agree_def)

lemma agree_mono: "agree P m m' \<Longrightarrow> P \<subseteq> Q \<Longrightarrow> agree Q m m'"
  by (auto simp: agree_def)

lemma agree_store64: "in_page8 a \<Longrightarrow> pageno a \<in> P \<Longrightarrow> agree P m (store64 a v m)"
  unfolding agree_def using store64_other by metis

lemma memset_page: "page_aligned p \<Longrightarrow>
  memset p c 4096 m x = (if pageno x = pageno p then word_of_int c else m x)"
  by (simp add: memset_apply in_page_iff)

lemma agree_memset: "page_aligned p \<Longrightarrow> pageno p \<in> P \<Longrightarrow> agree P m (memset p c 4096 m)"
  by (auto simp: agree_def memset_page)

lemma in_word_iff:
  fixes p x :: u64
  assumes "unat p mod 8 = 0"
  shows "unat (x - p) < 8 \<longleftrightarrow> unat x div 8 = unat p div 8"
proof -
  obtain k where k: "unat p = 8 * k" using assms by auto
  have p: "k < 2305843009213693952" using k unat_u64 [of p] by simp
  show ?thesis
  proof (cases "p \<le> x")
    case True
    then show ?thesis using k by (auto simp: unat_sub_if' word_le_nat_alt)
  next
    case False
    then have "unat (x - p) = 2 ^ 64 + unat x - unat p" "unat x < unat p"
      by (auto simp: unat_sub_if' word_le_nat_alt)
    then show ?thesis using k p by auto
  qed
qed

lemma load64_other_word:
  assumes "unat a mod 8 = 0" "unat b mod 8 = 0" "a \<noteq> b"
  shows "load64 (store64 a v m) b = load64 m b"
proof (rule load64_cong)
  fix i :: nat assume "i < 8"
  then have "unat (b + of_nat i) div 8 = unat b div 8"
    using in_word_iff [OF assms(2), of "b + of_nat i"] by (simp add: unat_of_nat)
  moreover have "unat b div 8 \<noteq> unat a div 8"
    using assms by (metis add.right_neutral div_mult_mod_eq word_unat_eq_iff)
  ultimately show "store64 a v m (b + of_nat i) = m (b + of_nat i)"
    using in_word_iff [OF assms(1), of "b + of_nat i"] by (simp add: store64_def)
qed

end
