(* ===== verification/Xv6_Spinlock.thy ===== *)
theory Xv6_Spinlock
  imports Xv6_Prelude
begin

text \<open>
  kernel/spinlock.c, with the interrupt-enable functions of riscv.h and \<open>cpuid\<close>/\<open>mycpu\<close> of
  proc.c they rest on.

  The state is a record \<open>hart\<close>: the hart that executes, the \<open>sstatus\<close> register and the
  \<open>struct cpu\<close> of every hart, and every spin lock. It is the field \<open>hw\<close> of the kernel state
  \<open>kbase\<close>, which the other components extend with their globals.

  The first half models the functions as the executing hart runs them, with the other harts
  standing still: \<open>acquire\<close> on a lock that another hart holds stops with \<open>Block (OnLock lk)\<close>, the
  spin loop. Its lemmas say that \<open>push_off\<close>/\<open>pop_off\<close> nest and that a lock that is taken and
  released again leaves the hart as it was. The second half is the lock as all harts see it: a
  step relation with one rule for each memory access or atomic swap of \<open>acquire\<close> and \<open>release\<close>,
  for any interleaving of the harts, and mutual exclusion as its invariant.
\<close>

section \<open>State\<close>

text \<open>\<open>struct spinlock\<close> (spinlock.h) and \<open>struct cpu\<close> (proc.h). The saved registers of a
  \<open>struct cpu\<close> are read and written by the assembly routine \<open>swtch\<close> only and are left out. A
  pointer into \<open>cpus[]\<close> or \<open>proc[]\<close> is an index, a null pointer is \<open>None\<close>.\<close>

record spinlock =
  locked :: u32
  lk_name :: string
  lk_cpu :: "nat option"

record cpu =
  c_proc :: "nat option"
  noff :: int
  intena :: bool

record hart =
  tp :: nat
  sstatus :: "nat \<Rightarrow> u64"
  cpus :: "nat \<Rightarrow> cpu"
  locks :: "lockid \<Rightarrow> spinlock"

text \<open>Addresses the linker assigns (kernel.ld, trampoline.S, kernelvec.S): the end of the kernel
  image, the end of its text, the trampoline page, and the entry points the C code refers to.\<close>

record symbols =
  sym_end :: u64
  sym_etext :: u64
  sym_trampoline :: u64
  sym_uservec :: u64
  sym_userret :: u64
  sym_kernelvec :: u64
  sym_usertrap :: u64
  sym_forkret :: u64

record kbase =
  hw :: hart
  mem :: memory
  sym :: symbols

section \<open>Interrupts and the current processor\<close>

definition SSTATUS_SIE :: u64 where
  "SSTATUS_SIE = push_bit 1 1"

definition set_sstatus :: "u64 \<Rightarrow> hart \<Rightarrow> hart" where
  "set_sstatus x h = h\<lparr>sstatus := (sstatus h)(tp h := x)\<rparr>"

definition intr_on :: "(unit, 'z kbase_scheme) M" where
  "intr_on = modify (\<lambda>s. s\<lparr>hw := set_sstatus (sstatus (hw s) (tp (hw s)) OR SSTATUS_SIE) (hw s)\<rparr>)"

definition intr_off :: "(unit, 'z kbase_scheme) M" where
  "intr_off = modify (\<lambda>s. s\<lparr>hw := set_sstatus (sstatus (hw s) (tp (hw s)) AND NOT SSTATUS_SIE) (hw s)\<rparr>)"

definition sie :: "hart \<Rightarrow> bool" where
  "sie h = (sstatus h (tp h) AND SSTATUS_SIE \<noteq> 0)"

definition intr_get :: "(bool, 'z kbase_scheme) M" where
  "intr_get = gets (\<lambda>s. sie (hw s))"

definition cpuid :: "(nat, 'z kbase_scheme) M" where
  "cpuid = gets (\<lambda>s. tp (hw s))"

definition mycpu :: "(nat, 'z kbase_scheme) M" where
  "mycpu = cpuid"

definition cur_cpu :: "hart \<Rightarrow> cpu" where
  "cur_cpu h = cpus h (tp h)"

definition set_cpu :: "nat \<Rightarrow> (cpu \<Rightarrow> cpu) \<Rightarrow> (unit, 'z kbase_scheme) M" where
  "set_cpu c f = modify (\<lambda>s. s\<lparr>hw := (hw s)\<lparr>cpus := (cpus (hw s))(c := f (cpus (hw s) c))\<rparr>\<rparr>)"

definition set_lock :: "lockid \<Rightarrow> (spinlock \<Rightarrow> spinlock) \<Rightarrow> (unit, 'z kbase_scheme) M" where
  "set_lock lk f = modify (\<lambda>s. s\<lparr>hw := (hw s)\<lparr>locks := (locks (hw s))(lk := f (locks (hw s) lk))\<rparr>\<rparr>)"

section \<open>spinlock.c\<close>

definition initlock :: "lockid \<Rightarrow> string \<Rightarrow> (unit, 'z kbase_scheme) M" where
  "initlock lk name = set_lock lk (\<lambda>l. l\<lparr>lk_name := name, locked := 0, lk_cpu := None\<rparr>)"

definition push_off :: "(unit, 'z kbase_scheme) M" where
  "push_off =
     kbind intr_get (\<lambda>old.
     kthen intr_off (
     kbind mycpu (\<lambda>c.
     kbind (gets (\<lambda>s. cpus (hw s) c)) (\<lambda>cp.
     kthen (kwhen (noff cp = 0) (set_cpu c (\<lambda>cp. cp\<lparr>intena := old\<rparr>)))
       (set_cpu c (\<lambda>cp. cp\<lparr>noff := noff cp + 1\<rparr>))))))"

definition pop_off :: "(unit, 'z kbase_scheme) M" where
  "pop_off =
     kbind mycpu (\<lambda>c.
     kbind intr_get (\<lambda>i.
     if i then panic ''pop_off - interruptible'' else
     kbind (gets (\<lambda>s. cpus (hw s) c)) (\<lambda>cp.
     if noff cp < 1 then panic ''pop_off'' else
     kthen (set_cpu c (\<lambda>cp. cp\<lparr>noff := noff cp - 1\<rparr>)) (
     kbind (gets (\<lambda>s. cpus (hw s) c)) (\<lambda>cp.
     kwhen (noff cp = 0 \<and> intena cp) intr_on)))))"

definition holding :: "lockid \<Rightarrow> (bool, 'z kbase_scheme) M" where
  "holding lk =
     kbind mycpu (\<lambda>c. gets (\<lambda>s. locked (locks (hw s) lk) \<noteq> 0 \<and> lk_cpu (locks (hw s) lk) = Some c))"

definition acquire :: "lockid \<Rightarrow> (unit, 'z kbase_scheme) M" where
  "acquire lk =
     kthen push_off (
     kbind (holding lk) (\<lambda>h.
     if h then panic ''acquire'' else
     kbind (gets (\<lambda>s. locked (locks (hw s) lk))) (\<lambda>old.
     kthen (set_lock lk (\<lambda>l. l\<lparr>locked := 1\<rparr>)) (
     if old \<noteq> 0 then block (OnLock lk) else
     kbind mycpu (\<lambda>c. set_lock lk (\<lambda>l. l\<lparr>lk_cpu := Some c\<rparr>))))))"

definition release :: "lockid \<Rightarrow> (unit, 'z kbase_scheme) M" where
  "release lk =
     kbind (holding lk) (\<lambda>h.
     if \<not> h then panic ''release'' else
     kthen (set_lock lk (\<lambda>l. l\<lparr>lk_cpu := None\<rparr>)) (
     kthen (set_lock lk (\<lambda>l. l\<lparr>locked := 0\<rparr>))
     pop_off))"

section \<open>Nesting of push_off and pop_off, and lock transparency\<close>

text \<open>A hart in order: interrupts are off while \<open>push_off\<close> calls are pending, and otherwise
  \<open>intena\<close> records whether they are on (every \<open>push_off\<close>/\<open>pop_off\<close> pair, hence every call of
  \<open>myproc\<close>, leaves it so). A lock is idle when no hart holds it.\<close>

definition hart_ok :: "hart \<Rightarrow> bool" where
  "hart_ok h \<longleftrightarrow> 0 \<le> noff (cur_cpu h) \<and> (0 < noff (cur_cpu h) \<longrightarrow> \<not> sie h) \<and>
     (noff (cur_cpu h) = 0 \<longrightarrow> intena (cur_cpu h) = sie h)"

definition lock_idle :: "hart \<Rightarrow> lockid \<Rightarrow> bool" where
  "lock_idle h lk \<longleftrightarrow> locked (locks h lk) = 0 \<and> lk_cpu (locks h lk) = None"

definition held :: "hart \<Rightarrow> lockid \<Rightarrow> bool" where
  "held h lk \<longleftrightarrow> locked (locks h lk) = 1 \<and> lk_cpu (locks h lk) = Some (tp h)"

text \<open>The effect of \<open>push_off\<close>, \<open>pop_off\<close>, \<open>acquire\<close> and \<open>release\<close> on the hart.\<close>

definition pushed :: "hart \<Rightarrow> hart" where
  "pushed h = h\<lparr>sstatus := (sstatus h)(tp h := sstatus h (tp h) AND NOT SSTATUS_SIE),
     cpus := (cpus h)(tp h := (cur_cpu h)\<lparr>
       intena := if noff (cur_cpu h) = 0 then sie h else intena (cur_cpu h),
       noff := noff (cur_cpu h) + 1\<rparr>)\<rparr>"

definition popped :: "hart \<Rightarrow> hart" where
  "popped h = h\<lparr>cpus := (cpus h)(tp h := (cur_cpu h)\<lparr>noff := noff (cur_cpu h) - 1\<rparr>),
     sstatus := (if noff (cur_cpu h) = 1 \<and> intena (cur_cpu h)
       then (sstatus h)(tp h := sstatus h (tp h) OR SSTATUS_SIE) else sstatus h)\<rparr>"

definition acq :: "lockid \<Rightarrow> hart \<Rightarrow> hart" where
  "acq lk h = (let g = pushed h in
     g\<lparr>locks := (locks g)(lk := (locks g lk)\<lparr>locked := 1, lk_cpu := Some (tp h)\<rparr>)\<rparr>)"

definition rel :: "lockid \<Rightarrow> hart \<Rightarrow> hart" where
  "rel lk h = popped (h\<lparr>locks := (locks h)(lk := (locks h lk)\<lparr>lk_cpu := None, locked := 0\<rparr>)\<rparr>)"

lemma SIE_exp: "SSTATUS_SIE = 2 ^ 1"
  by (simp add: SSTATUS_SIE_def)

lemma and_SIE_iff: "x AND SSTATUS_SIE = 0 \<longleftrightarrow> \<not> bit x 1"
  unfolding SIE_exp by (rule and_exp_eq_0_iff_not_bit)

lemma SIE_simps [simp]:
  "(x AND NOT SSTATUS_SIE) AND SSTATUS_SIE = 0" "(x OR SSTATUS_SIE) AND SSTATUS_SIE \<noteq> 0"
  by (simp_all add: and_SIE_iff bit_simps) (simp_all add: SSTATUS_SIE_def bit_simps)

lemma SIE_restore: "x AND SSTATUS_SIE \<noteq> 0 \<Longrightarrow> (x AND NOT SSTATUS_SIE) OR SSTATUS_SIE = x"
  unfolding and_SIE_iff by (rule bit_word_eqI) (auto simp: SIE_exp bit_simps)

lemma SIE_off: "x AND SSTATUS_SIE = 0 \<Longrightarrow> x AND NOT SSTATUS_SIE = x"
  unfolding and_SIE_iff by (rule bit_word_eqI) (auto simp: SIE_exp bit_simps)

lemma hart_upd_ident [simp]:
  "h\<lparr>sstatus := sstatus h\<rparr> = h" "h\<lparr>cpus := cpus h\<rparr> = h" "h\<lparr>locks := locks h\<rparr> = h"
  "c\<lparr>intena := intena c\<rparr> = c" "c\<lparr>noff := noff c\<rparr> = c"
  by simp_all

lemma kbase_upd_ident [simp]: "s\<lparr>hw := hw s\<rparr> = s" "s\<lparr>mem := mem s\<rparr> = s"
  by simp_all

lemma runs_push_off [simp]: "runs push_off s P = P () (s\<lparr>hw := pushed (hw s)\<rparr>)"
  by (simp add: push_off_def intr_get_def intr_off_def mycpu_def cpuid_def set_cpu_def
      set_sstatus_def pushed_def cur_cpu_def)

lemma runs_pop_off [simp]:
  "runs pop_off s P \<longleftrightarrow>
     \<not> sie (hw s) \<and> 1 \<le> noff (cur_cpu (hw s)) \<and> P () (s\<lparr>hw := popped (hw s)\<rparr>)"
  by (auto simp add: pop_off_def intr_get_def intr_on_def mycpu_def cpuid_def set_cpu_def
      set_sstatus_def popped_def cur_cpu_def)

lemma tp_pushed [simp]: "tp (pushed h) = tp h" "tp (popped h) = tp h"
  by (simp_all add: pushed_def popped_def)

lemma locks_pushed [simp]: "locks (pushed h) = locks h" "locks (popped h) = locks h"
  by (simp_all add: pushed_def popped_def)

lemma sie_pushed [simp]: "\<not> sie (pushed h)"
  by (simp add: sie_def pushed_def)

lemma noff_pushed [simp]: "noff (cur_cpu (pushed h)) = noff (cur_cpu h) + 1"
  by (simp add: cur_cpu_def pushed_def)

lemma popped_pushed: "hart_ok h \<Longrightarrow> popped (pushed h) = h"
  by (auto simp: hart_ok_def popped_def pushed_def cur_cpu_def sie_def SIE_restore SIE_off
      intro!: hart.equality ext)

lemma runs_acquire [simp]:
  "runs (acquire lk) s P \<longleftrightarrow> locked (locks (hw s) lk) = 0 \<and> P () (s\<lparr>hw := acq lk (hw s)\<rparr>)"
  by (auto simp: acquire_def holding_def mycpu_def cpuid_def set_lock_def acq_def Let_def)

lemma runs_release [simp]:
  "runs (release lk) s P \<longleftrightarrow>
     locked (locks (hw s) lk) \<noteq> 0 \<and> lk_cpu (locks (hw s) lk) = Some (tp (hw s)) \<and>
     \<not> sie (hw s) \<and> 1 \<le> noff (cur_cpu (hw s)) \<and> P () (s\<lparr>hw := rel lk (hw s)\<rparr>)"
  by (auto simp: release_def holding_def mycpu_def cpuid_def set_lock_def rel_def sie_def
      cur_cpu_def)

lemma acq_simps [simp]:
  "tp (acq lk h) = tp h" "\<not> sie (acq lk h)" "noff (cur_cpu (acq lk h)) = noff (cur_cpu h) + 1"
  "locks (acq lk h) = (locks h)(lk := (locks h lk)\<lparr>locked := 1, lk_cpu := Some (tp h)\<rparr>)"
  by (simp_all add: acq_def Let_def sie_def cur_cpu_def pushed_def)

lemma hart_ok_acq [simp]: "hart_ok h \<Longrightarrow> hart_ok (acq lk h)"
  by (simp add: hart_ok_def)

lemma lock_idle_acq [simp]: "lk \<noteq> lk' \<Longrightarrow> lock_idle (acq lk h) lk' = lock_idle h lk'"
  by (simp add: lock_idle_def)

lemma held_acq [simp]: "held (acq lk h) lk" "lk \<noteq> lk' \<Longrightarrow> held (acq lk h) lk' = held h lk'"
  by (simp_all add: held_def)

lemma lock_idleD [simp]: "lock_idle h lk \<Longrightarrow> locked (locks h lk) = 0"
  by (simp add: lock_idle_def)

lemma hart_ok_noff [simp]: "hart_ok h \<Longrightarrow> 0 \<le> noff (cur_cpu h)"
  by (simp add: hart_ok_def)

lemma rel_acq [simp]: "hart_ok h \<Longrightarrow> lock_idle h lk \<Longrightarrow> rel lk (acq lk h) = h"
proof -
  assume ok: "hart_ok h" and idle: "lock_idle h lk"
  let ?g = "pushed h"
  have "(acq lk h)\<lparr>locks := (locks (acq lk h))(lk := (locks (acq lk h) lk)\<lparr>lk_cpu := None, locked := 0\<rparr>)\<rparr> = ?g"
    using idle by (auto simp: acq_def Let_def lock_idle_def pushed_def intro!: hart.equality ext spinlock.equality)
  then show ?thesis using popped_pushed [OF ok] by (simp add: rel_def)
qed

lemma acquire_app:
  "acquire lk s =
     (if locked (locks (hw s) lk) = 0 then Ok () (s\<lparr>hw := acq lk (hw s)\<rparr>)
      else if lk_cpu (locks (hw s) lk) = Some (tp (hw s)) then Panic ''acquire''
      else Block (OnLock lk) (s\<lparr>hw := (pushed (hw s))\<lparr>locks := (locks (hw s))(lk :=
        (locks (hw s) lk)\<lparr>locked := 1\<rparr>)\<rparr>\<rparr>))"
proof -
  have p: "push_off s = Ok () (s\<lparr>hw := pushed (hw s)\<rparr>)"
    using runs_push_off [of s "\<lambda>_ t. t = s\<lparr>hw := pushed (hw s)\<rparr>"] by (auto simp: runs_iff)
  show ?thesis
    by (auto simp: acquire_def p holding_def mycpu_def cpuid_def set_lock_def acq_def Let_def)
qed

section \<open>The lock as several harts see it\<close>

text \<open>Where a hart is in \<open>acquire\<close> or \<open>release\<close>: outside; spinning on the atomic swap; past the
  swap, with \<open>lk->cpu\<close> not yet set; in the critical section; past \<open>lk->cpu = 0\<close>, with the lock
  word not yet cleared.\<close>

datatype lkpc = Outside | Spinning | Swapped | Critical | Releasing

record sl_state =
  sl_locked :: u32
  sl_cpu :: "nat option"
  sl_pc :: "nat \<Rightarrow> lkpc"

definition sl_holding :: "sl_state \<Rightarrow> nat \<Rightarrow> bool" where
  "sl_holding s i \<longleftrightarrow> sl_locked s \<noteq> 0 \<and> sl_cpu s = Some i"

definition sl_init :: sl_state where
  "sl_init = \<lparr>sl_locked = 0, sl_cpu = None, sl_pc = (\<lambda>_. Outside)\<rparr>"

inductive sl_step :: "sl_state \<Rightarrow> sl_state \<Rightarrow> bool" where
  enter: "sl_pc s i = Outside \<Longrightarrow> \<not> sl_holding s i \<Longrightarrow>
    sl_step s (s\<lparr>sl_pc := (sl_pc s)(i := Spinning)\<rparr>)"
| swap_fail: "sl_pc s i = Spinning \<Longrightarrow> sl_locked s \<noteq> 0 \<Longrightarrow> sl_step s (s\<lparr>sl_locked := 1\<rparr>)"
| swap_ok: "sl_pc s i = Spinning \<Longrightarrow> sl_locked s = 0 \<Longrightarrow>
    sl_step s (s\<lparr>sl_locked := 1, sl_pc := (sl_pc s)(i := Swapped)\<rparr>)"
| set_owner: "sl_pc s i = Swapped \<Longrightarrow>
    sl_step s (s\<lparr>sl_cpu := Some i, sl_pc := (sl_pc s)(i := Critical)\<rparr>)"
| clear_owner: "sl_pc s i = Critical \<Longrightarrow> sl_holding s i \<Longrightarrow>
    sl_step s (s\<lparr>sl_cpu := None, sl_pc := (sl_pc s)(i := Releasing)\<rparr>)"
| unlock: "sl_pc s i = Releasing \<Longrightarrow>
    sl_step s (s\<lparr>sl_locked := 0, sl_pc := (sl_pc s)(i := Outside)\<rparr>)"

inductive sl_reachable :: "sl_state \<Rightarrow> bool" where
  sl_start: "sl_reachable sl_init"
| sl_next: "sl_reachable s \<Longrightarrow> sl_step s t \<Longrightarrow> sl_reachable t"

text \<open>The invariant: there is an owner exactly when the lock word is set, the owner is the one
  hart past the swap, and \<open>lk->cpu\<close> names it while it is in its critical section.\<close>

definition past_swap :: "lkpc \<Rightarrow> bool" where
  "past_swap p \<longleftrightarrow> p = Swapped \<or> p = Critical \<or> p = Releasing"

definition sl_owned :: "sl_state \<Rightarrow> nat option \<Rightarrow> bool" where
  "sl_owned s own \<longleftrightarrow>
     (sl_locked s \<noteq> 0 \<longleftrightarrow> own \<noteq> None) \<and>
     (\<forall>i. past_swap (sl_pc s i) \<longleftrightarrow> own = Some i) \<and>
     (\<forall>i. sl_cpu s = Some i \<longleftrightarrow> sl_pc s i = Critical)"

definition sl_inv :: "sl_state \<Rightarrow> bool" where
  "sl_inv s \<longleftrightarrow> (\<exists>own. sl_owned s own)"

lemma sl_inv_init: "sl_inv sl_init"
  by (auto simp: sl_inv_def sl_owned_def sl_init_def past_swap_def intro!: exI [of _ None])

lemma sl_owned_unique:
  "sl_owned s own \<Longrightarrow> past_swap (sl_pc s i) \<Longrightarrow> own = Some i \<and> (\<forall>j. j \<noteq> i \<longrightarrow> \<not> past_swap (sl_pc s j))"
  by (auto simp: sl_owned_def)

lemma sl_step_owned:
  "sl_step s t \<Longrightarrow> sl_owned s own \<Longrightarrow> \<exists>own'. sl_owned t own'"
proof (induction rule: sl_step.induct)
  case (enter s i)
  then have "own \<noteq> Some i"
    unfolding sl_owned_def past_swap_def by (metis lkpc.distinct(3,5,7))
  with enter show ?case by (intro exI [of _ own]) (auto simp: sl_owned_def past_swap_def)
next
  case (swap_fail s i)
  then show ?case by (intro exI [of _ own]) (auto simp: sl_owned_def)
next
  case (swap_ok s i)
  then show ?case by (intro exI [of _ "Some i"]) (auto simp: sl_owned_def past_swap_def)
next
  case (set_owner s i)
  then show ?case
    using sl_owned_unique [of s own i]
    by (intro exI [of _ own]) (auto simp: sl_owned_def past_swap_def)
next
  case (clear_owner s i)
  then show ?case
    using sl_owned_unique [of s own i]
    by (intro exI [of _ own]) (auto simp: sl_owned_def past_swap_def)
next
  case (unlock s i)
  then show ?case
    using sl_owned_unique [of s own i]
    by (intro exI [of _ None]) (auto simp: sl_owned_def past_swap_def)
qed

lemma sl_step_inv: "sl_step s t \<Longrightarrow> sl_inv s \<Longrightarrow> sl_inv t"
  by (auto simp: sl_inv_def dest: sl_step_owned)

lemma sl_reachable_inv: "sl_reachable s \<Longrightarrow> sl_inv s"
  by (induction rule: sl_reachable.induct) (auto intro: sl_inv_init sl_step_inv)

section \<open>The functions follow the step relation\<close>

text \<open>The lock \<open>lk\<close> of the state \<open>h\<close> as the step relation sees it, with the harts at \<open>pc\<close>.\<close>

definition sl_of :: "lockid \<Rightarrow> (nat \<Rightarrow> lkpc) \<Rightarrow> hart \<Rightarrow> sl_state" where
  "sl_of lk pc h = \<lparr>sl_locked = locked (locks h lk), sl_cpu = lk_cpu (locks h lk), sl_pc = pc\<rparr>"

lemma sl_acquire_steps:
  assumes "sl_pc s i = Outside" "sl_locked s = 0"
  shows "sl_step\<^sup>*\<^sup>* s (s\<lparr>sl_locked := 1, sl_cpu := Some i, sl_pc := (sl_pc s)(i := Critical)\<rparr>)"
proof -
  let ?a = "s\<lparr>sl_pc := (sl_pc s)(i := Spinning)\<rparr>"
  let ?b = "?a\<lparr>sl_locked := 1, sl_pc := (sl_pc ?a)(i := Swapped)\<rparr>"
  let ?c = "?b\<lparr>sl_cpu := Some i, sl_pc := (sl_pc ?b)(i := Critical)\<rparr>"
  have "sl_step s ?a" using assms by (intro enter) (simp_all add: sl_holding_def)
  moreover have "sl_step ?a ?b" using assms by (intro swap_ok) simp_all
  moreover have "sl_step ?b ?c" by (intro set_owner) simp
  ultimately have "sl_step\<^sup>*\<^sup>* s ?c" by (meson converse_rtranclp_into_rtranclp rtranclp.rtrancl_refl)
  then show ?thesis by simp
qed

lemma sl_release_steps:
  assumes "sl_pc s i = Critical" "sl_holding s i"
  shows "sl_step\<^sup>*\<^sup>* s (s\<lparr>sl_cpu := None, sl_locked := 0, sl_pc := (sl_pc s)(i := Outside)\<rparr>)"
proof -
  let ?a = "s\<lparr>sl_cpu := None, sl_pc := (sl_pc s)(i := Releasing)\<rparr>"
  let ?b = "?a\<lparr>sl_locked := 0, sl_pc := (sl_pc ?a)(i := Outside)\<rparr>"
  have "sl_step s ?a" using assms by (rule clear_owner)
  moreover have "sl_step ?a ?b" by (intro unlock) simp
  ultimately have "sl_step\<^sup>*\<^sup>* s ?b" by (meson converse_rtranclp_into_rtranclp rtranclp.rtrancl_refl)
  then show ?thesis by simp
qed

section \<open>Properties\<close>

text \<open>C2: mutual exclusion. However the harts interleave the memory accesses of \<open>acquire\<close> and
  \<open>release\<close>, at most one of them is between a successful swap and the store that clears the lock
  word, and \<open>holding\<close> answers yes to exactly the hart in its critical section.\<close>

theorem spinlock_mutual_exclusion:
  assumes "sl_reachable s"
  shows "(\<forall>i j. past_swap (sl_pc s i) \<and> past_swap (sl_pc s j) \<longrightarrow> i = j) \<and>
    (\<forall>i. sl_holding s i \<longleftrightarrow> sl_pc s i = Critical)"
proof -
  obtain own where own: "sl_owned s own" using sl_reachable_inv [OF assms] by (auto simp: sl_inv_def)
  then have "\<forall>i j. past_swap (sl_pc s i) \<and> past_swap (sl_pc s j) \<longrightarrow> i = j"
    by (auto simp: sl_owned_def)
  moreover have "sl_holding s i \<longleftrightarrow> sl_pc s i = Critical" for i
    using own sl_owned_unique [OF own, of i] by (auto simp: sl_owned_def sl_holding_def past_swap_def)
  ultimately show ?thesis by blast
qed

theorem spinlock_mutual_exclusion_witness:
  "\<exists>s. sl_reachable s \<and> sl_pc s 0 = Critical \<and> sl_holding s 0 \<and> \<not> past_swap (sl_pc s 1)"
proof -
  let ?s = "sl_init\<lparr>sl_locked := 1, sl_cpu := Some 0, sl_pc := (sl_pc sl_init)(0 := Critical)\<rparr>"
  have "sl_step\<^sup>*\<^sup>* sl_init ?s" by (rule sl_acquire_steps) (simp_all add: sl_init_def)
  then have "sl_reachable ?s"
    by (induction rule: rtranclp_induct) (auto intro: sl_start sl_next)
  moreover have "past_swap (sl_pc ?s 0)" "sl_pc ?s 0 = Critical" by (simp_all add: past_swap_def)
  ultimately show ?thesis
    using spinlock_mutual_exclusion [of ?s] by (metis zero_neq_one)
qed

text \<open>C13: \<open>acquire\<close> and \<open>release\<close> follow the step relation. A call of \<open>acquire\<close> that returns takes
  the lock from outside to the critical section of the calling hart by steps of the relation, and
  a following call of \<open>release\<close> back; neither touches any other lock, and both return exactly when
  the lock word is clear and the nesting depth is not negative.\<close>

theorem spinlock_refinement:
  assumes "pc (tp (hw s)) = Outside"
  shows "runs (acquire lk) s (\<lambda>_ t.
      sl_step\<^sup>*\<^sup>* (sl_of lk pc (hw s)) (sl_of lk (pc(tp (hw s) := Critical)) (hw t)) \<and>
      (\<forall>l. l \<noteq> lk \<longrightarrow> locks (hw t) l = locks (hw s) l) \<and>
      runs (release lk) t (\<lambda>_ u.
        sl_step\<^sup>*\<^sup>* (sl_of lk (pc(tp (hw s) := Critical)) (hw t)) (sl_of lk pc (hw u)) \<and>
        (\<forall>l. l \<noteq> lk \<longrightarrow> locks (hw u) l = locks (hw s) l)))
    \<longleftrightarrow> locked (locks (hw s) lk) = 0 \<and> 0 \<le> noff (cur_cpu (hw s))"
proof (cases "locked (locks (hw s) lk) = 0")
  case True
  let ?i = "tp (hw s)" and ?t = "s\<lparr>hw := acq lk (hw s)\<rparr>"
  have a: "sl_step\<^sup>*\<^sup>* (sl_of lk pc (hw s)) (sl_of lk (pc(?i := Critical)) (hw ?t))"
    using sl_acquire_steps [of "sl_of lk pc (hw s)" ?i] assms True by (simp add: sl_of_def)
  have r: "sl_step\<^sup>*\<^sup>* (sl_of lk (pc(?i := Critical)) (hw ?t)) (sl_of lk pc (rel lk (hw ?t)))"
    using sl_release_steps [of "sl_of lk (pc(?i := Critical)) (hw ?t)" ?i] assms
    by (simp add: sl_of_def sl_holding_def rel_def fun_upd_idem)
  show ?thesis using True a r by (simp add: rel_def)
next
  case False
  then show ?thesis by simp
qed

text \<open>A state to evaluate witnesses in: one hart, interrupts off, every lock free.\<close>

definition boot_hart :: hart where
  "boot_hart = \<lparr>tp = 0, sstatus = (\<lambda>_. 0), cpus = (\<lambda>_. \<lparr>c_proc = None, noff = 0, intena = False\<rparr>),
     locks = (\<lambda>_. \<lparr>locked = 0, lk_name = [], lk_cpu = None\<rparr>)\<rparr>"

definition boot_symbols :: symbols where
  "boot_symbols = \<lparr>sym_end = 0x80022000, sym_etext = 0x80008000, sym_trampoline = 0x80007000,
     sym_uservec = 0x80007000, sym_userret = 0x8000709c, sym_kernelvec = 0x80005b10,
     sym_usertrap = 0x80002000, sym_forkret = 0x80001a00\<rparr>"

definition boot_base :: kbase where
  "boot_base = \<lparr>hw = boot_hart, mem = (\<lambda>_. 0), sym = boot_symbols\<rparr>"

lemma boot_hart_ok [simp]:
  "hart_ok boot_hart" "lock_idle boot_hart lk" "tp boot_hart = 0" "\<not> sie boot_hart"
  by (simp_all add: boot_hart_def hart_ok_def lock_idle_def sie_def cur_cpu_def)

theorem spinlock_refinement_witness:
  "(\<lambda>_. Outside) (tp (hw boot_base)) = Outside \<and>
   runs (acquire LkPid) boot_base (\<lambda>_ t.
     sl_step\<^sup>*\<^sup>* (sl_of LkPid (\<lambda>_. Outside) boot_hart) (sl_of LkPid ((\<lambda>_. Outside)(0 := Critical)) (hw t)))"
proof -
  have "runs (acquire LkPid) boot_base (\<lambda>_ t.
     sl_step\<^sup>*\<^sup>* (sl_of LkPid (\<lambda>_. Outside) (hw boot_base))
       (sl_of LkPid ((\<lambda>_. Outside)(tp (hw boot_base) := Critical)) (hw t)))"
    using iffD2 [OF spinlock_refinement [of "\<lambda>_. Outside" boot_base LkPid]]
    by (simp add: boot_base_def)
  then show ?thesis by (simp add: boot_base_def)
qed

text \<open>C14: a critical section leaves the hart as it found it. On a hart in order and an idle lock,
  \<open>acquire\<close> returns, with interrupts off and the lock held inside; a second \<open>acquire\<close> by the same
  hart panics, and \<open>release\<close> restores every lock, the nesting depth and the interrupt enable bit.\<close>

theorem critical_section_transparent:
  assumes "hart_ok (hw s)" and "lock_idle (hw s) lk"
  shows "\<exists>t. acquire lk s = Ok () t \<and> held (hw t) lk \<and> \<not> sie (hw t) \<and>
    acquire lk t = Panic ''acquire'' \<and> release lk t = Ok () s"
proof -
  let ?t = "s\<lparr>hw := acq lk (hw s)\<rparr>"
  have "release lk ?t = Ok () s"
    using assms runs_release [of lk ?t "\<lambda>_ u. u = s"] by (auto simp: runs_iff)
  then show ?thesis using assms by (intro exI [of _ ?t]) (simp add: acquire_app)
qed

theorem critical_section_transparent_witness:
  "hart_ok (hw boot_base) \<and> lock_idle (hw boot_base) LkKmem \<and>
   (\<exists>t. acquire LkKmem boot_base = Ok () t \<and> held (hw t) LkKmem \<and> release LkKmem t = Ok () boot_base)"
  using critical_section_transparent [of boot_base LkKmem] by (auto simp: boot_base_def)

end
