(* ===== verification/Xv6_Kalloc.thy ===== *)
theory Xv6_Kalloc
  imports Xv6_Mem Xv6_Spinlock "HOL-Library.Multiset"
begin

text \<open>
  kernel/kalloc.c: the physical page allocator. Its state adds \<open>kmem.freelist\<close> to the kernel state;
  the list itself is threaded through the free pages, so it lives in \<open>mem\<close>, each page's first double
  word holding the address of the next. \<open>kmem_ok s xs\<close> says that the list in memory is \<open>xs\<close>.
  The contract of a page allocator is the locale \<open>page_alloc\<close>; it is interpreted on \<open>kalloc\<close> and
  \<open>kfree\<close>.
\<close>

section \<open>Constants and state\<close>

definition KERNBASE :: u64 where
  "KERNBASE = 0x80000000"

definition PHYSTOP :: u64 where
  "PHYSTOP = KERNBASE + 128 * 1024 * 1024"

record kmem_state = kbase +
  freelist :: u64

section \<open>kalloc.c\<close>

definition kfree :: "u64 \<Rightarrow> (unit, 'z kmem_state_scheme) M" where
  "kfree pa =
     kbind (gets (\<lambda>s. sym_end (sym s))) (\<lambda>end'.
     if pa mod PGSIZE \<noteq> 0 \<or> pa < end' \<or> pa \<ge> PHYSTOP then panic ''kfree'' else
     kthen (modify (\<lambda>s. s\<lparr>mem := memset pa 1 (ucast PGSIZE) (mem s)\<rparr>)) (
     kthen (acquire LkKmem) (
     kthen (modify (\<lambda>s. s\<lparr>mem := store64 pa (freelist s) (mem s)\<rparr>)) (
     kthen (modify (\<lambda>s. s\<lparr>freelist := pa\<rparr>))
     (release LkKmem)))))"

definition freerange :: "u64 \<Rightarrow> u64 \<Rightarrow> (unit, 'z kmem_state_scheme) M" where
  "freerange pa_start pa_end =
     kloop (2 ^ 52) (\<lambda>p. if p + PGSIZE \<le> pa_end then kthen (kfree p) (ret (Inl (p + PGSIZE)))
       else ret (Inr ())) (PGROUNDUP pa_start)"

definition kinit :: "(unit, 'z kmem_state_scheme) M" where
  "kinit =
     kthen (initlock LkKmem ''kmem'') (
     kbind (gets (\<lambda>s. sym_end (sym s))) (\<lambda>end'.
     freerange end' PHYSTOP))"

definition kalloc :: "(u64, 'z kmem_state_scheme) M" where
  "kalloc =
     kthen (acquire LkKmem) (
     kbind (gets freelist) (\<lambda>r.
     kthen (kwhen (r \<noteq> 0) (modify (\<lambda>s. s\<lparr>freelist := load64 (mem s) r\<rparr>))) (
     kthen (release LkKmem) (
     kthen (kwhen (r \<noteq> 0) (modify (\<lambda>s. s\<lparr>mem := memset r 5 (ucast PGSIZE) (mem s)\<rparr>)))
     (ret r)))))"

section \<open>The free list in memory\<close>

fun flist :: "memory \<Rightarrow> u64 \<Rightarrow> u64 list \<Rightarrow> bool" where
  "flist m h [] \<longleftrightarrow> h = 0"
| "flist m h (x # xs) \<longleftrightarrow> h = x \<and> x \<noteq> 0 \<and> flist m (load64 m x) xs"

definition freeable :: "symbols \<Rightarrow> u64 \<Rightarrow> bool" where
  "freeable y p \<longleftrightarrow> page_aligned p \<and> sym_end y \<le> p \<and> p < PHYSTOP"

definition kmem_ok :: "'z kmem_state_scheme \<Rightarrow> u64 list \<Rightarrow> bool" where
  "kmem_ok s xs \<longleftrightarrow> 0 < sym_end (sym s) \<and> flist (mem s) (freelist s) xs \<and> distinct xs \<and>
     (\<forall>x \<in> set xs. freeable (sym s) x)"

text \<open>The allocator's lock is free and the executing hart is in order.\<close>

definition pool :: "'z kmem_state_scheme \<Rightarrow> u64 list \<Rightarrow> bool" where
  "pool s xs \<longleftrightarrow> kmem_ok s xs \<and> hart_ok (hw s) \<and> lock_idle (hw s) LkKmem"

lemma ucast_PGSIZE [simp]: "(ucast PGSIZE :: u32) = 4096"
  by (simp add: PGSIZE_def)

lemma kmem_upd_ident [simp]: "s\<lparr>freelist := freelist s\<rparr> = s"
  by simp

lemma flist_agree:
  "flist m h xs \<Longrightarrow> agree P m m' \<Longrightarrow> (\<And>x. x \<in> set xs \<Longrightarrow> page_aligned x \<and> pageno x \<notin> P) \<Longrightarrow>
     flist m' h xs"
proof (induction xs arbitrary: h)
  case (Cons x xs)
  then have "load64 m x = load64 m' x" by (intro load64_agree) auto
  with Cons show ?case by auto
qed simp

lemma flist_head: "flist m h xs \<Longrightarrow> h = (case xs of [] \<Rightarrow> 0 | x # _ \<Rightarrow> x)"
  by (cases xs) auto

lemma flist_unique: "flist m h xs \<Longrightarrow> flist m h ys \<Longrightarrow> xs = ys"
proof (induction xs arbitrary: h ys)
  case Nil
  then show ?case by (cases ys) auto
next
  case (Cons x xs)
  then show ?case by (cases ys) auto
qed

lemma kmem_okD:
  "kmem_ok s xs \<Longrightarrow> x \<in> set xs \<Longrightarrow> page_aligned x \<and> x \<noteq> 0 \<and> sym_end (sym s) \<le> x \<and> x < PHYSTOP"
  by (auto simp: kmem_ok_def freeable_def)

lemma kmem_ok_frame:
  assumes "kmem_ok s xs" "agree P (mem s) (mem t)" "pageno ` set xs \<inter> P = {}"
    "freelist t = freelist s" "sym t = sym s"
  shows "kmem_ok t xs"
proof -
  have "flist (mem t) (freelist s) xs"
    using assms flist_agree [of "mem s" "freelist s" xs P "mem t"] by (auto simp: kmem_ok_def freeable_def)
  with assms show ?thesis by (simp add: kmem_ok_def)
qed

lemma runs_kalloc:
  assumes "pool s xs"
  shows "runs kalloc s P = (case xs of [] \<Rightarrow> P 0 s
    | x # ys \<Rightarrow> P x (s\<lparr>freelist := load64 (mem s) x, mem := memset x 5 4096 (mem s)\<rparr>))"
proof -
  have "freelist s = (case xs of [] \<Rightarrow> 0 | x # _ \<Rightarrow> x)" "\<And>x ys. xs = x # ys \<Longrightarrow> x \<noteq> 0"
    using assms flist_head [of "mem s" "freelist s" xs] by (auto simp: pool_def kmem_ok_def)
  then show ?thesis
    using assms by (cases xs) (simp_all add: kalloc_def pool_def)
qed

lemma kmem_ok_kalloc:
  assumes "kmem_ok s (x # ys)"
  shows "kmem_ok (s\<lparr>freelist := load64 (mem s) x, mem := memset x 5 4096 (mem s)\<rparr>) ys"
proof -
  have a: "page_aligned y" if "y \<in> set (x # ys)" for y using assms that kmem_okD by blast
  have "flist (memset x 5 4096 (mem s)) (load64 (mem s) x) ys"
  proof (rule flist_agree)
    show "flist (mem s) (load64 (mem s) x) ys" using assms by (simp add: kmem_ok_def)
    show "agree {pageno x} (mem s) (memset x 5 4096 (mem s))" by (simp add: agree_memset a)
    show "page_aligned y \<and> pageno y \<notin> {pageno x}" if "y \<in> set ys" for y
      using that a [of y] a [of x] page_aligned_eqI [of x y] assms by (auto simp: kmem_ok_def)
  qed
  with assms show ?thesis by (simp add: kmem_ok_def)
qed

lemma runs_kfree:
  assumes "hart_ok (hw s)" "lock_idle (hw s) LkKmem"
  shows "runs (kfree p) s P \<longleftrightarrow> freeable (sym s) p \<and>
    P () (s\<lparr>mem := store64 p (freelist s) (memset p 1 4096 (mem s)), freelist := p\<rparr>)"
  using assms by (auto simp: kfree_def freeable_def page_aligned_def not_less not_le)

lemma kmem_ok_kfree:
  assumes "kmem_ok s xs" "freeable (sym s) p" "p \<notin> set xs"
  shows "kmem_ok (s\<lparr>mem := store64 p (freelist s) (memset p 1 4096 (mem s)), freelist := p\<rparr>) (p # xs)"
proof -
  let ?m = "store64 p (freelist s) (memset p 1 4096 (mem s))"
  have p: "page_aligned p" "p \<noteq> 0" using assms by (auto simp: freeable_def kmem_ok_def)
  have "flist ?m (freelist s) xs"
  proof (rule flist_agree)
    show "flist (mem s) (freelist s) xs" using assms by (simp add: kmem_ok_def)
    show "agree {pageno p} (mem s) ?m"
      using agree_trans [OF agree_memset agree_store64] p by (metis Un_absorb in_page8_aligned singletonI)
    show "page_aligned y \<and> pageno y \<notin> {pageno p}" if "y \<in> set xs" for y
      using that kmem_okD [OF assms(1)] page_aligned_eqI [of p y] assms(3) p by auto
  qed
  with assms p show ?thesis by (simp add: kmem_ok_def load64_store64)
qed

section \<open>The contract of a page allocator\<close>

text \<open>\<open>pool s xs\<close>: in state \<open>s\<close> the pages \<open>xs\<close> are free; \<open>good s p\<close>: \<open>p\<close> is a page of the allocator;
  \<open>writes P s t\<close>: a client that owns the pages \<open>P\<close> stores to them.\<close>



inductive pa_step ::
  "('s \<Rightarrow> (u64, 's) outcome) \<Rightarrow> (u64 \<Rightarrow> 's \<Rightarrow> (unit, 's) outcome) \<Rightarrow> (u64 set \<Rightarrow> 's \<Rightarrow> 's \<Rightarrow> bool) \<Rightarrow>
   's \<times> u64 list \<Rightarrow> 's \<times> u64 list \<Rightarrow> bool"
  for alloc free writes where
  pa_alloc: "alloc s = Ok x t \<Longrightarrow> x \<noteq> 0 \<Longrightarrow> pa_step alloc free writes (s, live) (t, x # live)"
| pa_fail: "alloc s = Ok 0 t \<Longrightarrow> pa_step alloc free writes (s, live) (t, live)"
| pa_free: "p \<in> set live \<Longrightarrow> free p s = Ok () t \<Longrightarrow>
    pa_step alloc free writes (s, live) (t, remove1 p live)"
| pa_write: "writes (set live) s t \<Longrightarrow> pa_step alloc free writes (s, live) (t, live)"

locale page_alloc =
  fixes alloc :: "'s \<Rightarrow> (u64, 's) outcome"
    and free :: "u64 \<Rightarrow> 's \<Rightarrow> (unit, 's) outcome"
    and pool :: "'s \<Rightarrow> u64 list \<Rightarrow> bool"
    and good :: "'s \<Rightarrow> u64 \<Rightarrow> bool"
    and writes :: "u64 set \<Rightarrow> 's \<Rightarrow> 's \<Rightarrow> bool"
  assumes alloc_Nil: "pool s [] \<Longrightarrow> alloc s = Ok 0 s"
    and alloc_Cons: "pool s (x # xs) \<Longrightarrow> \<exists>t. alloc s = Ok x t \<and> pool t xs \<and> good t = good s"
    and free_Cons: "pool s xs \<Longrightarrow> good s p \<Longrightarrow> p \<notin> set xs \<Longrightarrow>
      \<exists>t. free p s = Ok () t \<and> pool t (p # xs) \<and> good t = good s"
    and write_pool: "pool s xs \<Longrightarrow> writes P s t \<Longrightarrow> \<forall>p \<in> P. good s p \<Longrightarrow> P \<inter> set xs = {} \<Longrightarrow>
      pool t xs \<and> good t = good s"
    and pool_good: "pool s xs \<Longrightarrow> distinct xs \<and> (\<forall>x \<in> set xs. good s x \<and> x \<noteq> 0)"
begin

definition owned :: "'s \<Rightarrow> u64 list \<Rightarrow> u64 multiset \<Rightarrow> bool" where
  "owned s live all \<longleftrightarrow> (\<exists>xs. pool s xs \<and> distinct (live @ xs) \<and> (\<forall>p \<in> set live. good s p) \<and>
     mset live + mset xs = all)"

lemma alloc_ret: "owned s live all \<Longrightarrow> \<exists>x t. alloc s = Ok x t"
  unfolding owned_def using alloc_Nil alloc_Cons by (metis neq_Nil_conv)

lemma free_ret: "owned s live all \<Longrightarrow> p \<in> set live \<Longrightarrow> \<exists>t. free p s = Ok () t"
  unfolding owned_def using free_Cons by (metis IntI disjoint_iff distinct_append)

lemma owned_step:
  assumes "pa_step alloc free writes (s, live) (t, live')" "owned s live all"
  shows "owned t live' all"
proof -
  obtain xs where xs: "pool s xs" "distinct (live @ xs)" "\<forall>p \<in> set live. good s p"
    "mset live + mset xs = all"
    using assms(2) by (auto simp: owned_def)
  show ?thesis using assms(1)
  proof cases
    case (pa_alloc x)
    then obtain ys where ys: "xs = x # ys" using xs(1) alloc_Nil alloc_Cons by (cases xs) fastforce+
    with xs(1) pa_alloc have "pool t ys" "good t = good s" using alloc_Cons [of s x ys] by auto
    with xs ys pa_alloc pool_good [of s xs] show ?thesis by (auto simp: owned_def intro!: exI [of _ ys])
  next
    case pa_fail
    then have "xs = []" using xs(1) alloc_Cons pool_good [of s xs] by (cases xs) force+
    with xs pa_fail alloc_Nil [of s] show ?thesis by (auto simp: owned_def intro!: exI [of _ "[]"])
  next
    case (pa_free p)
    then have "pool t (p # xs)" "good t = good s" using xs free_Cons [of s xs p] by auto
    with xs pa_free show ?thesis
      by (auto simp: owned_def distinct_remove1 dest: notin_set_remove1 intro!: exI [of _ "p # xs"])
  next
    case pa_write
    then have "pool t xs" "good t = good s" using write_pool [of s xs "set live" t] xs by auto
    with xs pa_write show ?thesis by (auto simp: owned_def)
  qed
qed

lemma owned_steps:
  "(pa_step alloc free writes)\<^sup>*\<^sup>* (s, live) (t, live') \<Longrightarrow> owned s live all \<Longrightarrow> owned t live' all"
  by (induction rule: rtranclp_induct2) (auto intro: owned_step)

end

definition client_writes :: "u64 set \<Rightarrow> 'z kmem_state_scheme \<Rightarrow> 'z kmem_state_scheme \<Rightarrow> bool" where
  "client_writes P s t \<longleftrightarrow> (\<exists>m. t = s\<lparr>mem := m\<rparr> \<and> agree (pageno ` P) (mem s) m)"

lemma pool_writes:
  assumes "pool s xs" "client_writes P s t" "\<forall>p \<in> P. freeable (sym s) p" "P \<inter> set xs = {}"
  shows "pool t xs"
proof -
  obtain m where m: "t = s\<lparr>mem := m\<rparr>" "agree (pageno ` P) (mem s) m"
    using assms(2) by (auto simp: client_writes_def)
  have "pageno ` set xs \<inter> pageno ` P = {}"
    using assms kmem_okD [of s xs] page_aligned_eqI by (fastforce simp: pool_def freeable_def)
  then have "kmem_ok t xs"
    using assms(1) m by (intro kmem_ok_frame [of s xs "pageno ` P" t]) (auto simp: pool_def)
  with assms(1) m show ?thesis by (simp add: pool_def)
qed

interpretation ka: page_alloc "kalloc :: (u64, 'z kmem_state_scheme) M" kfree pool
  "\<lambda>s. freeable (sym s)" client_writes
proof
  fix s t :: "'z kmem_state_scheme" and x p :: u64 and xs P
  show "pool s [] \<Longrightarrow> kalloc s = Ok 0 s"
    using runs_kalloc [of s "[]" "\<lambda>x t. x = 0 \<and> t = s"] by (auto simp: runs_iff)
  show "\<exists>t. kalloc s = Ok x t \<and> pool t xs \<and> freeable (sym t) = freeable (sym s)" if "pool s (x # xs)"
    using that runs_kalloc [OF that, of "\<lambda>y t. y = x \<and> pool t xs \<and> sym t = sym s"]
    by (auto simp: runs_iff pool_def kmem_ok_kalloc)
  show "\<exists>t. kfree p s = Ok () t \<and> pool t (p # xs) \<and> freeable (sym t) = freeable (sym s)"
    if "pool s xs" "freeable (sym s) p" "p \<notin> set xs"
    using that runs_kfree [of s p "\<lambda>_ t. pool t (p # xs) \<and> sym t = sym s"]
    by (auto simp: runs_iff pool_def kmem_ok_kfree)
  show "pool t xs \<and> freeable (sym t) = freeable (sym s)"
    if "pool s xs" "client_writes P s t" "\<forall>p \<in> P. freeable (sym s) p" "P \<inter> set xs = {}"
    using pool_writes [OF that] that(2) by (auto simp: client_writes_def)
  show "distinct xs \<and> (\<forall>x \<in> set xs. freeable (sym s) x \<and> x \<noteq> 0)" if "pool s xs"
    using that kmem_okD [of s xs] by (auto simp: pool_def kmem_ok_def)
qed

section \<open>Initialisation\<close>

lemma runs_initlock [simp]:
  "runs (initlock lk name) s P =
     P () (s\<lparr>hw := (hw s)\<lparr>locks := (locks (hw s))(lk := (locks (hw s) lk)\<lparr>lk_name := name, locked := 0,
       lk_cpu := None\<rparr>)\<rparr>\<rparr>)"
  by (simp add: initlock_def set_lock_def)

lemma next_page:
  assumes "page_aligned p" "page_aligned q" "p < q"
  shows "p + PGSIZE \<le> q" "page_aligned (p + PGSIZE)" "p < p + PGSIZE"
    "page_aligned r \<Longrightarrow> r < p + PGSIZE \<longleftrightarrow> r < p \<or> r = p" "unat (p + PGSIZE) = unat p + 4096"
proof -
  obtain i j where ij: "unat p = 4096 * i" "unat q = 4096 * j"
    using assms(1,2) by (auto simp: page_aligned_unat elim!: dvdE)
  then have "i < j" "4096 * j < 2 ^ 64" using assms(3) unat_u64 [of q] by (auto simp: word_less_nat_alt)
  then have n: "unat (p + PGSIZE) = 4096 * Suc i" using ij by (simp add: unat_plus_if' PGSIZE_def)
  show "p + PGSIZE \<le> q" "page_aligned (p + PGSIZE)" "p < p + PGSIZE" "unat (p + PGSIZE) = unat p + 4096"
    using n ij \<open>i < j\<close> by (simp_all add: word_le_nat_alt word_less_nat_alt page_aligned_unat)
  show "r < p + PGSIZE \<longleftrightarrow> r < p \<or> r = p" if r: "page_aligned r"
  proof -
    obtain k where k: "unat r = 4096 * k" using r by (auto simp: page_aligned_unat elim!: dvdE)
    with n ij show ?thesis by (auto simp: word_less_nat_alt word_unat_eq_iff)
  qed
qed

lemma pool_kfree:
  assumes "pool s xs" "freeable (sym s) p" "p \<notin> set xs"
  obtains t where "kfree p s = Ok () t" "pool t (p # xs)" "sym t = sym s"
  using assms runs_kfree [of s p "\<lambda>_ t. pool t (p # xs) \<and> sym t = sym s"]
  by (auto simp: runs_iff pool_def kmem_ok_kfree)

lemma div_less_mono_add: "p + 4096 \<le> (q :: nat) \<Longrightarrow> (q - (p + 4096)) div 4096 < (q - p) div 4096"
  by arith

lemma runs_freerange:
  assumes "pool s []" "page_aligned pa_end" "pa_end \<le> PHYSTOP" "sym_end (sym s) \<le> pa_end"
  shows "runs (freerange (sym_end (sym s)) pa_end) s (\<lambda>_ t.
    \<exists>xs. pool t xs \<and> sym t = sym s \<and> set xs = {q. freeable (sym s) q \<and> q < pa_end})"
proof -
  let ?e = "sym_end (sym s)"
  let ?I = "\<lambda>p (t :: 'a kmem_state_scheme). \<exists>xs. pool t xs \<and> sym t = sym s \<and> page_aligned p \<and> ?e \<le> p \<and>
    p \<le> pa_end \<and> set xs = {q. freeable (sym s) q \<and> q < p}"
  have e: "unat ?e \<le> 2281701376" "unat pa_end mod 4096 = 0"
    using assms by (auto simp: word_le_nat_alt PHYSTOP_def KERNBASE_def page_aligned_unat)
  have up: "unat (PGROUNDUP ?e) = (unat ?e + 4095) div 4096 * 4096"
    using e by (intro PGROUNDUP_unat) simp
  show ?thesis unfolding freerange_def
  proof (rule runs_kloop_inv [where I = ?I and measure_of = "\<lambda>p. (unat pa_end - unat p) div 4096"])
    have "\<not> (freeable (sym s) q \<and> q < PGROUNDUP ?e)" for q
      using up by (auto simp: freeable_def page_aligned_unat word_less_nat_alt word_le_nat_alt)
    moreover have "PGROUNDUP ?e \<le> pa_end" "?e \<le> PGROUNDUP ?e"
      using up e(2) assms(4) by (auto simp: word_le_nat_alt)
    ultimately show "?I (PGROUNDUP ?e) s" using assms(1) by (intro exI [of _ "[]"]) auto
    show "(unat pa_end - unat (PGROUNDUP ?e)) div 4096 < 2 ^ 52" using unat_u64 [of pa_end] by simp
  next
    fix p and t :: "'a kmem_state_scheme" assume I: "?I p t"
    then obtain xs where xs: "pool t xs" "sym t = sym s" "page_aligned p" "?e \<le> p" "p \<le> pa_end"
      "set xs = {q. freeable (sym s) q \<and> q < p}" by blast
    show "runs (if p + PGSIZE \<le> pa_end then kthen (kfree p) (ret (Inl (p + PGSIZE))) else ret (Inr ())) t
      (\<lambda>r u. case r of Inl p' \<Rightarrow> ?I p' u \<and> (unat pa_end - unat p') div 4096 < (unat pa_end - unat p) div 4096
        | Inr b \<Rightarrow> \<exists>xs. pool u xs \<and> sym u = sym s \<and> set xs = {q. freeable (sym s) q \<and> q < pa_end})"
    proof (cases "p = pa_end")
      case True
      have "unat pa_end \<le> 2281701376" using assms(3) by (simp add: word_le_nat_alt PHYSTOP_def KERNBASE_def)
      then have "\<not> p + PGSIZE \<le> pa_end" using True by (simp add: PGSIZE_def word_le_nat_alt unat_plus_if')
      with xs True show ?thesis by auto
    next
      case False
      with xs have lt: "p < pa_end" by simp
      note np = next_page [OF xs(3) assms(2) lt]
      have fr: "freeable (sym s) p" using xs lt assms(3) by (auto simp: freeable_def)
      have set_eq: "set (p # xs) = {q. freeable (sym s) q \<and> q < p + PGSIZE}"
        using np(4) fr xs(6) by (auto simp: freeable_def)
      have "p \<notin> set xs" unfolding xs(6) by simp
      then obtain u where u: "kfree p t = Ok () u" "pool u (p # xs)" "sym u = sym s"
        using pool_kfree [of t xs p] xs(1,2) fr by metis
      have "?I (p + PGSIZE) u"
        using u np(1,2,3) xs(4) set_eq by (intro exI [of _ "p # xs"] conjI) simp_all
      moreover have "(unat pa_end - unat (p + PGSIZE)) div 4096 < (unat pa_end - unat p) div 4096"
        using np(1,5) by (simp add: word_le_nat_alt div_less_mono_add)
      ultimately show ?thesis using np(1) u(1) by (simp only: runs_if runs_kthen runs_def) simp
    qed
  qed
qed

section \<open>Properties\<close>

definition boot_kmem :: kmem_state where
  "boot_kmem = kbase.extend boot_base (kmem_state.fields 0)"

lemma boot_kmem_simps [simp]:
  "hw boot_kmem = boot_hart" "mem boot_kmem = (\<lambda>_. 0)" "sym boot_kmem = boot_symbols" "freelist boot_kmem = 0"
  by (simp_all add: boot_kmem_def boot_base_def kbase.defs kmem_state.defs)

lemma boot_pool: "pool boot_kmem []"
  by (simp add: pool_def kmem_ok_def boot_symbols_def)

text \<open>C4: pages are neither lost nor handed out twice. Whatever sequence of \<open>kalloc\<close> calls, \<open>kfree\<close>
  calls on allocated pages and stores to allocated pages a client makes, the free list in memory
  stays well formed, free and allocated pages together stay the same pages, each once, and the
  next \<open>kalloc\<close> and every \<open>kfree\<close> of an allocated page return.\<close>

theorem kalloc_conserves_pages:
  assumes "pool s xs" and "distinct (live @ xs)" and "\<forall>p \<in> set live. freeable (sym s) p"
    and "(pa_step kalloc kfree client_writes)\<^sup>*\<^sup>* (s, live) (t, live')"
  shows "(\<exists>ys. pool t ys \<and> distinct (live' @ ys) \<and> mset live' + mset ys = mset live + mset xs) \<and>
    (\<exists>r u. kalloc t = Ok r u) \<and> (\<forall>p \<in> set live'. \<exists>u. kfree p t = Ok () u)"
proof -
  have "ka.owned s live (mset live + mset xs)" using assms(1-3) by (auto simp: ka.owned_def)
  then have o: "ka.owned t live' (mset live + mset xs)" using assms(4) by (rule ka.owned_steps [rotated])
  then show ?thesis using ka.alloc_ret [OF o] ka.free_ret [OF o] by (fastforce simp: ka.owned_def)
qed

theorem kalloc_conserves_pages_witness:
  "\<exists>t ys. (pa_step kalloc kfree client_writes)\<^sup>*\<^sup>* (boot_kmem, [0x80022000]) (t, []) \<and>
     pool t ys \<and> mset ys = {#0x80022000#}"
proof -
  have f: "freeable (sym boot_kmem) 0x80022000"
    by (simp add: freeable_def boot_symbols_def PHYSTOP_def KERNBASE_def page_aligned_def PGSIZE_def)
  obtain t where "kfree 0x80022000 boot_kmem = Ok () t"
    using pool_kfree [OF boot_pool f] by auto
  then have "pa_step kalloc kfree client_writes (boot_kmem, [0x80022000]) (t, remove1 0x80022000 [0x80022000])"
    by (intro pa_free) auto
  then have st: "(pa_step kalloc kfree client_writes)\<^sup>*\<^sup>* (boot_kmem, [0x80022000]) (t, [])" by auto
  have "\<exists>ys. pool t ys \<and> mset ys = {#0x80022000#}"
    using kalloc_conserves_pages [OF boot_pool _ _ st] f by auto
  with st show ?thesis by blast
qed

text \<open>C17: \<open>kinit\<close> puts every page between the end of the kernel and \<open>PHYSTOP\<close> on the free list,
  each once, and terminates.\<close>

theorem kinit_frees_all:
  assumes "hart_ok (hw s)" and "freelist s = 0" and "0 < sym_end (sym s)" and "sym_end (sym s) \<le> PHYSTOP"
  shows "runs kinit s (\<lambda>_ t. \<exists>xs. pool t xs \<and> set xs = {p. freeable (sym s) p})"
proof -
  let ?t = "s\<lparr>hw := (hw s)\<lparr>locks := (locks (hw s))(LkKmem := (locks (hw s) LkKmem)\<lparr>lk_name := ''kmem'',
    locked := 0, lk_cpu := None\<rparr>)\<rparr>\<rparr>"
  have "pool ?t []"
    using assms by (simp add: pool_def kmem_ok_def hart_ok_def lock_idle_def sie_def cur_cpu_def)
  moreover have "page_aligned PHYSTOP" by (simp add: PHYSTOP_def KERNBASE_def page_aligned_def PGSIZE_def)
  ultimately have "runs (freerange (sym_end (sym s)) PHYSTOP) ?t
      (\<lambda>_ t. \<exists>xs. pool t xs \<and> sym t = sym s \<and> set xs = {q. freeable (sym s) q \<and> q < PHYSTOP})"
    using assms(4) runs_freerange [of ?t PHYSTOP] by simp
  then have "runs (freerange (sym_end (sym s)) PHYSTOP) ?t
      (\<lambda>_ t. \<exists>xs. pool t xs \<and> set xs = {p. freeable (sym s) p})"
    by (rule runs_mono) (auto simp: freeable_def)
  then show ?thesis by (simp add: kinit_def)
qed

theorem kinit_frees_all_witness:
  "runs kinit boot_kmem (\<lambda>_ t. \<exists>xs. pool t xs \<and> set xs = {p. freeable boot_symbols p})"
  using kinit_frees_all [of boot_kmem] by (simp add: boot_symbols_def PHYSTOP_def KERNBASE_def)

end
