(* ===== verification/Xv6_Vm.thy ===== *)
theory Xv6_Vm
  imports Xv6_Kalloc
begin

text \<open>
  kernel/vm.c, with the page-table macros of riscv.h, the memory layout of memlayout.h and
  \<open>proc_mapstacks\<close> of proc.c: Sv39 page tables in physical memory, the kernel's direct map, user
  address spaces, and the copies between user and kernel memory. A page-table page and a page-table
  entry are addresses in \<open>mem\<close>. Kernel objects a user copy reads or fills are lists of bytes:
  \<open>copyout\<close> takes the bytes at \<open>src\<close>, \<open>copyin\<close> and \<open>copyinstr\<close> return the bytes they stored at \<open>dst\<close>
  beside the C result.

  Loops over pages are bounded by \<open>VM_FUEL\<close>: every iteration calls \<open>walk\<close> or \<open>walkaddr\<close> on a new page,
  and both stop the loop at \<open>MAXVA\<close>, which is \<open>2 ^ 26\<close> pages away.
\<close>

section \<open>riscv.h and memlayout.h\<close>

definition PTE_V :: u64 where "PTE_V = 1"
definition PTE_R :: u64 where "PTE_R = 2"
definition PTE_W :: u64 where "PTE_W = 4"
definition PTE_X :: u64 where "PTE_X = 8"
definition PTE_U :: u64 where "PTE_U = 16"

definition PA2PTE :: "u64 \<Rightarrow> u64" where
  "PA2PTE pa = push_bit 10 (drop_bit 12 pa)"

definition PTE2PA :: "u64 \<Rightarrow> u64" where
  "PTE2PA pte = push_bit 12 (drop_bit 10 pte)"

definition PTE_FLAGS :: "u64 \<Rightarrow> u64" where
  "PTE_FLAGS pte = pte AND 0x3FF"

definition PX :: "nat \<Rightarrow> u64 \<Rightarrow> u64" where
  "PX level va = drop_bit (12 + 9 * level) va AND 0x1FF"

definition MAXVA :: u64 where
  "MAXVA = push_bit (9 + 9 + 9 + 12 - 1) 1"

definition MAKE_SATP :: "u64 \<Rightarrow> u64" where
  "MAKE_SATP pagetable = push_bit 60 8 OR drop_bit 12 pagetable"

definition UART0 :: u64 where "UART0 = 0x10000000"
definition VIRTIO0 :: u64 where "VIRTIO0 = 0x10001000"
definition PLIC :: u64 where "PLIC = 0x0c000000"

definition TRAMPOLINE :: u64 where
  "TRAMPOLINE = MAXVA - PGSIZE"

definition KSTACK :: "nat \<Rightarrow> u64" where
  "KSTACK p = TRAMPOLINE - (of_nat p + 1) * 2 * PGSIZE"

definition TRAPFRAME :: u64 where
  "TRAPFRAME = TRAMPOLINE - PGSIZE"

definition NPROC :: nat where
  "NPROC = 64"

section \<open>State\<close>

record vm_state = kmem_state +
  kernel_pagetable :: u64
  satp :: "nat \<Rightarrow> u64"

definition VM_FUEL :: nat where
  "VM_FUEL = 2 ^ 26 + 2"

definition set_mem :: "(memory \<Rightarrow> memory) \<Rightarrow> (unit, 'z kbase_scheme) M" where
  "set_mem f = modify (\<lambda>s. s\<lparr>mem := f (mem s)\<rparr>)"

definition load_pte :: "u64 \<Rightarrow> (u64, 'z kbase_scheme) M" where
  "load_pte pte = gets (\<lambda>s. load64 (mem s) pte)"

section \<open>Walking and mapping\<close>

definition pte_addr :: "u64 \<Rightarrow> nat \<Rightarrow> u64 \<Rightarrow> u64" where
  "pte_addr pagetable level va = pagetable + 8 * PX level va"

fun walk_levels :: "nat list \<Rightarrow> u64 \<Rightarrow> u64 \<Rightarrow> bool \<Rightarrow> (u64, 'z vm_state_scheme) M" where
  "walk_levels [] pagetable va alloc = ret (pte_addr pagetable 0 va)"
| "walk_levels (level # levels) pagetable va alloc =
     kbind (load_pte (pte_addr pagetable level va)) (\<lambda>e.
     if e AND PTE_V \<noteq> 0 then walk_levels levels (PTE2PA e) va alloc
     else if \<not> alloc then ret 0
     else kbind kalloc (\<lambda>p.
       if p = 0 then ret 0 else
       kthen (set_mem (memset p 0 (ucast PGSIZE))) (
       kthen (set_mem (store64 (pte_addr pagetable level va) (PA2PTE p OR PTE_V)))
       (walk_levels levels p va alloc))))"

definition walk :: "u64 \<Rightarrow> u64 \<Rightarrow> bool \<Rightarrow> (u64, 'z vm_state_scheme) M" where
  "walk pagetable va alloc =
     (if va \<ge> MAXVA then panic ''walk'' else walk_levels [2, 1] pagetable va alloc)"

definition walkaddr :: "u64 \<Rightarrow> u64 \<Rightarrow> (u64, 'z vm_state_scheme) M" where
  "walkaddr pagetable va =
     (if va \<ge> MAXVA then ret 0 else
      kbind (walk pagetable va False) (\<lambda>pte.
      if pte = 0 then ret 0 else
      kbind (load_pte pte) (\<lambda>e.
      if e AND PTE_V = 0 then ret 0
      else if e AND PTE_U = 0 then ret 0
      else ret (PTE2PA e))))"

definition mappages_body ::
  "u64 \<Rightarrow> u64 \<Rightarrow> u64 \<Rightarrow> u64 \<times> u64 \<Rightarrow> ((u64 \<times> u64) + int, 'z vm_state_scheme) M" where
  "mappages_body pagetable last_a perm = (\<lambda>(a, pa).
     kbind (walk pagetable a True) (\<lambda>pte.
     if pte = 0 then ret (Inr (-1)) else
     kbind (load_pte pte) (\<lambda>e.
     if e AND PTE_V \<noteq> 0 then panic ''mappages: remap'' else
     kthen (set_mem (store64 pte (PA2PTE pa OR perm OR PTE_V)))
     (if a = last_a then ret (Inr 0) else ret (Inl (a + PGSIZE, pa + PGSIZE))))))"

definition mappages :: "u64 \<Rightarrow> u64 \<Rightarrow> u64 \<Rightarrow> u64 \<Rightarrow> u64 \<Rightarrow> (int, 'z vm_state_scheme) M" where
  "mappages pagetable va sz pa perm =
     (if sz = 0 then panic ''mappages: size'' else
      kloop VM_FUEL (mappages_body pagetable (PGROUNDDOWN (va + sz - 1)) perm) (PGROUNDDOWN va, pa))"

definition kvmmap :: "u64 \<Rightarrow> u64 \<Rightarrow> u64 \<Rightarrow> u64 \<Rightarrow> u64 \<Rightarrow> (unit, 'z vm_state_scheme) M" where
  "kvmmap kpgtbl va pa sz perm =
     kbind (mappages kpgtbl va sz pa perm) (\<lambda>r. kwhen (r \<noteq> 0) (panic ''kvmmap''))"

definition uvmunmap_body ::
  "u64 \<Rightarrow> u64 \<Rightarrow> bool \<Rightarrow> u64 \<Rightarrow> (u64 + unit, 'z vm_state_scheme) M" where
  "uvmunmap_body pagetable limit do_free = (\<lambda>a.
     if \<not> a < limit then ret (Inr ()) else
     kbind (walk pagetable a False) (\<lambda>pte.
     if pte = 0 then panic ''uvmunmap: walk'' else
     kbind (load_pte pte) (\<lambda>e.
     if e AND PTE_V = 0 then panic ''uvmunmap: not mapped''
     else if PTE_FLAGS e = PTE_V then panic ''uvmunmap: not a leaf'' else
     kthen (kwhen do_free (kfree (PTE2PA e))) (
     kthen (set_mem (store64 pte 0))
     (ret (Inl (a + PGSIZE)))))))"

definition uvmunmap :: "u64 \<Rightarrow> u64 \<Rightarrow> u64 \<Rightarrow> bool \<Rightarrow> (unit, 'z vm_state_scheme) M" where
  "uvmunmap pagetable va npages do_free =
     (if va mod PGSIZE \<noteq> 0 then panic ''uvmunmap: not aligned'' else
      kloop VM_FUEL (uvmunmap_body pagetable (va + npages * PGSIZE) do_free) va)"

section \<open>The kernel's page table\<close>

text \<open>A page \<open>kalloc\<close> could not provide is used without a test in some places: a store through the
  null pointer.\<close>

definition nonnull :: "u64 \<Rightarrow> (unit, 's) M" where
  "nonnull p = (if p = 0 then fault ''null pointer'' else ret ())"

definition proc_mapstacks :: "u64 \<Rightarrow> (unit, 'z vm_state_scheme) M" where
  "proc_mapstacks kpgtbl =
     kforall [0..<NPROC] (\<lambda>p.
       kbind kalloc (\<lambda>pa.
       if pa = 0 then panic ''kalloc'' else
       kvmmap kpgtbl (KSTACK p) pa PGSIZE (PTE_R OR PTE_W)))"

definition kvmmake :: "(u64, 'z vm_state_scheme) M" where
  "kvmmake =
     kbind kalloc (\<lambda>kpgtbl.
     kthen (nonnull kpgtbl) (
     kthen (set_mem (memset kpgtbl 0 (ucast PGSIZE))) (
     kbind (gets (\<lambda>s. sym_etext (sym s))) (\<lambda>etext.
     kbind (gets (\<lambda>s. sym_trampoline (sym s))) (\<lambda>trampoline.
     kthen (kvmmap kpgtbl UART0 UART0 PGSIZE (PTE_R OR PTE_W)) (
     kthen (kvmmap kpgtbl VIRTIO0 VIRTIO0 PGSIZE (PTE_R OR PTE_W)) (
     kthen (kvmmap kpgtbl PLIC PLIC 0x400000 (PTE_R OR PTE_W)) (
     kthen (kvmmap kpgtbl KERNBASE KERNBASE (etext - KERNBASE) (PTE_R OR PTE_X)) (
     kthen (kvmmap kpgtbl etext etext (PHYSTOP - etext) (PTE_R OR PTE_W)) (
     kthen (kvmmap kpgtbl TRAMPOLINE trampoline PGSIZE (PTE_R OR PTE_X)) (
     kthen (proc_mapstacks kpgtbl)
     (ret kpgtbl))))))))))))"

definition kvminit :: "(unit, 'z vm_state_scheme) M" where
  "kvminit = kbind kvmmake (\<lambda>p. modify (\<lambda>s. s\<lparr>kernel_pagetable := p\<rparr>))"

text \<open>The TLB is not part of the state, so the two fences have no effect on it.\<close>

definition kvminithart :: "(unit, 'z vm_state_scheme) M" where
  "kvminithart =
     modify (\<lambda>s. s\<lparr>satp := (satp s)(tp (hw s) := MAKE_SATP (kernel_pagetable s))\<rparr>)"

section \<open>User address spaces\<close>

definition uvmcreate :: "(u64, 'z vm_state_scheme) M" where
  "uvmcreate =
     kbind kalloc (\<lambda>pagetable.
     if pagetable = 0 then ret 0 else
     kthen (set_mem (memset pagetable 0 (ucast PGSIZE)))
     (ret pagetable))"

text \<open>\<open>memmove\<close> from a kernel object that is not in \<open>mem\<close>, given as its bytes, to an address.\<close>

definition write_bytes :: "u64 \<Rightarrow> u8 list \<Rightarrow> memory \<Rightarrow> memory" where
  "write_bytes dst bs m = (\<lambda>x. if unat (x - dst) < length bs then bs ! unat (x - dst) else m x)"

definition read_bytes :: "u64 \<Rightarrow> nat \<Rightarrow> memory \<Rightarrow> u8 list" where
  "read_bytes src n m = map (\<lambda>i. m (src + of_nat i)) [0..<n]"

definition uvmfirst :: "u64 \<Rightarrow> u8 list \<Rightarrow> (unit, 'z vm_state_scheme) M" where
  "uvmfirst pagetable src =
     (if 4096 \<le> length src then panic ''uvmfirst: more than a page'' else
      kbind kalloc (\<lambda>p.
      kthen (nonnull p) (
      kthen (set_mem (memset p 0 (ucast PGSIZE))) (
      kbind (mappages pagetable 0 PGSIZE p (PTE_W OR PTE_R OR PTE_X OR PTE_U)) (\<lambda>_.
      set_mem (write_bytes p src))))))"

definition uvmdealloc :: "u64 \<Rightarrow> u64 \<Rightarrow> u64 \<Rightarrow> (u64, 'z vm_state_scheme) M" where
  "uvmdealloc pagetable oldsz newsz =
     (if newsz \<ge> oldsz then ret oldsz else
      kthen (kwhen (PGROUNDUP newsz < PGROUNDUP oldsz)
        (uvmunmap pagetable (PGROUNDUP newsz)
           (scast (ucast ((PGROUNDUP oldsz - PGROUNDUP newsz) div PGSIZE) :: u32)) True))
      (ret newsz))"

definition uvmalloc_body ::
  "u64 \<Rightarrow> u64 \<Rightarrow> u64 \<Rightarrow> u64 \<Rightarrow> u64 \<Rightarrow> (u64 + u64, 'z vm_state_scheme) M" where
  "uvmalloc_body pagetable oldsz newsz xperm = (\<lambda>a.
     if \<not> a < newsz then ret (Inr newsz) else
     kbind kalloc (\<lambda>p.
     if p = 0 then kbind (uvmdealloc pagetable a oldsz) (\<lambda>_. ret (Inr 0)) else
     kthen (set_mem (memset p 0 (ucast PGSIZE))) (
     kbind (mappages pagetable a PGSIZE p (PTE_R OR PTE_U OR xperm)) (\<lambda>r.
     if r \<noteq> 0 then kthen (kfree p) (kbind (uvmdealloc pagetable a oldsz) (\<lambda>_. ret (Inr 0)))
     else ret (Inl (a + PGSIZE))))))"

definition uvmalloc :: "u64 \<Rightarrow> u64 \<Rightarrow> u64 \<Rightarrow> u64 \<Rightarrow> (u64, 'z vm_state_scheme) M" where
  "uvmalloc pagetable oldsz newsz xperm =
     (if newsz < oldsz then ret oldsz else
      kloop VM_FUEL (uvmalloc_body pagetable (PGROUNDUP oldsz) newsz xperm) (PGROUNDUP oldsz))"

text \<open>The recursion of \<open>freewalk\<close> follows the table; \<open>depth\<close> bounds it. A Sv39 table has three
  levels.\<close>

fun freewalk :: "nat \<Rightarrow> u64 \<Rightarrow> (unit, 'z vm_state_scheme) M" where
  "freewalk 0 pagetable = fault ''iteration bound''"
| "freewalk (Suc depth) pagetable =
     kthen (kforall [0..<512] (\<lambda>i.
       kbind (load_pte (pagetable + 8 * of_nat i)) (\<lambda>pte.
       if pte AND PTE_V \<noteq> 0 \<and> pte AND (PTE_R OR PTE_W OR PTE_X) = 0 then
         kthen (freewalk depth (PTE2PA pte))
         (set_mem (store64 (pagetable + 8 * of_nat i) 0))
       else kwhen (pte AND PTE_V \<noteq> 0) (panic ''freewalk: leaf''))))
     (kfree pagetable)"

definition uvmfree :: "u64 \<Rightarrow> u64 \<Rightarrow> (unit, 'z vm_state_scheme) M" where
  "uvmfree pagetable sz =
     kthen (kwhen (sz > 0) (uvmunmap pagetable 0 (PGROUNDUP sz div PGSIZE) True))
     (freewalk 3 pagetable)"

definition uvmcopy_err :: "u64 \<Rightarrow> u64 \<Rightarrow> (u64 + int, 'z vm_state_scheme) M" where
  "uvmcopy_err new i = kthen (uvmunmap new 0 (i div PGSIZE) True) (ret (Inr (-1)))"

definition uvmcopy_body :: "u64 \<Rightarrow> u64 \<Rightarrow> u64 \<Rightarrow> u64 \<Rightarrow> (u64 + int, 'z vm_state_scheme) M" where
  "uvmcopy_body old new sz = (\<lambda>i.
     if \<not> i < sz then ret (Inr 0) else
     kbind (walk old i False) (\<lambda>pte.
     if pte = 0 then panic ''uvmcopy: pte should exist'' else
     kbind (load_pte pte) (\<lambda>e.
     if e AND PTE_V = 0 then panic ''uvmcopy: page not present'' else
     kbind kalloc (\<lambda>p.
     if p = 0 then uvmcopy_err new i else
     kthen (set_mem (memmove p (PTE2PA e) (ucast PGSIZE))) (
     kbind (mappages new i PGSIZE p (PTE_FLAGS e)) (\<lambda>r.
     if r \<noteq> 0 then kthen (kfree p) (uvmcopy_err new i)
     else ret (Inl (i + PGSIZE))))))))"

definition uvmcopy :: "u64 \<Rightarrow> u64 \<Rightarrow> u64 \<Rightarrow> (int, 'z vm_state_scheme) M" where
  "uvmcopy old new sz = kloop VM_FUEL (uvmcopy_body old new sz) 0"

definition uvmclear :: "u64 \<Rightarrow> u64 \<Rightarrow> (unit, 'z vm_state_scheme) M" where
  "uvmclear pagetable va =
     kbind (walk pagetable va False) (\<lambda>pte.
     if pte = 0 then panic ''uvmclear'' else
     kbind (load_pte pte) (\<lambda>e. set_mem (store64 pte (e AND NOT PTE_U))))"

section \<open>Copies between user and kernel memory\<close>

text \<open>The number of bytes to copy in the page of \<open>va\<close> when \<open>len\<close> are left.\<close>

definition chunk :: "u64 \<Rightarrow> nat \<Rightarrow> nat" where
  "chunk va len = (let n = PGSIZE - (va - PGROUNDDOWN va) in if unat n > len then len else unat n)"

definition copyout_body ::
  "u64 \<Rightarrow> u64 \<times> u8 list \<Rightarrow> ((u64 \<times> u8 list) + int, 'z vm_state_scheme) M" where
  "copyout_body pagetable = (\<lambda>(dstva, src).
     if src = [] then ret (Inr 0) else
     kbind (walkaddr pagetable (PGROUNDDOWN dstva)) (\<lambda>pa0.
     if pa0 = 0 then ret (Inr (-1)) else
     kthen (set_mem (write_bytes (pa0 + (dstva - PGROUNDDOWN dstva))
       (take (chunk dstva (length src)) src)))
     (ret (Inl (PGROUNDDOWN dstva + PGSIZE, drop (chunk dstva (length src)) src)))))"

definition copyout :: "u64 \<Rightarrow> u64 \<Rightarrow> u8 list \<Rightarrow> (int, 'z vm_state_scheme) M" where
  "copyout pagetable dstva src = kloop VM_FUEL (copyout_body pagetable) (dstva, src)"

definition copyin_body ::
  "u64 \<Rightarrow> u8 list \<times> u64 \<times> nat \<Rightarrow> ((u8 list \<times> u64 \<times> nat) + (int \<times> u8 list), 'z vm_state_scheme) M" where
  "copyin_body pagetable = (\<lambda>(dst, srcva, len).
     if len = 0 then ret (Inr (0, dst)) else
     kbind (walkaddr pagetable (PGROUNDDOWN srcva)) (\<lambda>pa0.
     if pa0 = 0 then ret (Inr (-1, dst)) else
     kbind (gets (\<lambda>s. read_bytes (pa0 + (srcva - PGROUNDDOWN srcva)) (chunk srcva len) (mem s))) (\<lambda>bs.
     ret (Inl (dst @ bs, PGROUNDDOWN srcva + PGSIZE, len - chunk srcva len)))))"

definition copyin :: "u64 \<Rightarrow> u64 \<Rightarrow> nat \<Rightarrow> (int \<times> u8 list, 'z vm_state_scheme) M" where
  "copyin pagetable srcva len = kloop VM_FUEL (copyin_body pagetable) ([], srcva, len)"

text \<open>The inner loop of \<open>copyinstr\<close>: the bytes stored, and whether a NUL was one of them.\<close>

fun copyinstr_page :: "nat \<Rightarrow> u64 \<Rightarrow> memory \<Rightarrow> u8 list \<times> bool" where
  "copyinstr_page 0 p m = ([], False)"
| "copyinstr_page (Suc n) p m =
     (if m p = 0 then ([0], True)
      else case copyinstr_page n (p + 1) m of (bs, got_null) \<Rightarrow> (m p # bs, got_null))"

definition copyinstr_body ::
  "u64 \<Rightarrow> u8 list \<times> u64 \<times> nat \<times> bool \<Rightarrow>
    ((u8 list \<times> u64 \<times> nat \<times> bool) + (int \<times> u8 list), 'z vm_state_scheme) M" where
  "copyinstr_body pagetable = (\<lambda>(dst, srcva, max, got_null).
     if got_null \<or> max = 0 then ret (Inr (if got_null then 0 else -1, dst)) else
     kbind (walkaddr pagetable (PGROUNDDOWN srcva)) (\<lambda>pa0.
     if pa0 = 0 then ret (Inr (-1, dst)) else
     kbind (gets (\<lambda>s. copyinstr_page (chunk srcva max) (pa0 + (srcva - PGROUNDDOWN srcva)) (mem s)))
     (\<lambda>(bs, nul). ret (Inl (dst @ bs, PGROUNDDOWN srcva + PGSIZE, max - (if nul then length bs - 1 else length bs), nul)))))"

definition copyinstr :: "u64 \<Rightarrow> u64 \<Rightarrow> nat \<Rightarrow> (int \<times> u8 list, 'z vm_state_scheme) M" where
  "copyinstr pagetable srcva mx = kloop VM_FUEL (copyinstr_body pagetable) ([], srcva, mx, False)"

end
