(* ===== verification/Xv6_Paging.thy ===== *)
theory Xv6_Paging
  imports Xv6_Vm
begin

text \<open>
  What the functions of vm.c do to page tables and user memory.

  A page table is described by the tree of table pages below its root: \<open>tnode m pt is\<close> is the table
  page that the indices \<open>is\<close> lead to, \<open>pte_val m pt va\<close> the leaf entry for \<open>va\<close> (zero when a table
  page on the way is missing), \<open>pt_wf\<close> that the tree is a tree of allocator pages, no page twice.
  \<open>vm_inv\<close> adds that none of them is free. The lemmas on \<open>walk\<close> and \<open>mappages\<close> say what becomes of
  \<open>pte_val\<close>.
\<close>

section \<open>Page-table entries and indices\<close>

lemma unat_take_bit: "unat (take_bit n a) = unat a mod 2 ^ n"
  unfolding unsigned_take_bit_eq by (rule take_bit_eq_mod)

lemma page_aligned_bits: "page_aligned a \<longleftrightarrow> take_bit 12 a = 0"
  unfolding page_aligned_unat word_unat_eq_iff [of "take_bit 12 a"] unat_take_bit by simp

lemma PTE2PA_PA2PTE:
  assumes "page_aligned pa" "f < 1024"
  shows "PTE2PA (PA2PTE pa OR f) = pa"
proof (rule bit_word_eqI)
  fix n assume n: "n < LENGTH(64)"
  have f: "f = take_bit 10 f" using assms(2) by (simp add: word_less_nat_alt word_unat_eq_iff unsigned_take_bit_eq take_bit_nat_eq_self)
  have fb: "\<not> bit f (10 + k)" for k by (subst f) (simp add: bit_simps)
  have "take_bit 12 pa = 0" using assms(1) by (simp add: page_aligned_bits)
  then have lo: "\<not> bit pa n" if "n < 12"
    using that by (metis bit_take_bit_iff bit_0_eq bot_apply bot_bool_def)
  show "bit (PTE2PA (PA2PTE pa OR f)) n = bit pa n"
    using n lo fb [of "n - 12"] by (cases "n < 12") (auto simp: PTE2PA_def PA2PTE_def bit_simps)
qed

lemma PTE_FLAGS_PA2PTE:
  assumes "f < 1024"
  shows "PTE_FLAGS (PA2PTE pa OR f) = f"
proof -
  have "PTE_FLAGS (PA2PTE pa OR f) = take_bit 10 (PA2PTE pa OR f)"
    by (simp add: PTE_FLAGS_def take_bit_eq_mask mask_eq_exp_minus_1)
  also have "\<dots> = take_bit 10 f" by (rule bit_word_eqI) (auto simp: PA2PTE_def bit_simps)
  also have "\<dots> = f"
    using assms by (simp add: word_less_nat_alt word_unat_eq_iff unsigned_take_bit_eq take_bit_nat_eq_self)
  finally show ?thesis .
qed

lemma page_aligned_PTE2PA [simp]: "page_aligned (PTE2PA e)"
  unfolding page_aligned_bits by (rule bit_word_eqI) (simp add: PTE2PA_def bit_simps)

lemma PX_unat: "unat (PX l va) = unat va div 2 ^ (12 + 9 * l) mod 512"
proof -
  have "PX l va = take_bit 9 (drop_bit (12 + 9 * l) va)"
    by (simp add: PX_def take_bit_eq_mask mask_eq_exp_minus_1)
  moreover have "unat (drop_bit k va) = unat va div 2 ^ k" for k
    unfolding unsigned_drop_bit_eq take_bit_nat_eq_self [OF unsigned_less] by (rule drop_bit_eq_div)
  ultimately show ?thesis by (simp only: unat_take_bit) simp
qed

lemma PX_less [simp]: "PX l va < 512"
  by (simp add: word_less_nat_alt PX_unat)

lemma MAXVA_unat: "unat MAXVA = 2 ^ 38"
  by (simp add: MAXVA_def push_bit_eq_mult)

lemma PX_inj:
  assumes "va < MAXVA" "vb < MAXVA"
  shows "PX 2 va = PX 2 vb \<and> PX 1 va = PX 1 vb \<and> PX 0 va = PX 0 vb \<longleftrightarrow> pageno va = pageno vb"
proof -
  have px: "unat (PX 0 v) = pageno v mod 512 \<and> unat (PX 1 v) = pageno v div 512 mod 512 \<and>
      unat (PX 2 v) = pageno v div 262144" if "v < MAXVA" for v
  proof -
    have v: "unat v < 274877906944" using that by (simp add: word_less_nat_alt MAXVA_unat)
    have "unat v div 4096 div 262144 < 512" using v by (simp add: div_mult2_eq [symmetric])
    then show ?thesis by (simp add: PX_unat pageno_def div_mult2_eq [symmetric])
  qed
  have "x div 262144 * 262144 + x div 512 mod 512 * 512 + x mod 512 = x" for x :: nat
  proof -
    have "x div 262144 = x div 512 div 512" by (simp add: div_mult2_eq [symmetric])
    then have "x div 262144 * 262144 + x div 512 mod 512 * 512 =
        (x div 512 div 512 * 512 + x div 512 mod 512) * 512" by (simp only: distrib_right)
    then show ?thesis by (simp only: div_mult_mod_eq)
  qed
  then show ?thesis using px [OF assms(1)] px [OF assms(2)] by (metis word_unat_eq_iff)
qed

lemma pte_slot:
  assumes "page_aligned a" "i < 512"
  shows "unat (a + 8 * i) = unat a + 8 * unat i" "pageno (a + 8 * i) = pageno a"
    "in_page8 (a + 8 * i)" "unat (a + 8 * i) mod 8 = 0"
proof -
  have i: "unat i < 512" using assms(2) by (simp add: word_less_nat_alt)
  then have i8: "unat (8 * i) = 8 * unat i" by (simp add: unat_word_ariths)
  obtain k where k: "unat a = 4096 * k" using assms(1) by (auto simp: page_aligned_unat elim!: dvdE)
  have "4096 * k < 2 ^ 64" using k unat_u64 [of a] by simp
  then have "4096 * k + 4096 \<le> 2 ^ 64" by simp
  then show u: "unat (a + 8 * i) = unat a + 8 * unat i" using i i8 k by (simp add: unat_plus_if')
  show "pageno (a + 8 * i) = pageno a" using u i k by (simp add: pageno_def)
  show "in_page8 (a + 8 * i)" using u i k by (simp add: in_page8_def)
  have "4096 * k = 8 * (512 * k)" by simp
  then show "unat (a + 8 * i) mod 8 = 0" using u k by (metis mod_mult_self1_is_0 distrib_left)
qed

lemma pte_slot_inj:
  assumes "page_aligned a" "page_aligned b" "i < 512" "j < 512"
  shows "a + 8 * i = b + 8 * j \<longleftrightarrow> a = b \<and> i = j"
proof
  assume e: "a + 8 * i = b + 8 * j"
  then have "pageno a = pageno b" using assms pte_slot(2) by metis
  then have ab: "a = b" using assms page_aligned_eqI by blast
  have "unat a + 8 * unat i = unat b + 8 * unat j" using e assms pte_slot(1) by metis
  with ab show "a = b \<and> i = j" by (simp add: word_unat_eq_iff)
qed simp

section \<open>The tree of table pages\<close>

definition entry :: "memory \<Rightarrow> u64 \<Rightarrow> u64 \<Rightarrow> u64 option" where
  "entry m a i = (let e = load64 m (a + 8 * i) in if e AND PTE_V = 0 then None else Some (PTE2PA e))"

fun tnode :: "memory \<Rightarrow> u64 \<Rightarrow> u64 list \<Rightarrow> u64 option" where
  "tnode m a [] = Some a"
| "tnode m a (i # is) = (case entry m a i of None \<Rightarrow> None | Some b \<Rightarrow> tnode m b is)"

definition path :: "u64 list \<Rightarrow> bool" where
  "path ps \<longleftrightarrow> length ps \<le> 2 \<and> (\<forall>i \<in> set ps. i < 512)"

definition tables :: "memory \<Rightarrow> u64 \<Rightarrow> u64 set" where
  "tables m pt = {a. \<exists>ps. path ps \<and> tnode m pt ps = Some a}"

definition pt_wf :: "symbols \<Rightarrow> memory \<Rightarrow> u64 \<Rightarrow> bool" where
  "pt_wf y m pt \<longleftrightarrow> (\<forall>a \<in> tables m pt. freeable y a) \<and>
     (\<forall>ps qs a. path ps \<and> path qs \<and> tnode m pt ps = Some a \<and> tnode m pt qs = Some a \<longrightarrow> ps = qs)"

definition va_path :: "u64 \<Rightarrow> u64 list" where
  "va_path va = [PX 2 va, PX 1 va]"

definition pte_val :: "memory \<Rightarrow> u64 \<Rightarrow> u64 \<Rightarrow> u64" where
  "pte_val m pt va = (case tnode m pt (va_path va) of None \<Rightarrow> 0 | Some a \<Rightarrow> load64 m (a + 8 * PX 0 va))"

lemma path_simps [simp]: "path []" "path (va_path va)" "path [PX l va]"
  by (simp_all add: path_def va_path_def)

lemma path_snoc: "path (ps @ [i]) \<Longrightarrow> path ps \<and> i < 512"
  by (simp add: path_def)

lemma tnode_snoc: "tnode m a (ps @ [i]) = (case tnode m a ps of None \<Rightarrow> None | Some b \<Rightarrow> entry m b i)"
  by (induction ps arbitrary: a) (auto split: option.splits)

lemma tablesI: "path ps \<Longrightarrow> tnode m pt ps = Some a \<Longrightarrow> a \<in> tables m pt"
  by (auto simp: tables_def)

lemma pt_wf_aligned: "pt_wf y m pt \<Longrightarrow> path ps \<Longrightarrow> tnode m pt ps = Some a \<Longrightarrow> page_aligned a"
  using tablesI by (auto simp: pt_wf_def freeable_def)

lemma pt_wf_inj:
  "pt_wf y m pt \<Longrightarrow> path ps \<Longrightarrow> path qs \<Longrightarrow> tnode m pt ps = Some a \<Longrightarrow> tnode m pt qs = Some a \<Longrightarrow> ps = qs"
  by (auto simp: pt_wf_def)

lemma entry_agree:
  "agree P m m' \<Longrightarrow> page_aligned a \<Longrightarrow> i < 512 \<Longrightarrow> pageno a \<notin> P \<Longrightarrow> entry m' a i = entry m a i"
  using load64_agree [of P m m' "a + 8 * i"] pte_slot(2,3) [of a i] by (simp add: entry_def)

lemma tnode_eqI:
  assumes "\<And>ps i a. path (ps @ [i]) \<Longrightarrow> tnode m pt ps = Some a \<Longrightarrow> entry m' a i = entry m a i"
  shows "path ps \<Longrightarrow> tnode m' pt ps = tnode m pt ps"
proof (induction ps rule: rev_induct)
  case (snoc i ps)
  then show ?case using assms [of ps i] path_snoc [of ps i] by (auto simp: tnode_snoc split: option.splits)
qed simp

lemma tables_eqI: "(\<And>ps. path ps \<Longrightarrow> tnode m' pt ps = tnode m pt ps) \<Longrightarrow> tables m' pt = tables m pt"
  by (auto simp: tables_def)

lemma pt_wf_eqI:
  assumes "pt_wf y m pt" "\<And>ps. path ps \<Longrightarrow> tnode m' pt ps = tnode m pt ps"
  shows "pt_wf y m' pt"
  using assms tables_eqI [of m' pt m] unfolding pt_wf_def by metis

text \<open>Stores outside the table pages do not change the table.\<close>

lemma pt_agree:
  assumes "pt_wf y m pt" "agree P m m'" "pageno ` tables m pt \<inter> P = {}"
  shows "path ps \<Longrightarrow> tnode m' pt ps = tnode m pt ps" "pt_wf y m' pt" "tables m' pt = tables m pt"
    "pte_val m' pt va = pte_val m pt va"
proof -
  have np: "pageno a \<notin> P" if "path ps" "tnode m pt ps = Some a" for ps a
    using tablesI [OF that] assms(3) by auto
  have t: "tnode m' pt ps = tnode m pt ps" if "path ps" for ps
  proof (rule tnode_eqI [OF _ that])
    fix ps i a assume "path (ps @ [i])" "tnode m pt ps = Some a"
    then show "entry m' a i = entry m a i"
      using path_snoc [of ps i] np pt_wf_aligned [OF assms(1)] by (intro entry_agree [OF assms(2)]) auto
  qed
  then show "path ps \<Longrightarrow> tnode m' pt ps = tnode m pt ps" by simp
  show "pt_wf y m' pt" by (rule pt_wf_eqI [OF assms(1) t])
  show "tables m' pt = tables m pt" by (rule tables_eqI [OF t])
  have "load64 m (a + 8 * PX 0 va) = load64 m' (a + 8 * PX 0 va)" if "tnode m pt (va_path va) = Some a" for a
    using np [of "va_path va" a] that pt_wf_aligned [OF assms(1), of "va_path va" a] pte_slot(2,3) [of a]
    by (intro load64_agree [OF assms(2)]) auto
  then show "pte_val m' pt va = pte_val m pt va"
    using t [of "va_path va"] by (auto simp: pte_val_def split: option.splits)
qed

text \<open>A leaf entry is stored in a page on the last level, which no path of table pages goes through.\<close>

lemma entry_store_other:
  assumes "page_aligned a" "page_aligned b" "i < 512" "j < 512" "\<not> (a = b \<and> i = j)"
  shows "entry (store64 (a + 8 * i) v m) b j = entry m b j"
    "load64 (store64 (a + 8 * i) v m) (b + 8 * j) = load64 m (b + 8 * j)"
proof -
  show "load64 (store64 (a + 8 * i) v m) (b + 8 * j) = load64 m (b + 8 * j)"
    by (rule load64_other_word [OF pte_slot(4) pte_slot(4)]) (use assms pte_slot_inj in auto)
  then show "entry (store64 (a + 8 * i) v m) b j = entry m b j" by (simp add: entry_def)
qed

lemma leaf_store:
  fixes v :: u64
  assumes "pt_wf y m pt" "tnode m pt (va_path va) = Some a" "va < MAXVA"
  defines "m' \<equiv> store64 (a + 8 * PX 0 va) v m"
  shows "path ps \<Longrightarrow> tnode m' pt ps = tnode m pt ps" "pt_wf y m' pt" "tables m' pt = tables m pt"
    "vb < MAXVA \<Longrightarrow> pte_val m' pt vb = (if pageno vb = pageno va then v else pte_val m pt vb)"
proof -
  have a: "page_aligned a" using pt_wf_aligned [OF assms(1) _ assms(2)] by simp
  have t: "tnode m' pt ps = tnode m pt ps" if "path ps" for ps
  proof (rule tnode_eqI [OF _ that])
    fix ps i b assume p: "path (ps @ [i])" and b: "tnode m pt ps = Some b"
    have "a \<noteq> b"
    proof
      assume "a = b"
      then have "ps = va_path va" using pt_wf_inj [OF assms(1) _ _ b] assms(2) path_snoc [OF p] by simp
      with p show False by (simp add: path_def va_path_def)
    qed
    then show "entry m' b i = entry m b i"
      using a path_snoc [OF p] pt_wf_aligned [OF assms(1) _ b] by (simp add: m'_def entry_store_other)
  qed
  then show "path ps \<Longrightarrow> tnode m' pt ps = tnode m pt ps" by simp
  show "pt_wf y m' pt" by (rule pt_wf_eqI [OF assms(1) t])
  show "tables m' pt = tables m pt" by (rule tables_eqI [OF t])
  assume vb: "vb < MAXVA"
  show "pte_val m' pt vb = (if pageno vb = pageno va then v else pte_val m pt vb)"
  proof (cases "pageno vb = pageno va")
    case True
    then have "va_path vb = va_path va" "PX 0 vb = PX 0 va" using PX_inj [OF vb assms(3)] by (auto simp: va_path_def)
    then show ?thesis using True t [of "va_path va"] assms(2) by (simp add: pte_val_def m'_def load64_store64)
  next
    case False
    have "load64 m' (b + 8 * PX 0 vb) = load64 m (b + 8 * PX 0 vb)" if b: "tnode m pt (va_path vb) = Some b" for b
    proof -
      have "va_path va = va_path vb" if "a = b"
        using pt_wf_inj [OF assms(1) path_simps(2) path_simps(2) assms(2)] b that by simp
      then have "\<not> (a = b \<and> PX 0 va = PX 0 vb)"
        using False PX_inj [OF vb assms(3)] by (auto simp: va_path_def)
      then show ?thesis using a pt_wf_aligned [OF assms(1) _ b] by (simp add: m'_def entry_store_other)
    qed
    then show ?thesis using False t [of "va_path vb"] by (auto simp: pte_val_def split: option.splits)
  qed
qed

text \<open>A new, empty table page \<open>p\<close> is hung below the table page that \<open>ps\<close> leads to, at index \<open>i\<close>.\<close>

lemma new_table:
  assumes wf: "pt_wf y m pt" and ps: "path (ps @ [i])" and a: "tnode m pt ps = Some a"
    and none: "entry m a i = None" and p: "freeable y p" "p \<notin> tables m pt"
  defines "m' \<equiv> store64 (a + 8 * i) (PA2PTE p OR PTE_V) (memset p 0 4096 m)"
  shows "path qs \<Longrightarrow> tnode m' pt qs = (if qs = ps @ [i] then Some p else tnode m pt qs)"
    "pt_wf y m' pt" "tables m' pt = insert p (tables m pt)" "pte_val m' pt va = pte_val m pt va"
proof -
  have al: "page_aligned a" "page_aligned p" and i: "i < 512" and pps: "path ps"
    using path_snoc [OF ps] pt_wf_aligned [OF wf _ a] p(1) by (auto simp: freeable_def)
  have pa: "a \<noteq> p" using tablesI [OF pps a] p(2) by auto
  have ag: "agree {pageno p} m (memset p 0 4096 m)" using al by (simp add: agree_memset)
  have old: "entry m' b j = entry m b j" "load64 m' (b + 8 * j) = load64 m (b + 8 * j)"
    if b: "path qs" "tnode m pt qs = Some b" "j < 512" and ne: "\<not> (qs = ps \<and> j = i)" for qs b j
  proof -
    have bp: "page_aligned b" "pageno b \<noteq> pageno p"
      using pt_wf_aligned [OF wf b(1,2)] tablesI [OF b(1,2)] p(2) al page_aligned_eqI by auto
    have "\<not> (a = b \<and> i = j)" using ne pt_wf_inj [OF wf b(1) pps b(2)] a by auto
    then show "load64 m' (b + 8 * j) = load64 m (b + 8 * j)"
      using bp al i b(3) load64_agree [OF ag, of "b + 8 * j"] by (simp add: m'_def entry_store_other pte_slot)
    then show "entry m' b j = entry m b j" by (simp add: entry_def)
  qed
  have new: "load64 m' (p + 8 * j) = 0" if "j < 512" for j
  proof -
    have "load64 m' (p + 8 * j) = load64 (memset p 0 4096 m) (p + 8 * j)"
      using al i that pa by (simp add: m'_def entry_store_other)
    also have "\<dots> = 0"
      by (rule load64_const) (simp add: memset_page al pageno_offset pte_slot that)
    finally show ?thesis .
  qed
  have tn: "tnode m' pt qs = (if qs = ps @ [i] then Some p else tnode m pt qs)" if "path qs" for qs
    using that
  proof (induction qs rule: rev_induct)
    case (snoc j qs)
    note q = path_snoc [OF snoc.prems]
    show ?case
    proof (cases "qs = ps @ [i]")
      case True
      have "tnode m pt qs = None" unfolding True tnode_snoc using none a by simp
      moreover have "tnode m' pt qs = Some p" using snoc.IH q True by presburger
      moreover have "entry m' p j = None" using new q by (simp add: entry_def)
      moreover have "qs @ [j] \<noteq> ps @ [i]" unfolding True by simp
      ultimately show ?thesis unfolding tnode_snoc by simp
    next
      case False
      show ?thesis
      proof (cases "qs = ps \<and> j = i")
        case True
        have "entry m' a i = Some p"
          using al(2) by (simp add: entry_def m'_def load64_store64 PTE2PA_PA2PTE PTE_V_def bit_simps)
        then show ?thesis using True False snoc.IH q a by (simp add: tnode_snoc)
      next
        case ne: False
        then show ?thesis using False snoc.IH q old(1) [of qs _ j]
          by (auto simp: tnode_snoc split: option.splits)
      qed
    qed
  qed simp
  have nn: "tnode m pt (ps @ [i]) = None" using none a by (simp add: tnode_snoc)
  show "path qs \<Longrightarrow> tnode m' pt qs = (if qs = ps @ [i] then Some p else tnode m pt qs)" by (rule tn)
  show ins: "tables m' pt = insert p (tables m pt)"
    using tn nn ps unfolding tables_def by (auto split: if_splits) (metis option.distinct(1))
  have "qs = rs" if "path qs" "path rs" "tnode m' pt qs = Some b" "tnode m' pt rs = Some b" for qs rs b
    using that p(2) tn pt_wf_inj [OF wf that(1,2)] by (auto split: if_splits dest: tablesI)
  then show "pt_wf y m' pt" using ins p(1) wf by (auto simp: pt_wf_def)
  have "va_path va \<noteq> ps" using ps by (auto simp: path_def va_path_def)
  then show "pte_val m' pt va = pte_val m pt va"
    using tn [of "va_path va"] nn new [of "PX 0 va"] old(2) [of "va_path va" _ "PX 0 va"]
    by (auto simp: pte_val_def split: option.splits if_splits)
qed

section \<open>walk\<close>

definition vm_inv :: "'z vm_state_scheme \<Rightarrow> u64 \<Rightarrow> u64 list \<Rightarrow> bool" where
  "vm_inv s pt xs \<longleftrightarrow> pool s xs \<and> pt_wf (sym s) (mem s) pt \<and> tables (mem s) pt \<inter> set xs = {}"

text \<open>From \<open>s\<close> to \<open>t\<close> the page table \<open>pt\<close> took table pages from the free list and no page outside
  the table changed; \<open>pt_grow\<close>: nor did any mapping.\<close>

definition pt_ext :: "u64 \<Rightarrow> 'z vm_state_scheme \<Rightarrow> u64 list \<Rightarrow> 'z vm_state_scheme \<Rightarrow> u64 list \<Rightarrow> bool" where
  "pt_ext pt s xs t ys \<longleftrightarrow> vm_inv t pt ys \<and> t = s\<lparr>mem := mem t, freelist := freelist t\<rparr> \<and>
     agree (pageno ` tables (mem t) pt) (mem s) (mem t) \<and>
     (\<exists>new. xs = new @ ys \<and> tables (mem t) pt = tables (mem s) pt \<union> set new)"

definition pt_grow :: "u64 \<Rightarrow> 'z vm_state_scheme \<Rightarrow> u64 list \<Rightarrow> 'z vm_state_scheme \<Rightarrow> u64 list \<Rightarrow> bool" where
  "pt_grow pt s xs t ys \<longleftrightarrow> pt_ext pt s xs t ys \<and>
     (\<forall>va. pte_val (mem t) pt va = pte_val (mem s) pt va) \<and>
     (\<forall>ps a. path ps \<longrightarrow> tnode (mem s) pt ps = Some a \<longrightarrow> tnode (mem t) pt ps = Some a)"

lemma vm_inv_table:
  assumes "vm_inv s pt xs" "path ps" "tnode (mem s) pt ps = Some a"
  shows "page_aligned a" "a \<noteq> 0" "freeable (sym s) a" "a \<notin> set xs" "i < 512 \<Longrightarrow> a + 8 * i \<noteq> 0"
proof -
  have f: "freeable (sym s) a" "0 < sym_end (sym s)" and x: "a \<notin> set xs"
    using assms tablesI [OF assms(2,3)] by (auto simp: vm_inv_def pt_wf_def pool_def kmem_ok_def)
  then show "freeable (sym s) a" "a \<notin> set xs" by simp_all
  from f show a: "page_aligned a" "a \<noteq> 0" by (auto simp: freeable_def)
  show "i < 512 \<Longrightarrow> a + 8 * i \<noteq> 0" using pte_slot(1) [OF a(1), of i] a(2) by (auto simp: word_unat_eq_iff)
qed

lemma pt_ext_refl: "vm_inv s pt xs \<Longrightarrow> pt_ext pt s xs s xs"
  by (simp add: pt_ext_def)

lemma pt_ext_trans: "pt_ext pt s xs t ys \<Longrightarrow> pt_ext pt t ys u zs \<Longrightarrow> pt_ext pt s xs u zs"
proof -
  assume a: "pt_ext pt s xs t ys" and b: "pt_ext pt t ys u zs"
  obtain new new' where n: "xs = new @ ys" "tables (mem t) pt = tables (mem s) pt \<union> set new"
    "ys = new' @ zs" "tables (mem u) pt = tables (mem t) pt \<union> set new'"
    using a b by (auto simp: pt_ext_def)
  have "agree (pageno ` tables (mem t) pt \<union> pageno ` tables (mem u) pt) (mem s) (mem u)"
    using a b agree_trans by (auto simp: pt_ext_def)
  then have ag: "agree (pageno ` tables (mem u) pt) (mem s) (mem u)"
    by (rule agree_mono) (use n in auto)
  have eq: "u = s\<lparr>mem := mem u, freelist := freelist u\<rparr>"
  proof -
    have t: "t = s\<lparr>mem := mem t, freelist := freelist t\<rparr>" and u: "u = t\<lparr>mem := mem u, freelist := freelist u\<rparr>"
      using a b by (auto simp: pt_ext_def)
    show ?thesis by (subst u, subst t) simp
  qed
  have "xs = (new @ new') @ zs" "tables (mem u) pt = tables (mem s) pt \<union> set (new @ new')"
    using n by auto
  then show ?thesis using b ag eq unfolding pt_ext_def by metis
qed

lemma pt_grow_refl: "vm_inv s pt xs \<Longrightarrow> pt_grow pt s xs s xs"
  by (simp add: pt_grow_def pt_ext_refl)

lemma pt_grow_trans: "pt_grow pt s xs t ys \<Longrightarrow> pt_grow pt t ys u zs \<Longrightarrow> pt_grow pt s xs u zs"
  using pt_ext_trans by (fastforce simp: pt_grow_def)

lemma memset_memset: "memset p c n (memset p d n m) = memset p c n m"
  by (rule ext) (simp add: memset_apply)

lemma pt_grow_new:
  assumes inv: "vm_inv s pt (p # ys)" and ps: "path (ps @ [i])" and a: "tnode (mem s) pt ps = Some a"
    and none: "entry (mem s) a i = None"
  defines "t \<equiv> s\<lparr>freelist := load64 (mem s) p,
    mem := store64 (a + 8 * i) (PA2PTE p OR PTE_V) (memset p 0 4096 (mem s))\<rparr>"
  shows "pt_grow pt s (p # ys) t ys" "tnode (mem t) pt (ps @ [i]) = Some p"
proof -
  have pp: "p \<notin> tables (mem s) pt" "freeable (sym s) p" "p \<notin> set ys" "page_aligned p"
    and wf: "pt_wf (sym s) (mem s) pt"
    using inv by (auto simp: vm_inv_def pool_def kmem_ok_def freeable_def)
  note nt = new_table [OF wf ps a none pp(2,1)]
  note tb = vm_inv_table [OF inv _ a]
  have i: "i < 512" and pps: "path ps" using path_snoc [OF ps] by auto
  have m: "mem t = store64 (a + 8 * i) (PA2PTE p OR PTE_V) (memset p 0 4096 (mem s))" by (simp add: t_def)
  have ta: "a \<in> tables (mem s) pt" using tablesI [OF pps a] .
  have ag: "agree (pageno ` {a, p}) (mem s) (mem t)"
    unfolding m using tb(1) [OF pps] pp(4) pte_slot(2,3) [OF _ i]
    by (intro agree_mono [OF agree_trans [OF agree_memset [of p "pageno ` {a, p}"] agree_store64]]) auto
  have "kmem_ok t ys"
  proof (rule kmem_ok_frame)
    show "kmem_ok (s\<lparr>freelist := load64 (mem s) p, mem := memset p 5 4096 (mem s)\<rparr>) ys"
      using inv by (intro kmem_ok_kalloc) (simp add: vm_inv_def pool_def)
    show "agree (pageno ` {a, p}) (mem (s\<lparr>freelist := load64 (mem s) p, mem := memset p 5 4096 (mem s)\<rparr>)) (mem t)"
      using agree_trans [OF agree_sym [OF agree_memset [OF pp(4), of "pageno ` {a, p}"]] ag] by simp
    have "page_aligned y \<and> y \<noteq> a \<and> y \<noteq> p" if "y \<in> set ys" for y
      using that inv pp(3) ta kmem_okD [of s "p # ys" y] by (auto simp: vm_inv_def pool_def)
    then show "pageno ` set ys \<inter> pageno ` {a, p} = {}"
      using tb(1) [OF pps] pp(4) page_aligned_eqI by blast
  qed (simp_all add: t_def)
  then have "vm_inv t pt ys"
    using inv nt(2,3) pp(3) unfolding vm_inv_def pool_def m by (auto simp: t_def)
  moreover have "agree (pageno ` tables (mem t) pt) (mem s) (mem t)"
    by (rule agree_mono [OF ag]) (use nt(3) m ta in auto)
  moreover have "\<exists>new. p # ys = new @ ys \<and> tables (mem t) pt = tables (mem s) pt \<union> set new"
    using nt(3) m by (intro exI [of _ "[p]"]) simp
  moreover have "tnode (mem s) pt (ps @ [i]) = None" using none a by (simp add: tnode_snoc)
  ultimately show "pt_grow pt s (p # ys) t ys" using nt(1,4) m unfolding pt_grow_def pt_ext_def
    by (auto simp: t_def split: if_splits)
  show "tnode (mem t) pt (ps @ [i]) = Some p" using nt(1) [OF ps] m by simp
qed

lemma runs_set_mem [simp]: "runs (set_mem f) s P = P () (s\<lparr>mem := f (mem s)\<rparr>)"
  by (simp add: set_mem_def)

lemma runs_load_pte [simp]: "runs (load_pte a) s P = P (load64 (mem s) a) s"
  by (simp add: load_pte_def)

text \<open>Without allocation \<open>walk\<close> changes nothing and finds the entry that \<open>tnode\<close> finds.\<close>

lemma walk_levels_lookup:
  "walk_levels ls a va False s =
     Ok (case tnode (mem s) a (map (\<lambda>l. PX l va) ls) of None \<Rightarrow> 0 | Some b \<Rightarrow> b + 8 * PX 0 va) s"
proof (induction ls arbitrary: a)
  case (Cons l ls)
  then show ?case
    by (simp add: kbind_def load_pte_def gets_def entry_def pte_addr_def Let_def)
qed (simp add: pte_addr_def)

lemma runs_walk_lookup:
  "va < MAXVA \<Longrightarrow> runs (walk pt va False) s P =
     P (case tnode (mem s) pt (va_path va) of None \<Rightarrow> 0 | Some b \<Rightarrow> b + 8 * PX 0 va) s"
  using walk_levels_lookup [of "[2, 1]" pt va s]
  by (auto simp: walk_def runs_def va_path_def not_less [symmetric] simp del: walk_levels.simps tnode.simps)

lemma runs_walk_levels:
  assumes "vm_inv s pt xs" "tnode (mem s) pt ps = Some a" "ps @ map (\<lambda>l. PX l va) ls = va_path va"
  shows "runs (walk_levels ls a va True) s (\<lambda>r t. \<exists>ys. pt_grow pt s xs t ys \<and>
    (if r = 0 then ys = [] else \<exists>b. tnode (mem t) pt (va_path va) = Some b \<and> r = b + 8 * PX 0 va))"
  using assms
proof (induction ls arbitrary: s xs ps a)
  case Nil
  then show ?case using vm_inv_table(5) [OF Nil.prems(1) _ Nil.prems(2), of "PX 0 va"] pt_grow_refl
    by (auto simp: pte_addr_def)
next
  case (Cons l ls)
  let ?i = "PX l va"
  have pre: "(ps @ [?i]) @ map (\<lambda>l. PX l va) ls = va_path va" using Cons.prems(3) by simp
  have path: "path (ps @ [?i])"
    using path_simps(2) [of va] unfolding pre [symmetric] by (auto simp: path_def)
  show ?case
  proof (cases "load64 (mem s) (a + 8 * ?i) AND PTE_V = 0")
    case False
    then have "tnode (mem s) pt (ps @ [?i]) = Some (PTE2PA (load64 (mem s) (a + 8 * ?i)))"
      using Cons.prems(2) by (simp add: tnode_snoc entry_def)
    from Cons.IH [OF Cons.prems(1) this pre] show ?thesis using False by (simp add: pte_addr_def)
  next
    case True
    then have none: "entry (mem s) a ?i = None" by (simp add: entry_def)
    have pool: "pool s xs" using Cons.prems(1) by (simp add: vm_inv_def)
    show ?thesis
    proof (cases xs)
      case Nil
      then show ?thesis using True pool pt_grow_refl Cons.prems(1)
        by (simp add: pte_addr_def runs_kalloc [OF pool])
    next
      case (Cons p ys)
      let ?t = "s\<lparr>freelist := load64 (mem s) p,
        mem := store64 (a + 8 * ?i) (PA2PTE p OR PTE_V) (memset p 0 4096 (mem s))\<rparr>"
      have inv: "vm_inv s pt (p # ys)" using Cons.prems(1) Cons by simp
      note g = pt_grow_new [OF inv path Cons.prems(2) none]
      have "p \<noteq> 0" using inv kmem_okD [of s "p # ys" p] by (simp add: vm_inv_def pool_def)
      moreover have "runs (walk_levels ls p va True) ?t (\<lambda>r t. \<exists>zs. pt_grow pt s xs t zs \<and>
          (if r = 0 then zs = [] else \<exists>b. tnode (mem t) pt (va_path va) = Some b \<and> r = b + 8 * PX 0 va))"
        using Cons.IH [OF _ g(2) pre, of ys] g(1) Cons
        by (auto simp: pt_grow_def [of pt s _ ?t] pt_ext_def [of pt s _ ?t] elim!: runs_mono intro: pt_grow_trans [OF g(1)])
      ultimately show ?thesis
        using True Cons by (simp add: pte_addr_def runs_kalloc [OF pool] memset_memset)
    qed
  qed
qed

lemma runs_walk_alloc:
  assumes "vm_inv s pt xs" "va < MAXVA"
  shows "runs (walk pt va True) s (\<lambda>r t. \<exists>ys. pt_grow pt s xs t ys \<and>
    (if r = 0 then ys = [] else \<exists>b. tnode (mem t) pt (va_path va) = Some b \<and> r = b + 8 * PX 0 va))"
  using runs_walk_levels [OF assms(1), of "[]" pt va "[2, 1]"] assms(2)
  by (simp add: walk_def va_path_def not_le)

section \<open>mappages\<close>

lemma pt_ext_leaf:
  assumes inv: "vm_inv s pt xs" and b: "tnode (mem s) pt (va_path va) = Some b" and va: "va < MAXVA"
  shows "pt_ext pt s xs (s\<lparr>mem := store64 (b + 8 * PX 0 va) v (mem s)\<rparr>) xs"
proof -
  let ?t = "s\<lparr>mem := store64 (b + 8 * PX 0 va) v (mem s)\<rparr>"
  have wf: "pt_wf (sym s) (mem s) pt" using inv by (simp add: vm_inv_def)
  note ls = leaf_store [OF wf b va, where v = v]
  note tb = vm_inv_table [OF inv path_simps(2) b]
  have ag: "agree {pageno b} (mem s) (mem ?t)"
    using pte_slot(2,3) [OF tb(1)] by (simp add: agree_store64)
  have "page_aligned y \<and> y \<noteq> b" if "y \<in> set xs" for y
    using that inv tb(4) kmem_okD [of s xs y] by (auto simp: vm_inv_def pool_def)
  then have "pageno ` set xs \<inter> {pageno b} = {}" using tb(1) page_aligned_eqI by blast
  then have "kmem_ok ?t xs"
    using kmem_ok_frame [OF _ ag, of xs] inv by (simp add: vm_inv_def pool_def)
  moreover have "b \<in> tables (mem s) pt" using tablesI [OF _ b] by simp
  ultimately show ?thesis
    using inv ls(2,3) agree_mono [OF ag, of "pageno ` tables (mem s) pt"]
    by (auto simp: pt_ext_def vm_inv_def pool_def)
qed

definition mapped ::
  "'z vm_state_scheme \<Rightarrow> 'z vm_state_scheme \<Rightarrow> u64 \<Rightarrow> nat \<Rightarrow> nat \<Rightarrow> u64 \<Rightarrow> u64 \<Rightarrow> bool" where
  "mapped s t pt first next pa perm \<longleftrightarrow> (\<forall>v < MAXVA. pte_val (mem t) pt v =
     (if first \<le> pageno v \<and> pageno v < next
      then PA2PTE (pa + of_nat (pageno v - first) * PGSIZE) OR perm OR PTE_V
      else pte_val (mem s) pt v))"

lemma runs_mappages_body:
  assumes inv: "vm_inv s pt xs" and a: "a < MAXVA" and nv: "pte_val (mem s) pt a AND PTE_V = 0"
  shows "runs (mappages_body pt l perm (a, pa)) s (\<lambda>r t. \<exists>ys. pt_ext pt s xs t ys \<and>
    (case r of Inl (a', pa') \<Rightarrow> a \<noteq> l \<and> a' = a + PGSIZE \<and> pa' = pa + PGSIZE \<and>
        mapped s t pt (pageno a) (Suc (pageno a)) pa perm
     | Inr q \<Rightarrow> q = -1 \<and> ys = [] \<and> pt_grow pt s xs t ys \<or>
         q = 0 \<and> a = l \<and> mapped s t pt (pageno a) (Suc (pageno a)) pa perm))"
  unfolding mappages_body_def prod.case runs_kbind
proof (rule runs_mono [OF runs_walk_alloc [OF inv a]])
  fix r :: u64 and t :: "'a vm_state_scheme"
  assume "\<exists>ys. pt_grow pt s xs t ys \<and>
    (if r = 0 then ys = [] else \<exists>b. tnode (mem t) pt (va_path a) = Some b \<and> r = b + 8 * PX 0 a)"
  then obtain ys where g: "pt_grow pt s xs t ys"
    and r: "if r = 0 then ys = [] else \<exists>b. tnode (mem t) pt (va_path a) = Some b \<and> r = b + 8 * PX 0 a" by blast
  have e: "pt_ext pt s xs t ys" and i: "vm_inv t pt ys" and pv: "\<And>v. pte_val (mem t) pt v = pte_val (mem s) pt v"
    using g by (auto simp: pt_grow_def pt_ext_def)
  let ?Q = "\<lambda>r t. \<exists>ys. pt_ext pt s xs t ys \<and> (case r of Inl (a', pa') \<Rightarrow> a \<noteq> l \<and> a' = a + PGSIZE \<and>
      pa' = pa + PGSIZE \<and> mapped s t pt (pageno a) (Suc (pageno a)) pa perm
    | Inr q \<Rightarrow> q = -1 \<and> ys = [] \<and> pt_grow pt s xs t ys \<or>
        q = 0 \<and> a = l \<and> mapped s t pt (pageno a) (Suc (pageno a)) pa perm)"
  show "runs (if r = 0 then ret (Inr (- 1)) else
     kbind (load_pte r) (\<lambda>e. if e AND PTE_V \<noteq> 0 then panic ''mappages: remap'' else
       kthen (set_mem (store64 r (PA2PTE pa OR perm OR PTE_V)))
       (if a = l then ret (Inr 0) else ret (Inl (a + PGSIZE, pa + PGSIZE))))) t ?Q"
  proof (cases "r = 0")
    case True
    then show ?thesis using e g r by auto
  next
    case False
    then obtain b where b: "tnode (mem t) pt (va_path a) = Some b" "r = b + 8 * PX 0 a" using r by auto
    let ?v = "PA2PTE pa OR perm OR PTE_V" and ?u = "t\<lparr>mem := store64 r (PA2PTE pa OR perm OR PTE_V) (mem t)\<rparr>"
    have "load64 (mem t) r = pte_val (mem s) pt a" using b pv [of a] by (simp add: pte_val_def)
    then have "load64 (mem t) r AND PTE_V = 0" using nv by simp
    moreover have "pt_ext pt s xs ?u ys"
      using pt_ext_trans [OF e pt_ext_leaf [OF i b(1) a]] b(2) by simp
    moreover have "mapped s ?u pt (pageno a) (Suc (pageno a)) pa perm"
      using leaf_store(4) [OF _ b(1) a, where y = "sym t" and v = ?v] i pv b(2)
      by (auto simp: mapped_def vm_inv_def le_less_Suc_eq)
    ultimately show ?thesis using False by auto
  qed
qed

lemma mapped_Cons:
  assumes "mapped s t pt n (Suc n) pa perm" "mapped t u pt (Suc n) k (pa + PGSIZE) perm" "Suc n \<le> k"
  shows "mapped s u pt n k pa perm"
  unfolding mapped_def
proof (intro allI impI)
  fix v :: u64 assume v: "v < MAXVA"
  have eq: "pa + PGSIZE + of_nat (pageno v - Suc n) * PGSIZE = pa + of_nat (pageno v - n) * PGSIZE" if "n < pageno v"
  proof -
    have "pageno v - n = Suc (pageno v - Suc n)" using that by simp
    then show ?thesis by (simp add: algebra_simps)
  qed
  have t: "pte_val (mem t) pt v = (if n \<le> pageno v \<and> pageno v < Suc n
      then PA2PTE (pa + of_nat (pageno v - n) * PGSIZE) OR perm OR PTE_V else pte_val (mem s) pt v)"
    and u: "pte_val (mem u) pt v = (if Suc n \<le> pageno v \<and> pageno v < k
      then PA2PTE (pa + PGSIZE + of_nat (pageno v - Suc n) * PGSIZE) OR perm OR PTE_V else pte_val (mem t) pt v)"
    using assms(1,2) v unfolding mapped_def by blast+
  show "pte_val (mem u) pt v = (if n \<le> pageno v \<and> pageno v < k
      then PA2PTE (pa + of_nat (pageno v - n) * PGSIZE) OR perm OR PTE_V else pte_val (mem s) pt v)"
  proof (cases "n < pageno v")
    case True
    then show ?thesis unfolding u t eq [OF True] by auto
  next
    case False
    then show ?thesis unfolding u t using assms(3) by auto
  qed
qed

text \<open>The result of mapping the pages from \<open>first\<close> up to \<open>next\<close>: all of them, or the free list ran out
  after some of them.\<close>

definition mappages_post ::
  "u64 \<Rightarrow> 'z vm_state_scheme \<Rightarrow> u64 list \<Rightarrow> nat \<Rightarrow> nat \<Rightarrow> u64 \<Rightarrow> u64 \<Rightarrow> int \<Rightarrow> 'z vm_state_scheme \<Rightarrow> bool" where
  "mappages_post pt s xs first next pa perm r t \<longleftrightarrow> (\<exists>ys. pt_ext pt s xs t ys \<and>
     (r = 0 \<and> mapped s t pt first next pa perm \<or>
      r = -1 \<and> ys = [] \<and> (\<exists>k. first \<le> k \<and> k < next \<and> mapped s t pt first k pa perm)))"

lemma next_page_no:
  assumes "page_aligned a" "pageno a < pageno l"
  shows "page_aligned (a + PGSIZE)" "pageno (a + PGSIZE) = Suc (pageno a)"
proof -
  have "a < PGROUNDDOWN l" "page_aligned (PGROUNDDOWN l)"
    using assms by (simp_all add: word_less_nat_alt PGROUNDDOWN_unat pageno_def page_aligned_unat)
  from next_page [OF assms(1) this(2,1)] show "page_aligned (a + PGSIZE)" "pageno (a + PGSIZE) = Suc (pageno a)"
    by (simp_all add: pageno_def)
qed

lemma mappages_post_Cons:
  assumes "pt_ext pt s xs t ys" "mapped s t pt n (Suc n) pa perm"
    "mappages_post pt t ys (Suc n) k (pa + PGSIZE) perm r u" "Suc n \<le> k"
  shows "mappages_post pt s xs n k pa perm r u"
  using assms pt_ext_trans [OF assms(1)] mapped_Cons [OF assms(2)]
  unfolding mappages_post_def by (metis Suc_leD less_imp_le)

lemma runs_mappages_loop:
  assumes "vm_inv s pt xs" "page_aligned a" "page_aligned l" "pageno a \<le> pageno l" "l < MAXVA"
    and "\<forall>v < MAXVA. pageno a \<le> pageno v \<and> pageno v \<le> pageno l \<longrightarrow> pte_val (mem s) pt v AND PTE_V = 0"
    and "pageno l - pageno a < n"
  shows "runs (kloop n (mappages_body pt l perm) (a, pa)) s
    (mappages_post pt s xs (pageno a) (Suc (pageno l)) pa perm)"
  using assms
proof (induction n arbitrary: s xs a pa)
  case (Suc n)
  have "pageno l * 4096 < 2 ^ 38" using Suc.prems(3,5)
    by (auto simp: pageno_def word_less_nat_alt MAXVA_unat page_aligned_unat)
  then have am: "a < MAXVA" using Suc.prems(2,4)
    by (auto simp: pageno_def word_less_nat_alt MAXVA_unat page_aligned_unat)
  then have nv: "pte_val (mem s) pt a AND PTE_V = 0" using Suc.prems(4,6) by simp
  show ?case unfolding kloop.simps runs_kbind
  proof (rule runs_mono [OF runs_mappages_body [OF Suc.prems(1) am nv]])
    fix r :: "(u64 \<times> u64) + int" and t :: "'a vm_state_scheme"
    assume "\<exists>ys. pt_ext pt s xs t ys \<and> (case r of Inl (a', pa') \<Rightarrow> a \<noteq> l \<and> a' = a + PGSIZE \<and>
        pa' = pa + PGSIZE \<and> mapped s t pt (pageno a) (Suc (pageno a)) pa perm
      | Inr q \<Rightarrow> q = -1 \<and> ys = [] \<and> pt_grow pt s xs t ys \<or>
          q = 0 \<and> a = l \<and> mapped s t pt (pageno a) (Suc (pageno a)) pa perm)"
    then obtain ys where e: "pt_ext pt s xs t ys" and r: "case r of Inl (a', pa') \<Rightarrow> a \<noteq> l \<and>
        a' = a + PGSIZE \<and> pa' = pa + PGSIZE \<and> mapped s t pt (pageno a) (Suc (pageno a)) pa perm
      | Inr q \<Rightarrow> q = -1 \<and> ys = [] \<and> pt_grow pt s xs t ys \<or>
          q = 0 \<and> a = l \<and> mapped s t pt (pageno a) (Suc (pageno a)) pa perm" by blast
    show "runs (case r of Inl l' \<Rightarrow> kloop n (mappages_body pt l perm) l' | Inr b \<Rightarrow> ret b) t
      (mappages_post pt s xs (pageno a) (Suc (pageno l)) pa perm)"
    proof (cases r)
      case (Inl q)
      with r have q: "q = (a + PGSIZE, pa + PGSIZE)" and ne: "a \<noteq> l"
        and mp: "mapped s t pt (pageno a) (Suc (pageno a)) pa perm" by (auto split: prod.splits)
      have lt: "pageno a < pageno l" using ne Suc.prems(2-4) page_aligned_eqI [of a l] by fastforce
      note np = next_page_no [OF Suc.prems(2) lt]
      have "runs (kloop n (mappages_body pt l perm) q) t
          (mappages_post pt t ys (Suc (pageno a)) (Suc (pageno l)) (pa + PGSIZE) perm)"
        using Suc.IH [of t ys "a + PGSIZE" "pa + PGSIZE"] e lt np Suc.prems(3,5,6,7) mp q
        by (simp add: pt_ext_def mapped_def)
      then show ?thesis using Inl mappages_post_Cons [OF e mp] lt by (auto elim!: runs_mono)
    next
      case (Inr q)
      then show ?thesis using r e Suc.prems(4)
        by (auto simp: mappages_post_def pt_grow_def mapped_def less_Suc_eq_le intro!: exI [of _ ys])
    qed
  qed
qed simp

lemma runs_mappages:
  assumes "vm_inv s pt xs" "sz \<noteq> 0" "unat va + unat sz \<le> 2 ^ 38"
    and "\<forall>v < MAXVA. pageno va \<le> pageno v \<and> pageno v \<le> pageno (va + sz - 1) \<longrightarrow> pte_val (mem s) pt v AND PTE_V = 0"
  shows "runs (mappages pt va sz pa perm) s
    (mappages_post pt s xs (pageno va) (Suc (pageno (va + sz - 1))) pa perm)"
proof -
  have "unat sz \<noteq> 0" using assms(2) by (simp add: unat_eq_zero)
  then have u: "unat (va + sz - 1) = unat va + unat sz - 1"
    using assms(3) by (simp add: unat_sub_if' unat_plus_if')
  then have "pageno va \<le> pageno (va + sz - 1)" "unat (va + sz - 1) < 2 ^ 38"
    using assms(3) \<open>unat sz \<noteq> 0\<close> by (auto simp: pageno_def intro: div_le_mono)
  moreover from this(2) have "PGROUNDDOWN (va + sz - 1) < MAXVA"
    by (simp add: word_less_nat_alt MAXVA_unat PGROUNDDOWN_unat)
  moreover have "pageno (va + sz - 1) < VM_FUEL" using calculation(2) by (simp add: pageno_def VM_FUEL_def)
  ultimately show ?thesis
    using assms runs_mappages_loop [OF assms(1), of "PGROUNDDOWN va" "PGROUNDDOWN (va + sz - 1)" VM_FUEL perm pa]
    by (simp add: mappages_def)
qed

end
