(* ===== verification/Xv6_Usermem.thy ===== *)
theory Xv6_Usermem
  imports Xv6_Paging
begin

text \<open>
  User memory as the kernel accesses it: \<open>upage\<close> and \<open>ubyte\<close> are the page and the byte behind a
  user address, \<open>as_wf\<close> an address space in which no user page is a table page or mapped twice. The
  lemmas on \<open>copyout\<close>, \<open>copyin\<close> and \<open>copyinstr\<close> (vm.c) say which bytes at user addresses they write
  or return, up to the first address that is not mapped.
\<close>

section \<open>Pages and bytes at user addresses\<close>

text \<open>The physical page behind a user address, zero when there is none, and the byte at a user
  address.\<close>

definition upage :: "memory \<Rightarrow> u64 \<Rightarrow> u64 \<Rightarrow> u64" where
  "upage m pt va = (let e = pte_val m pt va in
     if va < MAXVA \<and> e AND PTE_V \<noteq> 0 \<and> e AND PTE_U \<noteq> 0 then PTE2PA e else 0)"

definition uaddr :: "memory \<Rightarrow> u64 \<Rightarrow> u64 \<Rightarrow> u64" where
  "uaddr m pt va = upage m pt va + (va - PGROUNDDOWN va)"

definition ubyte :: "memory \<Rightarrow> u64 \<Rightarrow> u64 \<Rightarrow> u8" where
  "ubyte m pt va = m (uaddr m pt va)"

text \<open>An address space in order: its table is a tree, its user pages are no table pages and no page
  is mapped for the user twice.\<close>

definition as_wf :: "symbols \<Rightarrow> memory \<Rightarrow> u64 \<Rightarrow> bool" where
  "as_wf y m pt \<longleftrightarrow> 0 < sym_end y \<and> pt_wf y m pt \<and>
     (\<forall>va. upage m pt va \<noteq> 0 \<longrightarrow> pageno (upage m pt va) \<notin> pageno ` tables m pt) \<and>
     (\<forall>va vb. upage m pt va \<noteq> 0 \<and> upage m pt va = upage m pt vb \<longrightarrow> pageno va = pageno vb)"

lemma pageno_add:
  fixes a :: u64
  assumes "unat a mod 4096 + i < 4096"
  shows "unat (a + of_nat i) = unat a + i" "pageno (a + of_nat i) = pageno a"
proof -
  have "unat a + i = (unat a mod 4096 + i) + unat a div 4096 * 4096" by simp
  then have e: "(unat a + i) div 4096 = unat a div 4096"
    using assms by (metis div_less div_mult_self1 add_0_right zero_neq_numeral)
  have "unat a div 4096 < 4503599627370496" using unat_u64 [of a] by simp
  with e have l: "unat a + i < 2 ^ 64" by simp
  then show "unat (a + of_nat i) = unat a + i" using assms by (simp add: unat_plus_if' unat_of_nat)
  with e show "pageno (a + of_nat i) = pageno a" by (simp add: pageno_def)
qed

lemma page_offset: "unat (va - PGROUNDDOWN va) = unat va mod 4096"
proof -
  have "PGROUNDDOWN va \<le> va" by (simp add: word_le_nat_alt PGROUNDDOWN_unat)
  then have "unat (va - PGROUNDDOWN va) = unat va - unat va div 4096 * 4096"
    by (simp add: unat_sub_if' word_le_nat_alt PGROUNDDOWN_unat)
  then show ?thesis by (simp add: minus_div_mult_eq_mod)
qed

lemma PGROUNDDOWN_less_MAXVA [simp]: "PGROUNDDOWN va < MAXVA \<longleftrightarrow> va < MAXVA"
  by (auto simp: word_less_nat_alt PGROUNDDOWN_unat MAXVA_unat)

lemma pageno_MAXVA: "va < MAXVA \<longleftrightarrow> pageno va < 2 ^ 26"
  by (auto simp: word_less_nat_alt pageno_def MAXVA_unat)

lemma upage_cong: "pageno va = pageno vb \<Longrightarrow> upage m pt va = upage m pt vb"
proof -
  assume p: "pageno va = pageno vb"
  show ?thesis
  proof (cases "va < MAXVA")
    case True
    then have v: "va < MAXVA" "vb < MAXVA" using p by (simp_all add: pageno_MAXVA)
    then have "va_path va = va_path vb" "PX 0 va = PX 0 vb" using PX_inj [OF v] p by (auto simp: va_path_def)
    then have "pte_val m pt va = pte_val m pt vb" unfolding pte_val_def by (simp cong: option.case_cong)
    then show ?thesis using v by (simp add: upage_def)
  next
    case False
    then show ?thesis using p by (simp add: upage_def pageno_MAXVA)
  qed
qed

lemma upage_PGROUNDDOWN [simp]: "upage m pt (PGROUNDDOWN va) = upage m pt va"
  by (rule upage_cong) simp

lemma upage_aligned [simp]: "page_aligned (upage m pt va)"
  by (simp add: upage_def Let_def) (simp add: page_aligned_def)

lemma pageno_uaddr [simp]: "pageno (uaddr m pt va) = pageno (upage m pt va)"
proof -
  have "uaddr m pt va = upage m pt va + of_nat (unat va mod 4096)"
    by (simp add: uaddr_def flip: page_offset)
  then show ?thesis using upage_aligned [of m pt va] pageno_add(2) [of "upage m pt va" "unat va mod 4096"]
    by (simp add: page_aligned_unat)
qed

lemma runs_walkaddr:
  assumes "0 < sym_end (sym s)" "pt_wf (sym s) (mem s) pt"
  shows "runs (walkaddr pt va) s P = P (upage (mem s) pt va) s"
proof -
  have "b + 8 * PX 0 va \<noteq> 0" if "tnode (mem s) pt (va_path va) = Some b" for b
  proof -
    have f: "freeable (sym s) b" using tablesI [OF path_simps(2) that] assms(2) by (simp add: pt_wf_def)
    then have "unat (b + 8 * PX 0 va) = unat b + 8 * unat (PX 0 va)" "0 < unat b"
      using assms(1) pte_slot(1) [OF _ PX_less, of b 0 va] by (auto simp: freeable_def word_less_nat_alt word_le_nat_alt)
    then show ?thesis by auto
  qed
  then show ?thesis
    by (cases "va < MAXVA") (auto simp: walkaddr_def runs_walk_lookup upage_def pte_val_def Let_def not_less [symmetric]
        split: option.splits)
qed

lemma chunk_eq: "chunk va len = min (4096 - unat va mod 4096) len"
proof -
  have "unat va mod 4096 < 4096" by simp
  then have "unat (PGSIZE - (va - PGROUNDDOWN va)) = 4096 - unat va mod 4096"
    unfolding PGSIZE_def by (subst unat_sub) (simp_all add: page_offset word_le_nat_alt)
  then show ?thesis by (auto simp: chunk_def Let_def min_def)
qed

lemma uaddr_offset: "unat (uaddr m pt va) mod 4096 = unat va mod 4096"
  "pageno va = pageno vb \<Longrightarrow> uaddr m pt vb - uaddr m pt va = vb - va"
proof -
  have "uaddr m pt va = upage m pt va + of_nat (unat va mod 4096)"
    by (simp add: uaddr_def flip: page_offset)
  moreover have "unat (upage m pt va) mod 4096 = 0" using upage_aligned [of m pt va] by (simp only: page_aligned_unat)
  ultimately have "unat (uaddr m pt va) = unat (upage m pt va) + unat va mod 4096"
    using pageno_add(1) [of "upage m pt va" "unat va mod 4096"] by simp
  then show "unat (uaddr m pt va) mod 4096 = unat va mod 4096"
    using \<open>unat (upage m pt va) mod 4096 = 0\<close> by (metis mod_add_left_eq add_0 mod_mod_trivial)
  assume "pageno va = pageno vb"
  then have "upage m pt va = upage m pt vb" "PGROUNDDOWN va = PGROUNDDOWN vb"
    by (auto intro: upage_cong page_aligned_eqI)
  then show "uaddr m pt vb - uaddr m pt va = vb - va" by (simp add: uaddr_def)
qed

lemma near_page:
  assumes "unat (x - a) < n" "n \<le> 4096 - unat a mod 4096"
  shows "pageno x = pageno (a :: u64)"
  using pageno_add(2) [of a "unat (x - a)"] assms by simp

lemma agree_write:
  assumes "length bs \<le> 4096 - unat va mod 4096"
  shows "agree {pageno (upage m pt va)} m (write_bytes (uaddr m pt va) bs m)"
  using near_page [of _ "uaddr m pt va" "length bs"] assms
  by (auto simp: agree_def write_bytes_def uaddr_offset(1))

lemma as_wf_agree:
  assumes "as_wf y m pt" "agree (pageno ` {p. \<exists>va. upage m pt va = p \<and> p \<noteq> 0}) m m'"
  shows "as_wf y m' pt" "upage m' pt va = upage m pt va"
proof -
  have wf: "pt_wf y m pt" and d: "pageno ` tables m pt \<inter> pageno ` {p. \<exists>va. upage m pt va = p \<and> p \<noteq> 0} = {}"
    using assms(1) by (auto simp: as_wf_def) (metis image_eqI)
  note pa = pt_agree [OF wf assms(2) d]
  have u: "upage m' pt va = upage m pt va" for va using pa(4) by (simp add: upage_def)
  then show "upage m' pt va = upage m pt va" by simp
  show "as_wf y m' pt" using assms(1) pa(2,3) unfolding as_wf_def u by blast
qed

text \<open>The bytes \<open>bs\<close> were copied to user addresses from \<open>dst\<close> on and nothing else changed.\<close>

definition copied :: "'z vm_state_scheme \<Rightarrow> 'z vm_state_scheme \<Rightarrow> u64 \<Rightarrow> u64 \<Rightarrow> u8 list \<Rightarrow> bool" where
  "copied s t pt dst bs \<longleftrightarrow> t = s\<lparr>mem := mem t\<rparr> \<and>
     agree (pageno ` {p. \<exists>va. upage (mem s) pt va = p \<and> p \<noteq> 0}) (mem s) (mem t) \<and>
     (\<forall>va. upage (mem s) pt va \<noteq> 0 \<longrightarrow> ubyte (mem t) pt va =
       (if unat (va - dst) < length bs then bs ! unat (va - dst) else ubyte (mem s) pt va))"

lemma copied_Nil: "copied s s pt dst []"
  by (simp add: copied_def)

lemma copied_write:
  assumes wf: "as_wf (sym s) (mem s) pt" and u: "upage (mem s) pt dst \<noteq> 0"
    and len: "length bs \<le> 4096 - unat dst mod 4096"
  shows "copied s (s\<lparr>mem := write_bytes (uaddr (mem s) pt dst) bs (mem s)\<rparr>) pt dst bs"
proof -
  let ?m = "mem s" and ?m' = "write_bytes (uaddr (mem s) pt dst) bs (mem s)"
  have ag: "agree (pageno ` {p. \<exists>va. upage ?m pt va = p \<and> p \<noteq> 0}) ?m ?m'"
    by (rule agree_mono [OF agree_write [OF len]]) (use u in auto)
  have "ubyte ?m' pt va = (if unat (va - dst) < length bs then bs ! unat (va - dst) else ubyte ?m pt va)"
    if v: "upage ?m pt va \<noteq> 0" for va
  proof -
    have a: "uaddr ?m' pt va = uaddr ?m pt va" using as_wf_agree(2) [OF wf ag] by (simp add: uaddr_def)
    show ?thesis
    proof (cases "pageno va = pageno dst")
      case True
      then show ?thesis using uaddr_offset(2) [of dst va ?m pt] a by (simp add: ubyte_def write_bytes_def)
    next
      case False
      then have "pageno (upage ?m pt va) \<noteq> pageno (upage ?m pt dst)"
        using wf v u page_aligned_eqI [OF upage_aligned upage_aligned] unfolding as_wf_def by metis
      then have "?m' (uaddr ?m pt va) = ?m (uaddr ?m pt va)"
        using agree_write [OF len, of ?m pt] by (simp add: agree_def)
      moreover have "\<not> unat (va - dst) < length bs" using near_page len False by blast
      ultimately show ?thesis using a by (simp add: ubyte_def)
    qed
  qed
  then show ?thesis using ag by (simp add: copied_def)
qed

lemma copied_append:
  assumes wf: "as_wf (sym s) (mem s) pt"
    and a: "copied s t pt dst bs" and b: "copied t u pt (dst + of_nat (length bs)) cs"
    and len: "length bs \<le> 4096" "length cs \<le> 2 ^ 38"
  shows "copied s u pt dst (bs @ cs)"
proof -
  have up: "upage (mem t) pt va = upage (mem s) pt va" for va
    by (rule as_wf_agree(2) [OF wf]) (use a in \<open>simp add: copied_def\<close>)
  have "u = s\<lparr>mem := mem u\<rparr>"
  proof -
    have t: "t = s\<lparr>mem := mem t\<rparr>" and u: "u = t\<lparr>mem := mem u\<rparr>" using a b by (simp_all add: copied_def)
    show ?thesis by (subst u, subst t) simp
  qed
  moreover have "agree (pageno ` {p. \<exists>va. upage (mem s) pt va = p \<and> p \<noteq> 0}) (mem s) (mem u)"
    using agree_trans [of "pageno ` {p. \<exists>va. upage (mem s) pt va = p \<and> p \<noteq> 0}" "mem s" "mem t"
      "pageno ` {p. \<exists>va. upage (mem s) pt va = p \<and> p \<noteq> 0}" "mem u"] a b
    by (simp only: copied_def up Un_absorb)
  moreover have "ubyte (mem u) pt va = (if unat (va - dst) < length (bs @ cs) then (bs @ cs) ! unat (va - dst)
      else ubyte (mem s) pt va)" if v: "upage (mem s) pt va \<noteq> 0" for va
  proof -
    let ?d = "unat (va - dst)" and ?n = "length bs"
    have "va - (dst + of_nat ?n) = (va - dst) - of_nat ?n" by simp
    moreover have "unat (of_nat ?n :: u64) = ?n" using len by (simp add: unat_of_nat)
    ultimately have e: "unat (va - (dst + of_nat ?n)) = (if ?n \<le> ?d then ?d - ?n else ?d + 2 ^ 64 - ?n)"
      by (simp only: unat_sub_if') simp
    have t: "ubyte (mem t) pt va = (if ?d < ?n then bs ! ?d else ubyte (mem s) pt va)"
      and u: "ubyte (mem u) pt va = (if unat (va - (dst + of_nat ?n)) < length cs
        then cs ! unat (va - (dst + of_nat ?n)) else ubyte (mem t) pt va)"
      using a b v by (simp_all only: copied_def up) simp_all
    show ?thesis unfolding u t e using len by (simp add: nth_append) linarith
  qed
  ultimately show ?thesis by (simp add: copied_def)
qed

section \<open>How far a copy gets\<close>

text \<open>\<open>accessible m pt va len k\<close>: of the \<open>len\<close> bytes at \<open>va\<close>, exactly the first \<open>k\<close> come before the
  first address that is not mapped.\<close>

definition accessible :: "memory \<Rightarrow> u64 \<Rightarrow> u64 \<Rightarrow> nat \<Rightarrow> nat \<Rightarrow> bool" where
  "accessible m pt va len k \<longleftrightarrow> k \<le> len \<and> (\<forall>i < k. upage m pt (va + of_nat i) \<noteq> 0) \<and>
     (k < len \<longrightarrow> upage m pt (va + of_nat k) = 0)"

lemma accessible_bound: "accessible m pt va len k \<Longrightarrow> k \<le> 2 ^ 38"
proof (rule ccontr)
  assume a: "accessible m pt va len k" and k: "\<not> k \<le> 2 ^ 38"
  then have "0 < k" by simp
  with a have "upage m pt (va + of_nat 0) \<noteq> 0" unfolding accessible_def by blast
  then have va: "unat va < 2 ^ 38" by (auto simp: upage_def Let_def word_less_nat_alt MAXVA_unat split: if_splits)
  then have "va + of_nat (2 ^ 38 - unat va) = MAXVA"
    by (simp add: word_unat_eq_iff unat_plus_if' unat_of_nat MAXVA_unat)
  then have "upage m pt (va + of_nat (2 ^ 38 - unat va)) = 0" by (simp add: upage_def Let_def)
  moreover have "2 ^ 38 - unat va < k" using k by simp
  ultimately show False using a unfolding accessible_def by blast
qed

lemma accessible_unique: "accessible m pt va len k \<Longrightarrow> accessible m pt va len k' \<Longrightarrow> k = k'"
  unfolding accessible_def by (metis linorder_neqE_nat less_le_trans)

lemma accessible_cong: "(\<And>v. upage m' pt v = upage m pt v) \<Longrightarrow> accessible m' pt va len k = accessible m pt va len k"
  by (simp add: accessible_def)

lemma accessible_stop: "upage m pt va = 0 \<Longrightarrow> 0 < len \<Longrightarrow> accessible m pt va len 0"
  by (simp add: accessible_def)

lemma accessible_0: "accessible m pt va 0 0"
  by (simp add: accessible_def)

lemma next_addr: "PGROUNDDOWN va + PGSIZE = va + of_nat (4096 - unat va mod 4096)"
proof -
  have "va - PGROUNDDOWN va = of_nat (unat va mod 4096)" by (simp flip: page_offset)
  moreover have "of_nat (4096 - unat va mod 4096) = (4096 - of_nat (unat va mod 4096) :: u64)"
    by (subst of_nat_diff) simp_all
  ultimately show ?thesis by (simp add: PGSIZE_def algebra_simps)
qed

lemma pageno_next: "va < MAXVA \<Longrightarrow> pageno (PGROUNDDOWN va + PGSIZE) = Suc (pageno va)"
  using next_page_no(2) [of "PGROUNDDOWN va" MAXVA] by (simp add: pageno_MAXVA) (simp add: pageno_def MAXVA_unat)

lemma accessible_chunk:
  assumes "upage m pt va \<noteq> 0" "i < chunk va len"
  shows "upage m pt (va + of_nat i) = upage m pt va"
proof (intro upage_cong pageno_add(2))
  show "unat va mod 4096 + i < 4096" using assms(2) by (simp add: chunk_eq) linarith
qed

lemma accessible_step:
  assumes "upage m pt va \<noteq> 0" and "accessible m pt (PGROUNDDOWN va + PGSIZE) (len - chunk va len) k"
  shows "accessible m pt va len (chunk va len + k)"
proof (cases "len \<le> 4096 - unat va mod 4096")
  case True
  then have "chunk va len = len" by (simp add: chunk_eq)
  moreover have "k = 0" using assms(2) calculation by (simp add: accessible_def)
  ultimately show ?thesis using assms(1) accessible_chunk [OF assms(1), of _ len] by (auto simp: accessible_def)
next
  case False
  then have c: "chunk va len = 4096 - unat va mod 4096" by (simp add: chunk_eq)
  then have n: "PGROUNDDOWN va + PGSIZE + of_nat i = va + of_nat (chunk va len + i)" for i
    by (simp only: next_addr) (simp add: algebra_simps)
  have "upage m pt (va + of_nat i) \<noteq> 0" if "i < chunk va len + k" for i
  proof (cases "i < chunk va len")
    case True
    then show ?thesis using accessible_chunk [OF assms(1) True] assms(1) by simp
  next
    case False
    then have j: "i - chunk va len < k" "chunk va len + (i - chunk va len) = i" using that by simp_all
    then have "upage m pt (PGROUNDDOWN va + PGSIZE + of_nat (i - chunk va len)) \<noteq> 0"
      using assms(2) unfolding accessible_def by blast
    then show ?thesis unfolding n j(2) .
  qed
  moreover have "upage m pt (va + of_nat (chunk va len + k)) = 0" if "chunk va len + k < len"
    using assms(2) that n [of k] by (simp add: accessible_def)
  ultimately show ?thesis using assms(2) False c by (auto simp: accessible_def)
qed

text \<open>Every loop reaches an address that is not mapped after at most \<open>2 ^ 26\<close> pages.\<close>

lemma fuel_step:
  assumes "upage m pt va \<noteq> 0" "2 ^ 26 + 1 \<le> pageno va + Suc n"
  shows "2 ^ 26 + 1 \<le> pageno (PGROUNDDOWN va + PGSIZE) + n" "0 < n"
proof -
  have "va < MAXVA" using assms(1) by (auto simp: upage_def Let_def split: if_splits)
  then have "pageno (PGROUNDDOWN va + PGSIZE) = Suc (pageno va)" "pageno va < 2 ^ 26"
    by (simp_all only: pageno_next pageno_MAXVA)
  then show "2 ^ 26 + 1 \<le> pageno (PGROUNDDOWN va + PGSIZE) + n" "0 < n" using assms(2) by simp_all
qed

section \<open>copyout\<close>

definition copyout_post ::
  "u64 \<Rightarrow> u64 \<Rightarrow> u8 list \<Rightarrow> 'z vm_state_scheme \<Rightarrow> int \<Rightarrow> 'z vm_state_scheme \<Rightarrow> bool" where
  "copyout_post pt dst src s r t \<longleftrightarrow> (\<exists>k. accessible (mem s) pt dst (length src) k \<and>
     r = (if k = length src then 0 else -1) \<and> copied s t pt dst (take k src))"

lemma copyout_post_step:
  assumes wf: "as_wf (sym s) (mem s) pt" and u: "upage (mem s) pt dst \<noteq> 0"
    and cw: "copied s t pt dst (take (chunk dst (length src)) src)"
    and post: "copyout_post pt (PGROUNDDOWN dst + PGSIZE) (drop (chunk dst (length src)) src) t r u'"
  shows "copyout_post pt dst src s r u'"
proof -
  let ?c = "chunk dst (length src)"
  have up: "upage (mem t) pt v = upage (mem s) pt v" for v
    by (rule as_wf_agree(2) [OF wf]) (use cw in \<open>simp add: copied_def\<close>)
  obtain k where k: "accessible (mem s) pt (PGROUNDDOWN dst + PGSIZE) (length src - ?c) k"
    and r: "r = (if k = length src - ?c then 0 else -1)"
    and c: "copied t u' pt (PGROUNDDOWN dst + PGSIZE) (take k (drop ?c src))"
    using post unfolding copyout_post_def accessible_cong [OF up] by auto
  have cl: "?c \<le> length src" "?c \<le> 4096" by (simp_all add: chunk_eq)
  have "copied t u' pt (dst + of_nat (length (take ?c src))) (take k (drop ?c src))"
  proof (cases "length src \<le> 4096 - unat dst mod 4096")
    case True
    then have "drop ?c src = []" by (simp add: chunk_eq)
    then show ?thesis using c by (simp add: copied_def)
  next
    case False
    then show ?thesis using c by (simp add: next_addr chunk_eq)
  qed
  then have "copied s u' pt dst (take ?c src @ take k (drop ?c src))"
    using copied_append [OF wf cw] accessible_bound [OF k] cl by simp
  then have "copied s u' pt dst (take (?c + k) src)" by (simp add: take_add)
  then show ?thesis using accessible_step [OF u k] r cl
    by (auto simp: copyout_post_def intro!: exI [of _ "?c + k"])
qed

lemma runs_copyout_loop:
  assumes "as_wf (sym s) (mem s) pt" "2 ^ 26 + 1 \<le> pageno dst + n" "0 < n"
  shows "runs (kloop n (copyout_body pt) (dst, src)) s (copyout_post pt dst src s)"
  using assms
proof (induction n arbitrary: s dst src)
  case (Suc n)
  have wf: "0 < sym_end (sym s)" "pt_wf (sym s) (mem s) pt" using Suc.prems(1) by (auto simp: as_wf_def)
  let ?c = "chunk dst (length src)"
  let ?t = "s\<lparr>mem := write_bytes (uaddr (mem s) pt dst) (take ?c src) (mem s)\<rparr>"
  show ?case
  proof (cases "src = [] \<or> upage (mem s) pt dst = 0")
    case True
    then have "accessible (mem s) pt dst (length src) 0" by (auto simp: accessible_def)
    then show ?thesis using True
      by (auto simp: copyout_body_def runs_walkaddr [OF wf] copyout_post_def copied_Nil intro!: exI [of _ 0])
  next
    case False
    then have u: "upage (mem s) pt dst \<noteq> 0" by simp
    have cw: "copied s ?t pt dst (take ?c src)"
      using Suc.prems(1) u by (rule copied_write) (simp add: chunk_eq)
    have wf': "as_wf (sym ?t) (mem ?t) pt"
      using as_wf_agree(1) [OF Suc.prems(1), of "mem ?t"] cw by (simp add: copied_def)
    have "runs (kloop n (copyout_body pt) (PGROUNDDOWN dst + PGSIZE, drop ?c src)) ?t
        (copyout_post pt (PGROUNDDOWN dst + PGSIZE) (drop ?c src) ?t)"
      by (rule Suc.IH [OF wf' fuel_step [OF u Suc.prems(2)]])
    then have "runs (kloop n (copyout_body pt) (PGROUNDDOWN dst + PGSIZE, drop ?c src)) ?t
        (copyout_post pt dst src s)"
      by (rule runs_mono) (rule copyout_post_step [OF Suc.prems(1) u cw])
    then show ?thesis using False by (simp add: copyout_body_def runs_walkaddr [OF wf] uaddr_def)
  qed
qed simp

lemma runs_copyout:
  "as_wf (sym s) (mem s) pt \<Longrightarrow> runs (copyout pt dst src) s (copyout_post pt dst src s)"
  unfolding copyout_def by (rule runs_copyout_loop) (simp_all add: VM_FUEL_def)

section \<open>copyin\<close>

definition ubytes :: "memory \<Rightarrow> u64 \<Rightarrow> u64 \<Rightarrow> nat \<Rightarrow> u8 list" where
  "ubytes m pt va k = map (\<lambda>i. ubyte m pt (va + of_nat i)) [0..<k]"

definition copyin_post :: "memory \<Rightarrow> u64 \<Rightarrow> u64 \<Rightarrow> nat \<Rightarrow> int \<Rightarrow> u8 list \<Rightarrow> bool" where
  "copyin_post m pt src len r bs \<longleftrightarrow> (\<exists>k. accessible m pt src len k \<and>
     r = (if k = len then 0 else -1) \<and> bs = ubytes m pt src k)"

lemma ubytes_add: "ubytes m pt va (c + k) = ubytes m pt va c @ ubytes m pt (va + of_nat c) k"
proof -
  have "[c..<c + k] = map (\<lambda>i. c + i) [0..<k]" by (induction k) simp_all
  then show ?thesis
    by (simp add: ubytes_def upt_add_eq_append [of 0] comp_def add.assoc del: upt_conv_Cons)
qed

lemma read_bytes_ubytes: "read_bytes (uaddr m pt src) (chunk src len) m = ubytes m pt src (chunk src len)"
proof -
  have "m (uaddr m pt src + of_nat i) = ubyte m pt (src + of_nat i)" if "i < chunk src len" for i
  proof -
    have "unat src mod 4096 + i < 4096" using that by (simp add: chunk_eq) linarith
    then have "pageno src = pageno (src + of_nat i)" by (simp add: pageno_add)
    then have "uaddr m pt (src + of_nat i) = uaddr m pt src + of_nat i"
      using uaddr_offset(2) [of src "src + of_nat i" m pt] by (simp add: algebra_simps)
    then show ?thesis by (simp add: ubyte_def)
  qed
  then show ?thesis by (simp add: read_bytes_def ubytes_def)
qed

lemma copyin_post_step:
  assumes u: "upage m pt src \<noteq> 0"
    and post: "copyin_post m pt (PGROUNDDOWN src + PGSIZE) (len - chunk src len) r bs"
  shows "copyin_post m pt src len r (ubytes m pt src (chunk src len) @ bs)"
proof -
  let ?c = "chunk src len"
  obtain k where k: "accessible m pt (PGROUNDDOWN src + PGSIZE) (len - ?c) k"
    and r: "r = (if k = len - ?c then 0 else -1)" "bs = ubytes m pt (PGROUNDDOWN src + PGSIZE) k"
    using post by (auto simp: copyin_post_def)
  have "bs = ubytes m pt (src + of_nat ?c) k"
  proof (cases "len \<le> 4096 - unat src mod 4096")
    case True
    then show ?thesis using k r by (simp add: accessible_def chunk_eq ubytes_def)
  next
    case False
    then show ?thesis using r by (simp add: next_addr chunk_eq)
  qed
  then have "ubytes m pt src ?c @ bs = ubytes m pt src (?c + k)" by (simp only: ubytes_add)
  moreover have "?c \<le> len" by (simp add: chunk_eq)
  then have "r = (if ?c + k = len then 0 else -1)" using r(1) by auto
  ultimately show ?thesis using accessible_step [OF u k] unfolding copyin_post_def by blast
qed

lemma runs_copyin_loop:
  assumes "0 < sym_end (sym s)" "pt_wf (sym s) (mem s) pt" "2 ^ 26 + 1 \<le> pageno src + n" "0 < n"
  shows "runs (kloop n (copyin_body pt) (acc, src, len)) s (\<lambda>(r, d) t.
    t = s \<and> (\<exists>bs. d = acc @ bs \<and> copyin_post (mem s) pt src len r bs))"
  using assms
proof (induction n arbitrary: acc src len)
  case (Suc n)
  let ?c = "chunk src len"
  show ?case
  proof (cases "len = 0 \<or> upage (mem s) pt src = 0")
    case True
    then have "accessible (mem s) pt src len 0" by (auto simp: accessible_def)
    then have "copyin_post (mem s) pt src len (if len = 0 then 0 else -1) []"
      by (auto simp: copyin_post_def ubytes_def intro!: exI [of _ 0])
    then show ?thesis using True by (auto simp: copyin_body_def runs_walkaddr [OF Suc.prems(1,2)] split: if_splits)
  next
    case False
    then have u: "upage (mem s) pt src \<noteq> 0" by simp
    have "runs (kloop n (copyin_body pt) (acc @ ubytes (mem s) pt src ?c, PGROUNDDOWN src + PGSIZE, len - ?c)) s
        (\<lambda>(r, d) t. t = s \<and> (\<exists>bs. d = acc @ bs \<and> copyin_post (mem s) pt src len r bs))"
      by (rule runs_mono [OF Suc.IH [OF Suc.prems(1,2) fuel_step [OF u Suc.prems(3)]]])
        (auto dest: copyin_post_step [OF u])
    then show ?thesis using False
      by (simp add: copyin_body_def runs_walkaddr [OF Suc.prems(1,2)]
          read_bytes_ubytes [unfolded uaddr_def])
  qed
qed simp

lemma runs_copyin:
  assumes "0 < sym_end (sym s)" "pt_wf (sym s) (mem s) pt"
  shows "runs (copyin pt src len) s (\<lambda>(r, bs) t. t = s \<and> copyin_post (mem s) pt src len r bs)"
  using runs_copyin_loop [OF assms, of src VM_FUEL "[]" len] by (simp add: copyin_def VM_FUEL_def)

section \<open>copyinstr\<close>

definition copyinstr_post :: "memory \<Rightarrow> u64 \<Rightarrow> u64 \<Rightarrow> nat \<Rightarrow> int \<Rightarrow> u8 list \<Rightarrow> bool" where
  "copyinstr_post m pt src mx r bs \<longleftrightarrow> (\<exists>k. accessible m pt src mx k \<and>
     (let w = takeWhile (\<lambda>b. b \<noteq> 0) (ubytes m pt src k) in
      if length w < k then r = 0 \<and> bs = w @ [0] else r = -1 \<and> bs = w))"

lemma copyinstr_page_eq:
  "copyinstr_page n p m = (let w = takeWhile (\<lambda>b. b \<noteq> 0) (read_bytes p n m) in
     if length w < n then (w @ [0], True) else (w, False))"
proof (induction n arbitrary: p)
  case (Suc n)
  have "read_bytes p (Suc n) m = m p # read_bytes (p + 1) n m"
    unfolding read_bytes_def by (subst upt_conv_Cons) (simp_all add: map_Suc_upt [symmetric] comp_def add.assoc del: upt_Suc)
  then show ?case using Suc by (simp add: Let_def)
qed (simp add: read_bytes_def)

lemma accessible_ex: "\<exists>k. accessible m pt va len k"
proof (induction len)
  case 0
  show ?case using accessible_0 by blast
next
  case (Suc len)
  then obtain k where k: "accessible m pt va len k" by blast
  show ?case
  proof (cases "k = len \<and> upage m pt (va + of_nat len) \<noteq> 0")
    case True
    then show ?thesis using k by (intro exI [of _ "Suc len"]) (auto simp: accessible_def less_Suc_eq)
  next
    case False
    then show ?thesis using k by (intro exI [of _ k]) (auto simp: accessible_def less_Suc_eq)
  qed
qed

lemma length_ubytes [simp]: "length (ubytes m pt va k) = k"
  by (simp add: ubytes_def)

lemma accessible_ge_chunk:
  "upage m pt va \<noteq> 0 \<Longrightarrow> accessible m pt va len k \<Longrightarrow> chunk va len \<le> k"
  using accessible_ex [of m pt "PGROUNDDOWN va + PGSIZE" "len - chunk va len"]
    accessible_step [of m pt va len] accessible_unique [of m pt va len k] by (metis le_add1)

lemma takeWhile_short: "length (takeWhile P xs) < length xs \<longleftrightarrow> (\<exists>x \<in> set xs. \<not> P x)"
  by (induction xs) auto

lemma copyinstr_post_found:
  assumes u: "upage m pt src \<noteq> 0"
    and w: "w = takeWhile (\<lambda>b. b \<noteq> 0) (ubytes m pt src (chunk src mx))" "length w < chunk src mx"
  shows "copyinstr_post m pt src mx 0 (w @ [0])"
proof -
  let ?c = "chunk src mx"
  obtain k where k: "accessible m pt src mx k" using accessible_ex by blast
  then have ck: "?c \<le> k" by (rule accessible_ge_chunk [OF u])
  then have "ubytes m pt src k = ubytes m pt src ?c @ ubytes m pt (src + of_nat ?c) (k - ?c)"
    using ubytes_add [of m pt src ?c "k - ?c"] by simp
  moreover have "\<exists>x \<in> set (ubytes m pt src ?c). x = 0"
    using w takeWhile_short [of "\<lambda>b. b \<noteq> 0" "ubytes m pt src ?c"] by simp
  ultimately have tw: "takeWhile (\<lambda>b. b \<noteq> 0) (ubytes m pt src k) = w" using w(1) by (auto simp: takeWhile_append1)
  have "length w < k" using w(2) ck by simp
  then show ?thesis unfolding copyinstr_post_def Let_def by (intro exI [of _ k] conjI k) (simp add: tw)
qed

lemma copyinstr_post_step:
  assumes u: "upage m pt src \<noteq> 0" and nz: "\<not> length (takeWhile (\<lambda>b. b \<noteq> 0) (ubytes m pt src (chunk src mx))) < chunk src mx"
    and post: "copyinstr_post m pt (PGROUNDDOWN src + PGSIZE) (mx - chunk src mx) r bs"
  shows "copyinstr_post m pt src mx r (ubytes m pt src (chunk src mx) @ bs)"
proof -
  let ?c = "chunk src mx" and ?n = "PGROUNDDOWN src + PGSIZE" and ?P = "\<lambda>b :: u8. b \<noteq> 0"
  obtain k where k: "accessible m pt ?n (mx - ?c) k"
    and r: "let w = takeWhile ?P (ubytes m pt ?n k) in if length w < k then r = 0 \<and> bs = w @ [0] else r = -1 \<and> bs = w"
    using post unfolding copyinstr_post_def by blast
  have all: "\<forall>x \<in> set (ubytes m pt src ?c). ?P x"
    using nz takeWhile_short [of ?P "ubytes m pt src ?c"] by (simp only: length_ubytes) blast
  have "ubytes m pt ?n k = ubytes m pt (src + of_nat ?c) k"
  proof (cases "mx \<le> 4096 - unat src mod 4096")
    case True
    then show ?thesis using k by (simp add: accessible_def chunk_eq ubytes_def)
  next
    case False
    then show ?thesis by (simp add: next_addr chunk_eq)
  qed
  then have "takeWhile ?P (ubytes m pt src (?c + k)) = ubytes m pt src ?c @ takeWhile ?P (ubytes m pt ?n k)"
    using all by (simp add: ubytes_add takeWhile_append2)
  then show ?thesis using accessible_step [OF u k] r
    unfolding copyinstr_post_def Let_def by (intro exI [of _ "?c + k"]) (auto split: if_splits)
qed

lemma runs_copyinstr_loop:
  assumes "0 < sym_end (sym s)" "pt_wf (sym s) (mem s) pt" "2 ^ 26 + 1 \<le> pageno src + n" "0 < n"
  shows "runs (kloop n (copyinstr_body pt) (acc, src, mx, False)) s (\<lambda>(r, d) t.
    t = s \<and> (\<exists>bs. d = acc @ bs \<and> copyinstr_post (mem s) pt src mx r bs))"
  using assms
proof (induction n arbitrary: acc src mx)
  case (Suc n)
  let ?c = "chunk src mx" and ?w = "takeWhile (\<lambda>b. b \<noteq> 0) (ubytes (mem s) pt src (chunk src mx))"
  show ?case
  proof (cases "mx = 0 \<or> upage (mem s) pt src = 0")
    case True
    then have "accessible (mem s) pt src mx 0" by (auto simp: accessible_def)
    then have "copyinstr_post (mem s) pt src mx (-1) []"
      by (auto simp: copyinstr_post_def ubytes_def intro!: exI [of _ 0])
    then show ?thesis using True by (auto simp: copyinstr_body_def runs_walkaddr [OF Suc.prems(1,2)])
  next
    case False
    then have u: "upage (mem s) pt src \<noteq> 0" by simp
    note fs = fuel_step [OF u Suc.prems(3)]
    have body: "runs (copyinstr_body pt (acc, src, mx, False)) s Q \<longleftrightarrow>
      (if length ?w < ?c then Q (Inl (acc @ ?w @ [0], PGROUNDDOWN src + PGSIZE, mx - length ?w, True)) s
       else Q (Inl (acc @ ?w, PGROUNDDOWN src + PGSIZE, mx - length ?w, False)) s)" for Q
      using False by (simp add: copyinstr_body_def runs_walkaddr [OF Suc.prems(1,2)] copyinstr_page_eq
          read_bytes_ubytes [unfolded uaddr_def] Let_def)
    show ?thesis
    proof (cases "length ?w < ?c")
      case True
      obtain n' where "n = Suc n'" using fs(2) by (cases n) auto
      then show ?thesis using True copyinstr_post_found [OF u refl True]
        by (simp add: body) (simp add: copyinstr_body_def)
    next
      case no: False
      then have w: "?w = ubytes (mem s) pt src ?c"
        by (metis length_ubytes length_takeWhile_le takeWhile_eq_all_conv takeWhile_short)
      then have lw: "length ?w = ?c" by (simp only: length_ubytes)
      have st: "copyinstr_post (mem s) pt (PGROUNDDOWN src + PGSIZE) (mx - ?c) r bs \<Longrightarrow>
          copyinstr_post (mem s) pt src mx r (?w @ bs)" for r bs
        unfolding w by (rule copyinstr_post_step [OF u no])
      have "runs (kloop n (copyinstr_body pt) (acc @ ?w, PGROUNDDOWN src + PGSIZE, mx - ?c, False)) s
          (\<lambda>(r, d) t. t = s \<and> (\<exists>bs. d = acc @ bs \<and> copyinstr_post (mem s) pt src mx r bs))"
        by (rule runs_mono [OF Suc.IH [OF Suc.prems(1,2) fs]]) (auto dest: st)
      then show ?thesis unfolding kloop.simps runs_kbind body lw sum.case by simp
    qed
  qed
qed simp

lemma runs_copyinstr:
  assumes "0 < sym_end (sym s)" "pt_wf (sym s) (mem s) pt"
  shows "runs (copyinstr pt src mx) s (\<lambda>(r, bs) t. t = s \<and> copyinstr_post (mem s) pt src mx r bs)"
  using runs_copyinstr_loop [OF assms, of src VM_FUEL "[]" mx] by (simp add: copyinstr_def VM_FUEL_def)

section \<open>An address space with one page\<close>

text \<open>A three-level table that maps virtual page 0, for evaluation.\<close>

definition demo_root :: u64 where "demo_root = 0x80100000"
definition demo_l1 :: u64 where "demo_l1 = 0x80101000"
definition demo_l0 :: u64 where "demo_l0 = 0x80102000"
definition demo_page :: u64 where "demo_page = 0x80103000"

definition demo_m1 :: memory where
  "demo_m1 = store64 (demo_root + 8 * 0) (PA2PTE demo_l1 OR PTE_V) (memset demo_l1 0 4096 (\<lambda>_. 0))"

definition demo_m2 :: memory where
  "demo_m2 = store64 (demo_l1 + 8 * 0) (PA2PTE demo_l0 OR PTE_V) (memset demo_l0 0 4096 demo_m1)"

definition demo_pte :: u64 where
  "demo_pte = PA2PTE demo_page OR (PTE_V OR PTE_R OR PTE_W OR PTE_U)"

definition demo_mem :: memory where
  "demo_mem = store64 (demo_l0 + 8 * PX 0 0) demo_pte demo_m2"

lemmas demo_addr_defs = demo_root_def demo_l1_def demo_l0_def demo_page_def

lemma demo_freeable:
  "freeable boot_symbols demo_root" "freeable boot_symbols demo_l1" "freeable boot_symbols demo_l0"
  "freeable boot_symbols demo_page"
  by (simp_all add: freeable_def boot_symbols_def PHYSTOP_def KERNBASE_def page_aligned_def PGSIZE_def demo_addr_defs)

lemma va_path_0: "va_path 0 = [0, 0]" "PX 0 0 = 0"
  by (simp_all add: va_path_def PX_def)

lemma zero_entry: "entry (\<lambda>_. 0) a i = None"
  by (simp add: entry_def load64_const)

lemma demo_m0:
  "path ps \<Longrightarrow> tnode (\<lambda>_. 0) demo_root ps = (if ps = [] then Some demo_root else None)"
  "pt_wf boot_symbols (\<lambda>_. 0) demo_root" "tables (\<lambda>_. 0) demo_root = {demo_root}" "pte_val (\<lambda>_. 0) demo_root va = 0"
proof -
  have t: "tnode (\<lambda>_. 0) demo_root ps = (if ps = [] then Some demo_root else None)" for ps
    by (cases ps) (simp_all add: zero_entry)
  then show "path ps \<Longrightarrow> tnode (\<lambda>_. 0) demo_root ps = (if ps = [] then Some demo_root else None)" by simp
  show tb: "tables (\<lambda>_. 0) demo_root = {demo_root}" by (auto simp: tables_def t intro: exI [of _ "[]"])
  show "pt_wf boot_symbols (\<lambda>_. 0) demo_root" unfolding pt_wf_def tb by (auto simp: t demo_freeable split: if_splits)
  show "pte_val (\<lambda>_. 0) demo_root va = 0" unfolding pte_val_def t by (simp add: va_path_def)
qed

lemma demo_step1:
  "tnode demo_m1 demo_root [0] = Some demo_l1" "pt_wf boot_symbols demo_m1 demo_root"
  "tables demo_m1 demo_root = {demo_root, demo_l1}" "pte_val demo_m1 demo_root va = 0"
  "tnode demo_m1 demo_root [0, 0] = None"
proof -
  have p: "path ([] @ [0])" "path [0]" "path [0, 0]" by (simp_all add: path_def)
  have f: "demo_l1 \<notin> tables (\<lambda>_. 0) demo_root" unfolding demo_m0(3) by (simp add: demo_addr_defs)
  note n = new_table [OF demo_m0(2) p(1) _ zero_entry demo_freeable(2) f, of demo_root, simplified, folded demo_m1_def]
  have m1: "demo_m1 = store64 demo_root (PA2PTE demo_l1 OR PTE_V) (memset demo_l1 0 4096 (\<lambda>_. 0))" by (simp add: demo_m1_def)
  show "tnode demo_m1 demo_root [0] = Some demo_l1" "pt_wf boot_symbols demo_m1 demo_root"
    "tables demo_m1 demo_root = {demo_root, demo_l1}" "pte_val demo_m1 demo_root va = 0"
    "tnode demo_m1 demo_root [0, 0] = None"
    using n [folded m1] p demo_m0 by (auto simp del: tnode.simps)
qed

lemma demo_step2:
  "tnode demo_m2 demo_root [0, 0] = Some demo_l0" "pt_wf boot_symbols demo_m2 demo_root"
  "tables demo_m2 demo_root = {demo_root, demo_l1, demo_l0}" "pte_val demo_m2 demo_root va = 0"
proof -
  have p: "path ([0] @ [0])" "path [0, 0]" by (simp_all add: path_def)
  have f: "demo_l0 \<notin> tables demo_m1 demo_root" unfolding demo_step1(3) by (simp add: demo_addr_defs)
  have e: "entry demo_m1 demo_l1 0 = None"
    using demo_step1(5) demo_step1(1) tnode_snoc [of demo_m1 demo_root "[0]" 0] by simp
  note n = new_table [OF demo_step1(2) p(1) demo_step1(1) e demo_freeable(3) f]
  show "tnode demo_m2 demo_root [0, 0] = Some demo_l0" "pt_wf boot_symbols demo_m2 demo_root"
    "tables demo_m2 demo_root = {demo_root, demo_l1, demo_l0}" "pte_val demo_m2 demo_root va = 0"
    using n [folded demo_m2_def] p demo_step1 by (auto simp del: tnode.simps)
qed

lemma demo_as_wf: "as_wf boot_symbols demo_mem demo_root"
  and demo_upage: "upage demo_mem demo_root va = (if pageno va = 0 then demo_page else 0)"
proof -
  have z: "(0 :: u64) < MAXVA" by (simp add: MAXVA_def)
  have t: "tnode demo_m2 demo_root (va_path 0) = Some demo_l0" using demo_step2(1) by (simp add: va_path_0)
  note l = leaf_store [OF demo_step2(2) t z, where v = demo_pte, folded demo_mem_def]
  have pte: "demo_pte AND PTE_V \<noteq> 0" "demo_pte AND PTE_U \<noteq> 0" "PTE2PA demo_pte = demo_page"
    by (simp_all add: demo_pte_def demo_page_def PA2PTE_def PTE2PA_def PTE_V_def PTE_R_def PTE_W_def PTE_U_def)
  have u: "upage demo_mem demo_root va = (if pageno va = 0 then demo_page else 0)" for va
    using l(4) [of va] demo_step2(4) pte pageno_MAXVA [of va]
    by (auto simp: upage_def Let_def not_less pageno_def [of 0])
  show "upage demo_mem demo_root va = (if pageno va = 0 then demo_page else 0)" by (rule u)
  have "pageno demo_page \<notin> pageno ` tables demo_mem demo_root"
    unfolding l(3) demo_step2(3) by (simp add: pageno_def demo_addr_defs)
  moreover have "demo_page \<noteq> 0" by (simp add: demo_page_def)
  ultimately show "as_wf boot_symbols demo_mem demo_root"
    unfolding as_wf_def u using l(2) by (auto simp: boot_symbols_def split: if_splits)
qed

section \<open>Properties\<close>

definition demo_vm :: vm_state where
  "demo_vm = \<lparr>hw = boot_hart, mem = demo_mem, sym = boot_symbols, freelist = 0,
     kernel_pagetable = 0, satp = (\<lambda>_. 0)\<rparr>"

lemma demo_vm_simps [simp]:
  "hw demo_vm = boot_hart" "mem demo_vm = demo_mem" "sym demo_vm = boot_symbols" "freelist demo_vm = 0"
  by (simp_all add: demo_vm_def)

lemma demo_vm_inv: "vm_inv demo_vm demo_root []"
  using demo_as_wf by (simp add: vm_inv_def pool_def kmem_ok_def as_wf_def)

text \<open>C10: \<open>mappages\<close> enters exactly the mappings asked for. On a well-formed table, for a range below
  \<open>MAXVA\<close> with no page mapped yet, it returns; the table stays a tree of allocator pages disjoint
  from the free list and only table pages are written; on result 0 every page of the range has an
  entry for the corresponding physical page and all other entries are as before, and on result -1
  the allocator is out of pages and no entry outside the range has changed.\<close>

theorem mappages_correct:
  assumes "vm_inv s pt xs" and "sz \<noteq> 0" and "unat va + unat sz \<le> unat MAXVA"
    and "\<forall>v < MAXVA. pageno va \<le> pageno v \<and> pageno v \<le> pageno (va + sz - 1) \<longrightarrow>
      pte_val (mem s) pt v AND PTE_V = 0"
  shows "runs (mappages pt va sz pa perm) s (\<lambda>r t. \<exists>ys. vm_inv t pt ys \<and>
    agree (pageno ` tables (mem t) pt) (mem s) (mem t) \<and>
    (r = 0 \<and> (\<forall>v < MAXVA. pte_val (mem t) pt v =
       (if pageno va \<le> pageno v \<and> pageno v \<le> pageno (va + sz - 1)
        then PA2PTE (pa + of_nat (pageno v - pageno va) * PGSIZE) OR perm OR PTE_V
        else pte_val (mem s) pt v)) \<or>
     r = -1 \<and> ys = [] \<and> (\<forall>v < MAXVA. pageno v < pageno va \<or> pageno (va + sz - 1) < pageno v \<longrightarrow>
       pte_val (mem t) pt v = pte_val (mem s) pt v)))"
  using runs_mappages [OF assms(1,2) assms(3) [unfolded MAXVA_unat] assms(4), of pa perm]
proof (rule runs_mono)
  fix r t assume "mappages_post pt s xs (pageno va) (Suc (pageno (va + sz - 1))) pa perm r t"
  then obtain ys where e: "pt_ext pt s xs t ys"
    and r: "r = 0 \<and> mapped s t pt (pageno va) (Suc (pageno (va + sz - 1))) pa perm \<or>
      r = -1 \<and> ys = [] \<and> (\<exists>k. pageno va \<le> k \<and> k < Suc (pageno (va + sz - 1)) \<and> mapped s t pt (pageno va) k pa perm)"
    unfolding mappages_post_def by blast
  have "vm_inv t pt ys" "agree (pageno ` tables (mem t) pt) (mem s) (mem t)" using e unfolding pt_ext_def by blast+
  then show "\<exists>ys. vm_inv t pt ys \<and> agree (pageno ` tables (mem t) pt) (mem s) (mem t) \<and>
    (r = 0 \<and> (\<forall>v < MAXVA. pte_val (mem t) pt v =
       (if pageno va \<le> pageno v \<and> pageno v \<le> pageno (va + sz - 1)
        then PA2PTE (pa + of_nat (pageno v - pageno va) * PGSIZE) OR perm OR PTE_V
        else pte_val (mem s) pt v)) \<or>
     r = -1 \<and> ys = [] \<and> (\<forall>v < MAXVA. pageno v < pageno va \<or> pageno (va + sz - 1) < pageno v \<longrightarrow>
       pte_val (mem t) pt v = pte_val (mem s) pt v))"
    using r by (intro exI [of _ ys]) (auto simp: mapped_def less_Suc_eq_le)
qed

theorem mappages_correct_witness:
  "runs (mappages demo_root 0x1000 0x1000 0x80104000 PTE_R) demo_vm (\<lambda>r t. \<exists>ys. vm_inv t demo_root ys)"
proof -
  have d: "pte_val demo_mem demo_root v AND PTE_V = 0" if "v < MAXVA" "pageno v = 1" for v
  proof -
    have z: "(0 :: u64) < MAXVA" by (simp add: MAXVA_def)
    have t: "tnode demo_m2 demo_root (va_path 0) = Some demo_l0" using demo_step2(1) by (simp only: va_path_0)
    show ?thesis
      using leaf_store(4) [OF demo_step2(2) t z that(1), where v = demo_pte, folded demo_mem_def] that demo_step2(4)
      by (simp add: pageno_def)
  qed
  have "runs (mappages demo_root 0x1000 0x1000 0x80104000 PTE_R) demo_vm (\<lambda>r t. \<exists>ys. vm_inv t demo_root ys \<and>
    agree (pageno ` tables (mem t) demo_root) (mem demo_vm) (mem t) \<and>
    (r = 0 \<and> (\<forall>v < MAXVA. pte_val (mem t) demo_root v =
       (if pageno 0x1000 \<le> pageno v \<and> pageno v \<le> pageno (0x1000 + 0x1000 - 1)
        then PA2PTE (0x80104000 + of_nat (pageno v - pageno 0x1000) * PGSIZE) OR PTE_R OR PTE_V
        else pte_val (mem demo_vm) demo_root v)) \<or>
     r = -1 \<and> ys = [] \<and> (\<forall>v < MAXVA. pageno v < pageno 0x1000 \<or> pageno (0x1000 + 0x1000 - 1) < pageno v \<longrightarrow>
       pte_val (mem t) demo_root v = pte_val (mem demo_vm) demo_root v)))"
  proof (rule mappages_correct [OF demo_vm_inv])
    show "\<forall>v < MAXVA. pageno 0x1000 \<le> pageno v \<and> pageno v \<le> pageno (0x1000 + 0x1000 - 1) \<longrightarrow>
        pte_val (mem demo_vm) demo_root v AND PTE_V = 0"
      using d by (simp add: pageno_def [of "0x1000"] pageno_def [of "0x1fff"])
  qed (simp_all add: MAXVA_unat)
  then show ?thesis by (rule runs_mono) blast
qed

text \<open>C5: what \<open>copyout\<close> stores is what \<open>copyin\<close> reads back. On an address space in order \<open>copyout\<close>
  always returns, with 0 if and only if every address of the range is mapped for the user; then
  \<open>copyin\<close> of the same range returns 0 and the same bytes and changes nothing.\<close>

theorem copyout_copyin_roundtrip:
  assumes "as_wf (sym s) (mem s) pt"
  shows "runs (copyout pt va bs) s (\<lambda>r t. (r = 0 \<or> r = -1) \<and>
    (r = 0 \<longleftrightarrow> (\<forall>i < length bs. upage (mem s) pt (va + of_nat i) \<noteq> 0)) \<and>
    (r = 0 \<longrightarrow> runs (copyin pt va (length bs)) t (\<lambda>(q, cs) u. q = 0 \<and> cs = bs \<and> u = t)))"
  using runs_copyout [OF assms, of va bs]
proof (rule runs_mono)
  fix r t assume "copyout_post pt va bs s r t"
  then obtain k where k: "accessible (mem s) pt va (length bs) k" and r: "r = (if k = length bs then 0 else -1)"
    and c: "copied s t pt va (take k bs)" by (auto simp: copyout_post_def)
  have ag: "agree (pageno ` {p. \<exists>va. upage (mem s) pt va = p \<and> p \<noteq> 0}) (mem s) (mem t)" and y: "sym t = sym s"
    using c by (auto simp: copied_def) (metis kbase.select_convs(3) kbase.surjective kbase.update_convs(2))
  have up: "upage (mem t) pt v = upage (mem s) pt v" for v by (rule as_wf_agree(2) [OF assms ag])
  have wf: "as_wf (sym t) (mem t) pt" using as_wf_agree(1) [OF assms ag] y by simp
  have "runs (copyin pt va (length bs)) t (\<lambda>(q, cs) u. q = 0 \<and> cs = bs \<and> u = t)" if "r = 0"
  proof -
    have kl: "k = length bs" using that r by (simp split: if_splits)
    have a: "accessible (mem t) pt va (length bs) (length bs)" using k kl accessible_cong [OF up] by simp
    have "ubytes (mem t) pt va (length bs) = bs"
    proof (rule nth_equalityI)
      fix i assume i: "i < length (ubytes (mem t) pt va (length bs))"
      then have "i < 2 ^ 64" using accessible_bound [OF k] kl by simp
      then have "unat (of_nat i :: u64) = i" by (simp add: unat_of_nat)
      moreover have "upage (mem s) pt (va + of_nat i) \<noteq> 0" using k kl i by (simp add: accessible_def)
      ultimately show "ubytes (mem t) pt va (length bs) ! i = bs ! i"
        using c i kl by (simp add: ubytes_def copied_def)
    qed simp
    then show ?thesis
      using runs_copyin [of t pt va "length bs"] wf accessible_unique [OF _ a]
      by (auto simp: as_wf_def copyin_post_def elim!: runs_mono)
  qed
  moreover have "k = length bs \<longleftrightarrow> (\<forall>i < length bs. upage (mem s) pt (va + of_nat i) \<noteq> 0)"
    using k unfolding accessible_def by (metis le_less)
  ultimately show "(r = 0 \<or> r = -1) \<and> (r = 0 \<longleftrightarrow> (\<forall>i < length bs. upage (mem s) pt (va + of_nat i) \<noteq> 0)) \<and>
      (r = 0 \<longrightarrow> runs (copyin pt va (length bs)) t (\<lambda>(q, cs) u. q = 0 \<and> cs = bs \<and> u = t))"
    using r by auto
qed

theorem copyout_copyin_roundtrip_witness:
  "as_wf (sym demo_vm) (mem demo_vm) demo_root \<and>
   runs (copyout demo_root 0xffe [1, 2]) demo_vm (\<lambda>r t. r = 0 \<and>
     runs (copyin demo_root 0xffe 2) t (\<lambda>(q, cs) u. q = 0 \<and> cs = [1, 2] \<and> u = t)) \<and>
   runs (copyout demo_root 0xffe [1, 2, 3]) demo_vm (\<lambda>r t. r = -1)"
proof -
  have a: "as_wf (sym demo_vm) (mem demo_vm) demo_root" using demo_as_wf by simp
  have p: "demo_page \<noteq> 0" by (simp add: demo_page_def)
  have two: "\<forall>i < 2. upage (mem demo_vm) demo_root (0xffe + of_nat i) \<noteq> 0"
    using p by (auto simp: demo_upage pageno_def less_2_cases_iff)
  have three: "upage (mem demo_vm) demo_root (0xffe + of_nat 2) = 0" by (simp add: demo_upage pageno_def)
  have "runs (copyout demo_root 0xffe [1, 2]) demo_vm (\<lambda>r t. r = 0 \<and>
     runs (copyin demo_root 0xffe 2) t (\<lambda>(q, cs) u. q = 0 \<and> cs = [1, 2] \<and> u = t))"
    using copyout_copyin_roundtrip [OF a, of "0xffe" "[1, 2]"] two
    by (auto simp: numeral_2_eq_2 elim!: runs_mono)
  moreover have "\<not> (\<forall>i < length [1, 2, 3 :: u8]. upage (mem demo_vm) demo_root (0xffe + of_nat i) \<noteq> 0)"
  proof
    assume "\<forall>i < length [1, 2, 3 :: u8]. upage (mem demo_vm) demo_root (0xffe + of_nat i) \<noteq> 0"
    from this [rule_format, of 2] three show False by simp
  qed
  then have "runs (copyout demo_root 0xffe [1, 2, 3]) demo_vm (\<lambda>r t. r = -1)"
    by (intro runs_mono [OF copyout_copyin_roundtrip [OF a, of "0xffe" "[1, 2, 3]"]]) blast
  ultimately show ?thesis using a by blast
qed

text \<open>C11: a user copy cannot reach outside the process. On an address space in order \<open>copyout\<close> writes
  only to pages the table maps for the user: the mappings stay the same, all other physical memory
  and all user bytes outside the range keep their contents, and nothing but memory changes.\<close>

theorem copyout_confined:
  assumes "as_wf (sym s) (mem s) pt"
  shows "runs (copyout pt va bs) s (\<lambda>r t. t = s\<lparr>mem := mem t\<rparr> \<and>
    (\<forall>v. upage (mem t) pt v = upage (mem s) pt v) \<and>
    (\<forall>x. pageno x \<notin> pageno ` {p. \<exists>v. upage (mem s) pt v = p \<and> p \<noteq> 0} \<longrightarrow> mem t x = mem s x) \<and>
    (\<forall>v. upage (mem s) pt v \<noteq> 0 \<and> length bs \<le> unat (v - va) \<longrightarrow> ubyte (mem t) pt v = ubyte (mem s) pt v))"
  using runs_copyout [OF assms, of va bs]
proof (rule runs_mono)
  fix r t assume "copyout_post pt va bs s r t"
  then obtain k where c: "copied s t pt va (take k bs)" by (auto simp: copyout_post_def)
  then have ag: "agree (pageno ` {p. \<exists>va. upage (mem s) pt va = p \<and> p \<noteq> 0}) (mem s) (mem t)"
    by (simp add: copied_def)
  have "\<forall>v. upage (mem t) pt v = upage (mem s) pt v" using as_wf_agree(2) [OF assms ag] by blast
  then show "t = s\<lparr>mem := mem t\<rparr> \<and> (\<forall>v. upage (mem t) pt v = upage (mem s) pt v) \<and>
    (\<forall>x. pageno x \<notin> pageno ` {p. \<exists>v. upage (mem s) pt v = p \<and> p \<noteq> 0} \<longrightarrow> mem t x = mem s x) \<and>
    (\<forall>v. upage (mem s) pt v \<noteq> 0 \<and> length bs \<le> unat (v - va) \<longrightarrow> ubyte (mem t) pt v = ubyte (mem s) pt v)"
    using c ag by (simp add: copied_def agree_def)
qed

theorem copyout_confined_witness:
  "as_wf (sym demo_vm) (mem demo_vm) demo_root \<and>
   runs (copyout demo_root 0xffe [1, 2]) demo_vm (\<lambda>r t. mem t demo_root = mem demo_vm demo_root)"
proof -
  have a: "as_wf (sym demo_vm) (mem demo_vm) demo_root" using demo_as_wf by simp
  have "pageno demo_root \<notin> pageno ` {p. \<exists>v. upage (mem demo_vm) demo_root v = p \<and> p \<noteq> 0}"
    by (auto simp: demo_upage split: if_splits) (simp add: pageno_def demo_addr_defs)
  then have "runs (copyout demo_root 0xffe [1, 2]) demo_vm (\<lambda>r t. mem t demo_root = mem demo_vm demo_root)"
    by (intro runs_mono [OF copyout_confined [OF a, of "0xffe" "[1, 2]"]]) (elim conjE allE [of _ demo_root], simp)
  then show ?thesis using a by simp
qed

lemma copyinstr_post_iff:
  "copyinstr_post m pt va mx r bs \<longleftrightarrow> (\<exists>k. accessible m pt va mx k \<and>
    (if 0 \<in> set (ubytes m pt va k)
     then r = 0 \<and> bs = takeWhile (\<lambda>b. b \<noteq> 0) (ubytes m pt va k) @ [0]
     else r = -1 \<and> bs = ubytes m pt va k))"
proof -
  have "length (takeWhile (\<lambda>b. b \<noteq> 0) (ubytes m pt va k)) < k \<longleftrightarrow> 0 \<in> set (ubytes m pt va k)" for k
    using takeWhile_short [of "\<lambda>b. b \<noteq> 0" "ubytes m pt va k"] by (simp only: length_ubytes) blast
  moreover have "takeWhile (\<lambda>b. b \<noteq> 0) (ubytes m pt va k) = ubytes m pt va k"
    if "0 \<notin> set (ubytes m pt va k)" for k using that by (auto simp: takeWhile_eq_all_conv)
  ultimately show ?thesis unfolding copyinstr_post_def Let_def by (metis (no_types, lifting))
qed

text \<open>C18: \<open>copyinstr\<close> returns for every pointer a user passes, however the string lies in memory: it
  copies the bytes up to and including the first NUL and returns 0 if there is one among the first
  \<open>mx\<close> bytes before the first unmapped address, and returns -1 otherwise; it changes nothing.\<close>

theorem copyinstr_correct:
  assumes "0 < sym_end (sym s)" and "pt_wf (sym s) (mem s) pt"
  shows "runs (copyinstr pt va mx) s (\<lambda>(r, bs) t. t = s \<and>
    (\<exists>k. accessible (mem s) pt va mx k \<and>
      (if 0 \<in> set (ubytes (mem s) pt va k)
       then r = 0 \<and> bs = takeWhile (\<lambda>b. b \<noteq> 0) (ubytes (mem s) pt va k) @ [0]
       else r = -1 \<and> bs = ubytes (mem s) pt va k)))"
  using runs_copyinstr [OF assms] unfolding copyinstr_post_iff .

theorem copyinstr_correct_witness:
  "0 < sym_end (sym demo_vm) \<and> pt_wf (sym demo_vm) (mem demo_vm) demo_root \<and>
   runs (copyinstr demo_root 0x5000 128) demo_vm (\<lambda>(r, bs) t. r = -1 \<and> bs = [])"
proof -
  have w: "0 < sym_end (sym demo_vm)" "pt_wf (sym demo_vm) (mem demo_vm) demo_root"
    using demo_as_wf by (simp_all add: as_wf_def)
  have "accessible (mem demo_vm) demo_root 0x5000 128 0"
    by (intro accessible_stop) (simp_all add: demo_upage pageno_def)
  then show ?thesis
    using w copyinstr_correct [OF w, of "0x5000" 128] accessible_unique [of "mem demo_vm" demo_root "0x5000" 128 _ 0]
    by (auto simp: ubytes_def elim!: runs_mono)
qed

end
