(* ===== verification/Xv6_Proc.thy ===== *)
theory Xv6_Proc
  imports Xv6_Usermem
begin

text \<open>
  kernel/proc.c, first part: the process table, allocation and release of processes, their page
  tables, the scheduler, sleeping, waking and killing, and the copies that take either a user or a
  kernel address. \<open>fork\<close>, \<open>exit\<close>, \<open>wait\<close>, \<open>forkn\<close> and \<open>waitall\<close> use the file system and follow in
  a theory of their own.

  A \<open>struct proc *\<close> is an index into \<open>procs\<close>. Trapframes live in their pages of \<open>mem\<close>, a field at
  its offset. A switch to another kernel thread is the end of a run: \<open>sched\<close> stops with
  \<open>Block OnSched\<close>, \<open>sleep\<close> with \<open>Block (OnChan ch)\<close>, and what follows the switch is a function of its
  own (\<open>sched_return\<close>, \<open>sleep_return\<close>); in the scheduler the switch is the result of
  \<open>scheduler_scan\<close> and what follows it is \<open>scheduler_back\<close>.
\<close>

section \<open>State\<close>

datatype procstate = UNUSED | USED | SLEEPING | RUNNABLE | RUNNING | ZOMBIE

record kcontext =
  ctx_ra :: u64
  ctx_sp :: u64
  ctx_s :: "u64 list"

record proc =
  p_state :: procstate
  p_chan :: "chan option"
  p_killed :: int
  p_xstate :: int
  p_pid :: int
  p_parent :: "nat option"
  p_kstack :: u64
  p_sz :: u64
  p_pagetable :: u64
  p_trapframe :: u64
  p_context :: kcontext
  p_ofile :: "nat \<Rightarrow> nat option"
  p_cwd :: "nat option"
  p_name :: "nat \<Rightarrow> u8"
  p_exit_msg :: "nat \<Rightarrow> u8"

record proc_table = vm_state +
  procs :: "nat \<Rightarrow> proc"
  nextpid :: int
  initproc :: "nat option"

definition NOFILE :: nat where
  "NOFILE = 16"

definition set_proc :: "nat \<Rightarrow> (proc \<Rightarrow> proc) \<Rightarrow> (unit, 'z proc_table_scheme) M" where
  "set_proc i f = modify (\<lambda>s. s\<lparr>procs := (procs s)(i := f (procs s i))\<rparr>)"

definition get_proc :: "nat \<Rightarrow> (proc, 'z proc_table_scheme) M" where
  "get_proc i = gets (\<lambda>s. procs s i)"

text \<open>Offsets of the trapframe fields the C code uses.\<close>

definition TF_kernel_satp :: u64 where "TF_kernel_satp = 0"
definition TF_kernel_sp :: u64 where "TF_kernel_sp = 8"
definition TF_kernel_trap :: u64 where "TF_kernel_trap = 16"
definition TF_epc :: u64 where "TF_epc = 24"
definition TF_kernel_hartid :: u64 where "TF_kernel_hartid = 32"
definition TF_sp :: u64 where "TF_sp = 48"
definition TF_a0 :: u64 where "TF_a0 = 112"
definition TF_a1 :: u64 where "TF_a1 = 120"
definition TF_a7 :: u64 where "TF_a7 = 168"
definition TF_SIZE :: nat where "TF_SIZE = 288"

definition tf_load :: "nat \<Rightarrow> u64 \<Rightarrow> (u64, 'z proc_table_scheme) M" where
  "tf_load p off =
     kbind (get_proc p) (\<lambda>q. kthen (nonnull (p_trapframe q)) (
     gets (\<lambda>s. load64 (mem s) (p_trapframe q + off))))"

definition tf_store :: "nat \<Rightarrow> u64 \<Rightarrow> u64 \<Rightarrow> (unit, 'z proc_table_scheme) M" where
  "tf_store p off v =
     kbind (get_proc p) (\<lambda>q. kthen (nonnull (p_trapframe q)) (
     set_mem (store64 (p_trapframe q + off) v)))"

section \<open>Initialisation and the current process\<close>

definition procinit :: "(unit, 'z proc_table_scheme) M" where
  "procinit =
     kthen (initlock LkPid ''nextpid'') (
     kthen (initlock LkWait ''wait_lock'') (
     kforall [0..<NPROC] (\<lambda>p.
       kthen (initlock (LkProc p) ''proc'') (
       set_proc p (\<lambda>q. q\<lparr>p_state := UNUSED, p_kstack := KSTACK p\<rparr>)))))"

definition myproc :: "(nat option, 'z kbase_scheme) M" where
  "myproc =
     kthen push_off (
     kbind mycpu (\<lambda>c.
     kbind (gets (\<lambda>s. c_proc (cpus (hw s) c))) (\<lambda>p.
     kthen pop_off
     (ret p))))"

text \<open>A use of \<open>myproc()\<close> whose result is dereferenced.\<close>

definition curproc :: "(nat, 'z kbase_scheme) M" where
  "curproc = kbind myproc (\<lambda>p. case p of None \<Rightarrow> fault ''null process'' | Some i \<Rightarrow> ret i)"

definition allocpid :: "(int, 'z proc_table_scheme) M" where
  "allocpid =
     kthen (acquire LkPid) (
     kbind (gets nextpid) (\<lambda>pid.
     kthen (modify (\<lambda>s. s\<lparr>nextpid := nextpid s + 1\<rparr>)) (
     kthen (release LkPid)
     (ret pid))))"

section \<open>Page tables of processes\<close>

definition proc_pagetable :: "nat \<Rightarrow> (u64, 'z proc_table_scheme) M" where
  "proc_pagetable p =
     kbind uvmcreate (\<lambda>pagetable.
     if pagetable = 0 then ret 0 else
     kbind (gets (\<lambda>s. sym_trampoline (sym s))) (\<lambda>trampoline.
     kbind (mappages pagetable TRAMPOLINE PGSIZE trampoline (PTE_R OR PTE_X)) (\<lambda>r.
     if r < 0 then kthen (uvmfree pagetable 0) (ret 0) else
     kbind (get_proc p) (\<lambda>q.
     kbind (mappages pagetable TRAPFRAME PGSIZE (p_trapframe q) (PTE_R OR PTE_W)) (\<lambda>r.
     if r < 0 then
       kthen (uvmunmap pagetable TRAMPOLINE 1 False) (
       kthen (uvmfree pagetable 0)
       (ret 0))
     else ret pagetable)))))"

definition proc_freepagetable :: "u64 \<Rightarrow> u64 \<Rightarrow> (unit, 'z proc_table_scheme) M" where
  "proc_freepagetable pagetable sz =
     kthen (uvmunmap pagetable TRAMPOLINE 1 False) (
     kthen (uvmunmap pagetable TRAPFRAME 1 False)
     (uvmfree pagetable sz))"

section \<open>Allocation and release\<close>

definition freeproc :: "nat \<Rightarrow> (unit, 'z proc_table_scheme) M" where
  "freeproc p =
     kbind (get_proc p) (\<lambda>q.
     kthen (kwhen (p_trapframe q \<noteq> 0) (kfree (p_trapframe q))) (
     kthen (set_proc p (\<lambda>q. q\<lparr>p_trapframe := 0\<rparr>)) (
     kthen (kwhen (p_pagetable q \<noteq> 0) (proc_freepagetable (p_pagetable q) (p_sz q))) (
     set_proc p (\<lambda>q. q\<lparr>p_pagetable := 0, p_sz := 0, p_pid := 0, p_parent := None,
       p_name := (p_name q)(0 := 0), p_chan := None, p_killed := 0, p_xstate := 0, p_state := UNUSED\<rparr>)))))"

definition allocproc_find :: "(nat option, 'z proc_table_scheme) M" where
  "allocproc_find =
     kfor [0..<NPROC] (\<lambda>p.
       kthen (acquire (LkProc p)) (
       kbind (get_proc p) (\<lambda>q.
       if p_state q = UNUSED then ret (Some p)
       else kthen (release (LkProc p)) (ret None))))"

definition allocproc_fail :: "nat \<Rightarrow> (nat option, 'z proc_table_scheme) M" where
  "allocproc_fail p = kthen (freeproc p) (kthen (release (LkProc p)) (ret None))"

definition allocproc :: "(nat option, 'z proc_table_scheme) M" where
  "allocproc =
     kbind allocproc_find (\<lambda>found. case found of None \<Rightarrow> ret None | Some p \<Rightarrow>
     kbind allocpid (\<lambda>pid.
     kthen (set_proc p (\<lambda>q. q\<lparr>p_pid := pid, p_state := USED\<rparr>)) (
     kbind kalloc (\<lambda>tf.
     kthen (set_proc p (\<lambda>q. q\<lparr>p_trapframe := tf\<rparr>)) (
     if tf = 0 then allocproc_fail p else
     kbind (proc_pagetable p) (\<lambda>pt.
     kthen (set_proc p (\<lambda>q. q\<lparr>p_pagetable := pt\<rparr>)) (
     if pt = 0 then allocproc_fail p else
     kbind (gets (\<lambda>s. sym_forkret (sym s))) (\<lambda>forkret.
     kthen (set_proc p (\<lambda>q. q\<lparr>p_context := \<lparr>ctx_ra = forkret, ctx_sp = p_kstack q + PGSIZE,
       ctx_s = replicate 12 0\<rparr>\<rparr>))
     (ret (Some p))))))))))"

definition growproc :: "int \<Rightarrow> (int, 'z proc_table_scheme) M" where
  "growproc n =
     kbind curproc (\<lambda>p.
     kbind (get_proc p) (\<lambda>q.
     if n > 0 then
       kbind (uvmalloc (p_pagetable q) (p_sz q) (p_sz q + word_of_int n) PTE_W) (\<lambda>sz.
       if sz = 0 then ret (-1)
       else kthen (set_proc p (\<lambda>q. q\<lparr>p_sz := sz\<rparr>)) (ret 0))
     else if n < 0 then
       kbind (uvmdealloc (p_pagetable q) (p_sz q) (p_sz q + word_of_int n)) (\<lambda>sz.
       kthen (set_proc p (\<lambda>q. q\<lparr>p_sz := sz\<rparr>)) (ret 0))
     else kthen (set_proc p (\<lambda>q'. q'\<lparr>p_sz := p_sz q\<rparr>)) (ret 0)))"

section \<open>Scheduling\<close>

definition scheduler_init :: "(unit, 'z kbase_scheme) M" where
  "scheduler_init = kbind mycpu (\<lambda>c. set_cpu c (\<lambda>cp. cp\<lparr>c_proc := None\<rparr>))"

text \<open>The inner loop from slot \<open>first\<close> on, up to the next switch, to the process in the result.\<close>

definition scheduler_take :: "nat \<Rightarrow> (nat option, 'z proc_table_scheme) M" where
  "scheduler_take p =
     kthen (acquire (LkProc p)) (
     kbind (get_proc p) (\<lambda>q.
     if p_state q = RUNNABLE then
       kthen (set_proc p (\<lambda>q. q\<lparr>p_state := RUNNING\<rparr>)) (
       kbind mycpu (\<lambda>c.
       kthen (set_cpu c (\<lambda>cp. cp\<lparr>c_proc := Some p\<rparr>))
       (ret (Some p))))
     else kthen (release (LkProc p)) (ret None)))"

definition scheduler_scan :: "nat \<Rightarrow> (nat option, 'z proc_table_scheme) M" where
  "scheduler_scan first = kfor [first..<NPROC] scheduler_take"

definition scheduler_round :: "(nat option, 'z proc_table_scheme) M" where
  "scheduler_round = kthen intr_on (scheduler_scan 0)"

text \<open>After the switch back from \<open>p\<close>, up to the next one.\<close>

definition scheduler_leave :: "nat \<Rightarrow> (unit, 'z proc_table_scheme) M" where
  "scheduler_leave p =
     kbind mycpu (\<lambda>c.
     kthen (set_cpu c (\<lambda>cp. cp\<lparr>c_proc := None\<rparr>))
     (release (LkProc p)))"

definition scheduler_back :: "nat \<Rightarrow> (nat option, 'z proc_table_scheme) M" where
  "scheduler_back p = kthen (scheduler_leave p) (scheduler_scan (Suc p))"

text \<open>\<open>sched\<close> up to the switch; the wait reason records who called it.\<close>

definition sched :: "wait_for \<Rightarrow> ('a, 'z proc_table_scheme) M" where
  "sched w =
     kbind curproc (\<lambda>p.
     kbind (holding (LkProc p)) (\<lambda>h.
     if \<not> h then panic ''sched p->lock'' else
     kbind mycpu (\<lambda>c.
     kbind (gets (\<lambda>s. cpus (hw s) c)) (\<lambda>cp.
     if noff cp \<noteq> 1 then panic ''sched locks'' else
     kbind (get_proc p) (\<lambda>q.
     if p_state q = RUNNING then panic ''sched running'' else
     kbind intr_get (\<lambda>i.
     if i then panic ''sched interruptible'' else
     block w))))))"

definition sched_return :: "bool \<Rightarrow> (unit, 'z kbase_scheme) M" where
  "sched_return saved = kbind mycpu (\<lambda>c. set_cpu c (\<lambda>cp. cp\<lparr>intena := saved\<rparr>))"

definition yield :: "(unit, 'z proc_table_scheme) M" where
  "yield =
     kbind curproc (\<lambda>p.
     kthen (acquire (LkProc p)) (
     kthen (set_proc p (\<lambda>q. q\<lparr>p_state := RUNNABLE\<rparr>))
     (sched OnSched)))"

definition yield_return :: "nat \<Rightarrow> bool \<Rightarrow> (unit, 'z proc_table_scheme) M" where
  "yield_return p saved = kthen (sched_return saved) (release (LkProc p))"

definition sleep :: "chan \<Rightarrow> lockid \<Rightarrow> ('a, 'z proc_table_scheme) M" where
  "sleep ch lk =
     kbind curproc (\<lambda>p.
     kthen (acquire (LkProc p)) (
     kthen (release lk) (
     kthen (set_proc p (\<lambda>q. q\<lparr>p_chan := Some ch\<rparr>)) (
     kthen (set_proc p (\<lambda>q. q\<lparr>p_state := SLEEPING\<rparr>))
     (sched (OnChan ch))))))"

definition sleep_return :: "nat \<Rightarrow> lockid \<Rightarrow> bool \<Rightarrow> (unit, 'z proc_table_scheme) M" where
  "sleep_return p lk saved =
     kthen (sched_return saved) (
     kthen (set_proc p (\<lambda>q. q\<lparr>p_chan := None\<rparr>)) (
     kthen (release (LkProc p))
     (acquire lk)))"

definition wakeup :: "chan \<Rightarrow> (unit, 'z proc_table_scheme) M" where
  "wakeup ch =
     kforall [0..<NPROC] (\<lambda>p.
       kbind myproc (\<lambda>me.
       kwhen (Some p \<noteq> me) (
         kthen (acquire (LkProc p)) (
         kbind (get_proc p) (\<lambda>q.
         kthen (kwhen (p_state q = SLEEPING \<and> p_chan q = Some ch)
           (set_proc p (\<lambda>q. q\<lparr>p_state := RUNNABLE\<rparr>)))
         (release (LkProc p)))))))"

section \<open>Killing\<close>

definition kill :: "int \<Rightarrow> (int, 'z proc_table_scheme) M" where
  "kill pid =
     kbind (kfor [0..<NPROC] (\<lambda>p.
       kthen (acquire (LkProc p)) (
       kbind (get_proc p) (\<lambda>q.
       if p_pid q = pid then
         kthen (set_proc p (\<lambda>q. q\<lparr>p_killed := 1\<rparr>)) (
         kthen (kwhen (p_state q = SLEEPING) (set_proc p (\<lambda>q. q\<lparr>p_state := RUNNABLE\<rparr>))) (
         kthen (release (LkProc p))
         (ret (Some 0))))
       else kthen (release (LkProc p)) (ret None)))))
     (\<lambda>r. ret (case r of None \<Rightarrow> -1 | Some v \<Rightarrow> v))"

definition setkilled :: "nat \<Rightarrow> (unit, 'z proc_table_scheme) M" where
  "setkilled p =
     kthen (acquire (LkProc p)) (
     kthen (set_proc p (\<lambda>q. q\<lparr>p_killed := 1\<rparr>))
     (release (LkProc p)))"

definition killed :: "nat \<Rightarrow> (int, 'z proc_table_scheme) M" where
  "killed p =
     kthen (acquire (LkProc p)) (
     kbind (get_proc p) (\<lambda>q.
     kthen (release (LkProc p))
     (ret (p_killed q))))"

section \<open>Copies to and from either address space\<close>

text \<open>Where \<open>either_copyout\<close> stores: a user address (\<open>user_dst = 1\<close>), an address in \<open>mem\<close>, or a kernel
  object that is not in \<open>mem\<close>, whose new contents the caller keeps. Likewise for \<open>either_copyin\<close>.\<close>

datatype copy_dst = UserDst u64 | MemDst u64 | ObjDst

datatype copy_src = UserSrc u64 | MemSrc u64 | ObjSrc "u8 list"

definition either_copyout :: "copy_dst \<Rightarrow> u8 list \<Rightarrow> (int, 'z proc_table_scheme) M" where
  "either_copyout dst src = (case dst of
     UserDst va \<Rightarrow> kbind curproc (\<lambda>p. kbind (get_proc p) (\<lambda>q. copyout (p_pagetable q) va src))
   | MemDst a \<Rightarrow> kbind myproc (\<lambda>_. kthen (set_mem (write_bytes a src)) (ret 0))
   | ObjDst \<Rightarrow> kbind myproc (\<lambda>_. ret 0))"

definition either_copyin :: "copy_src \<Rightarrow> nat \<Rightarrow> (int \<times> u8 list, 'z proc_table_scheme) M" where
  "either_copyin src len = (case src of
     UserSrc va \<Rightarrow> kbind curproc (\<lambda>p. kbind (get_proc p) (\<lambda>q. copyin (p_pagetable q) va len))
   | MemSrc a \<Rightarrow> kbind myproc (\<lambda>_. gets (\<lambda>s. (0, read_bytes a len (mem s))))
   | ObjSrc bs \<Rightarrow> kbind myproc (\<lambda>_. ret (0, take len bs)))"

section \<open>Lemmas\<close>

lemma c_proc_hart [simp]:
  "c_proc (cur_cpu (pushed h)) = c_proc (cur_cpu h)" "c_proc (cur_cpu (acq lk h)) = c_proc (cur_cpu h)"
  by (simp_all add: pushed_def acq_def cur_cpu_def Let_def)

lemma myproc_app: "hart_ok (hw s) \<Longrightarrow> myproc s = Ok (c_proc (cur_cpu (hw s))) s"
proof -
  assume ok: "hart_ok (hw s)"
  have "runs myproc s (\<lambda>p t. p = c_proc (cur_cpu (hw s)) \<and> t = s)"
    using ok popped_pushed [OF ok] by (simp add: myproc_def mycpu_def cpuid_def flip: cur_cpu_def)
  then show ?thesis by (auto simp: runs_iff)
qed

lemma acquire_release_app:
  assumes "hart_ok (hw s)" "lock_idle (hw s) lk"
  shows "acquire lk s = Ok () (s\<lparr>hw := acq lk (hw s)\<rparr>)"
    "hw t = acq lk (hw s) \<Longrightarrow> release lk t = Ok () (t\<lparr>hw := hw s\<rparr>)"
proof -
  show "acquire lk s = Ok () (s\<lparr>hw := acq lk (hw s)\<rparr>)" using assms by (simp add: acquire_app)
  assume "hw t = acq lk (hw s)"
  then have "runs (release lk) t (\<lambda>_ u. u = t\<lparr>hw := hw s\<rparr>)" using assms by simp
  then show "release lk t = Ok () (t\<lparr>hw := hw s\<rparr>)" by (auto simp: runs_iff)
qed

lemma runs_eqI: "runs m s (\<lambda>x t. x = a \<and> t = b) \<Longrightarrow> m s = Ok a b"
  by (auto simp: runs_iff)

lemma runs_app: "m s = Ok a b \<Longrightarrow> runs m s P = P a b"
  by (simp add: runs_def)

lemma runs_myproc [simp]: "hart_ok (hw s) \<Longrightarrow> runs myproc s P = P (c_proc (cur_cpu (hw s))) s"
  by (simp add: runs_app [OF myproc_app])

lemma runs_curproc [simp]:
  "hart_ok (hw s) \<Longrightarrow> runs curproc s P = (case c_proc (cur_cpu (hw s)) of None \<Rightarrow> False | Some p \<Rightarrow> P p s)"
  by (cases "c_proc (cur_cpu (hw s))") (simp_all add: curproc_def)

lemma runs_set_proc [simp]: "runs (set_proc p f) s P = P () (s\<lparr>procs := (procs s)(p := f (procs s p))\<rparr>)"
  by (simp add: set_proc_def)

lemma runs_get_proc [simp]: "runs (get_proc p) s P = P (procs s p) s"
  by (simp add: get_proc_def)

lemma proc_upd_ident [simp]: "s\<lparr>procs := procs s\<rparr> = s" "s\<lparr>procs := (procs s)(p := procs s p)\<rparr> = s"
  by simp_all

text \<open>The process locks other than the current process's are free.\<close>

definition others_idle :: "hart \<Rightarrow> bool" where
  "others_idle h \<longleftrightarrow> hart_ok h \<and> (\<forall>p < NPROC. Some p \<noteq> c_proc (cur_cpu h) \<longrightarrow> lock_idle h (LkProc p))"

definition all_idle :: "hart \<Rightarrow> bool" where
  "all_idle h \<longleftrightarrow> hart_ok h \<and> (\<forall>p < NPROC. lock_idle h (LkProc p))"

lemma all_idle_others: "all_idle h \<Longrightarrow> others_idle h"
  by (simp add: all_idle_def others_idle_def)

text \<open>Applying \<open>g\<close> to the slots below \<open>n\<close>, one after the other.\<close>

lemma fold_procs:
  "fold (\<lambda>i s. s\<lparr>procs := (procs s)(i := g i (procs s i))\<rparr>) [0..<n] s =
     s\<lparr>procs := (\<lambda>i. if i < n then g i (procs s i) else procs s i)\<rparr>"
  by (induction n) (auto intro!: proc_table.equality ext)

definition woken :: "nat option \<Rightarrow> chan \<Rightarrow> nat \<Rightarrow> proc \<Rightarrow> proc" where
  "woken me ch i q =
     (if Some i \<noteq> me \<and> p_state q = SLEEPING \<and> p_chan q = Some ch then q\<lparr>p_state := RUNNABLE\<rparr> else q)"

definition wake_all :: "nat option \<Rightarrow> chan \<Rightarrow> (nat \<Rightarrow> proc) \<Rightarrow> nat \<Rightarrow> proc" where
  "wake_all me ch ps = (\<lambda>i. if i < NPROC then woken me ch i (ps i) else ps i)"

lemma wakeup_app:
  assumes "others_idle (hw s)"
  shows "wakeup ch s = Ok () (s\<lparr>procs := wake_all (c_proc (cur_cpu (hw s))) ch (procs s)\<rparr>)"
proof -
  let ?me = "c_proc (cur_cpu (hw s))"
  let ?f = "\<lambda>i t. t\<lparr>procs := (procs t)(i := woken ?me ch i (procs t i))\<rparr>"
  let ?body = "\<lambda>p. kbind myproc (\<lambda>me. kwhen (Some p \<noteq> me) (kthen (acquire (LkProc p)) (
    kbind (get_proc p) (\<lambda>q. kthen (kwhen (p_state q = SLEEPING \<and> p_chan q = Some ch)
      (set_proc p (\<lambda>q. q\<lparr>p_state := RUNNABLE\<rparr>))) (release (LkProc p))))))"
  have "kforall [0..<NPROC] ?body s = Ok () (fold ?f [0..<NPROC] s) \<and> hw (fold ?f [0..<NPROC] s) = hw s"
  proof (rule kforall_fold)
    fix i and t :: "'a proc_table_scheme" assume i: "i \<in> set [0..<NPROC]" and t: "hw t = hw s"
    have "runs (?body i) t (\<lambda>x u. x = () \<and> u = ?f i t)"
      using assms i t by (auto simp: others_idle_def woken_def intro!: proc_table.equality)
    from runs_eqI [OF this] show "?body i t = Ok () (?f i t) \<and> hw (?f i t) = hw s" using t by simp
  qed simp
  then show ?thesis by (simp add: wakeup_def fold_procs wake_all_def)
qed

text \<open>A table scan that locks each slot and leaves at the first slot \<open>k\<close> it looks for.\<close>

lemma kill_app:
  assumes "all_idle (hw s)"
  shows "kill pid s = (case find (\<lambda>p. p_pid (procs s p) = pid) [0..<NPROC] of
      None \<Rightarrow> Ok (-1) s
    | Some p \<Rightarrow> Ok 0 (s\<lparr>procs := (procs s)(p := (procs s p)\<lparr>p_killed := 1,
        p_state := (if p_state (procs s p) = SLEEPING then RUNNABLE else p_state (procs s p))\<rparr>)\<rparr>))"
proof -
  let ?body = "\<lambda>p. kthen (acquire (LkProc p)) (kbind (get_proc p) (\<lambda>q. if p_pid q = pid then
      kthen (set_proc p (\<lambda>q. q\<lparr>p_killed := 1\<rparr>)) (
      kthen (kwhen (p_state q = SLEEPING) (set_proc p (\<lambda>q. q\<lparr>p_state := RUNNABLE\<rparr>))) (
      kthen (release (LkProc p)) (ret (Some (0 :: int)))))
    else kthen (release (LkProc p)) (ret None)))"
  have skip: "?body i s = Ok None s" if "i < NPROC" "p_pid (procs s i) \<noteq> pid" for i
    by (rule runs_eqI) (use assms that in \<open>simp add: all_idle_def\<close>)
  have hit: "?body i s = Ok (Some 0) (s\<lparr>procs := (procs s)(i := (procs s i)\<lparr>p_killed := 1,
      p_state := (if p_state (procs s i) = SLEEPING then RUNNABLE else p_state (procs s i))\<rparr>)\<rparr>)"
    if "i < NPROC" "p_pid (procs s i) = pid" for i
    by (rule runs_eqI) (use assms that in \<open>auto simp: all_idle_def intro!: proc_table.equality ext\<close>)
  show ?thesis
  proof (cases "find (\<lambda>p. p_pid (procs s p) = pid) [0..<NPROC]")
    case None
    then have "kfor [0..<NPROC] ?body s = Ok None s"
      by (intro kfor_None skip) (auto simp: find_None_iff)
    then show ?thesis using None by (simp add: kill_def)
  next
    case (Some k)
    then have k: "k < NPROC" "p_pid (procs s k) = pid" "\<And>i. i < k \<Longrightarrow> p_pid (procs s i) \<noteq> pid"
      by (auto simp: find_Some_iff)
    have "kfor [0..<NPROC] ?body s = Ok (Some 0) (s\<lparr>procs := (procs s)(k := (procs s k)\<lparr>p_killed := 1,
        p_state := (if p_state (procs s k) = SLEEPING then RUNNABLE else p_state (procs s k))\<rparr>)\<rparr>)"
      by (rule kfor_first [where k = k]) (use k skip hit in auto)
    then show ?thesis using Some by (simp add: kill_def)
  qed
qed

lemma scheduler_scan_app:
  assumes "all_idle (hw s)" "first \<le> k" "k < NPROC" "p_state (procs s k) = RUNNABLE"
    and "\<And>i. first \<le> i \<Longrightarrow> i < k \<Longrightarrow> p_state (procs s i) \<noteq> RUNNABLE"
  shows "runs (scheduler_scan first) s (\<lambda>r t. r = Some k \<and> held (hw t) (LkProc k) \<and>
    c_proc (cur_cpu (hw t)) = Some k \<and> procs t = (procs s)(k := (procs s k)\<lparr>p_state := RUNNING\<rparr>) \<and>
    (\<forall>p < NPROC. p \<noteq> k \<longrightarrow> lock_idle (hw t) (LkProc p)))"
proof -
  have skip: "scheduler_take i s = Ok None s" if "i < NPROC" "p_state (procs s i) \<noteq> RUNNABLE" for i
    by (rule runs_eqI) (use assms(1) that in \<open>simp add: scheduler_take_def all_idle_def\<close>)
  let ?P = "\<lambda>r t. r = Some k \<and> held (hw t) (LkProc k) \<and> c_proc (cur_cpu (hw t)) = Some k \<and>
    procs t = (procs s)(k := (procs s k)\<lparr>p_state := RUNNING\<rparr>) \<and>
    (\<forall>p < NPROC. p \<noteq> k \<longrightarrow> lock_idle (hw t) (LkProc p))"
  have hit: "runs (scheduler_take k) s ?P"
    using assms(1,3,4) by (auto simp: scheduler_take_def all_idle_def mycpu_def cpuid_def set_cpu_def held_def cur_cpu_def lock_idle_def)
  then obtain t where t: "scheduler_take k s = Ok (Some k) t" "?P (Some k) t" unfolding runs_iff by auto
  have "kfor [first..<NPROC] scheduler_take s = Ok (Some k) t"
    by (rule kfor_first [where k = k]) (use assms(2,3,5) skip t(1) in auto)
  then show ?thesis using t(2) by (simp add: scheduler_scan_def runs_def)
qed

lemma curproc_app: "hart_ok (hw s) \<Longrightarrow> c_proc (cur_cpu (hw s)) = Some p \<Longrightarrow> curproc s = Ok p s"
  by (simp add: curproc_def myproc_app)

lemma release_app:
  "held (hw s) lk \<Longrightarrow> \<not> sie (hw s) \<Longrightarrow> 1 \<le> noff (cur_cpu (hw s)) \<Longrightarrow> release lk s = Ok () (s\<lparr>hw := rel lk (hw s)\<rparr>)"
  by (rule runs_eqI) (simp add: held_def)

lemma rel_simps [simp]:
  "tp (rel lk h) = tp h" "noff (cur_cpu (rel lk h)) = noff (cur_cpu h) - 1"
  "c_proc (cur_cpu (rel lk h)) = c_proc (cur_cpu h)"
  "locks (rel lk h) = (locks h)(lk := (locks h lk)\<lparr>lk_cpu := None, locked := 0\<rparr>)"
  by (simp_all add: rel_def popped_def cur_cpu_def)

lemma sie_rel: "noff (cur_cpu h) \<noteq> 1 \<Longrightarrow> sie (rel lk h) = sie h"
  by (simp add: rel_def popped_def cur_cpu_def sie_def)

lemma held_rel [simp]: "lock_idle (rel lk h) lk" "lk \<noteq> lk' \<Longrightarrow> held (rel lk h) lk' = held h lk'"
  by (simp_all add: lock_idle_def held_def)

lemma sched_app:
  assumes "hart_ok (hw s)" "c_proc (cur_cpu (hw s)) = Some p" "held (hw s) (LkProc p)"
    "noff (cur_cpu (hw s)) = 1" "p_state (procs s p) \<noteq> RUNNING"
  shows "sched w s = Block w s"
  using assms by (simp add: sched_def curproc_app holding_def mycpu_def cpuid_def held_def get_proc_def
      intr_get_def hart_ok_def flip: cur_cpu_def)

lemma sleep_app:
  assumes "hart_ok (hw s)" "c_proc (cur_cpu (hw s)) = Some p" "lock_idle (hw s) (LkProc p)"
    "held (hw s) lk" "lk \<noteq> LkProc p" "noff (cur_cpu (hw s)) = 1"
  shows "sleep ch lk s = Block (OnChan ch) (s\<lparr>hw := rel lk (acq (LkProc p) (hw s)),
    procs := (procs s)(p := (procs s p)\<lparr>p_chan := Some ch, p_state := SLEEPING\<rparr>)\<rparr>)"
proof -
  let ?h = "rel lk (acq (LkProc p) (hw s))"
  have "\<not> sie ?h" "noff (cur_cpu ?h) = 1" using assms(6) by (simp_all add: sie_rel)
  then have "hart_ok ?h" by (simp add: hart_ok_def)
  moreover have "held ?h (LkProc p)" using assms(5) by simp
  ultimately have "sched (OnChan ch) (s\<lparr>hw := ?h, procs := (procs s)(p := (procs s p)\<lparr>p_chan := Some ch,
      p_state := SLEEPING\<rparr>)\<rparr>) = Block (OnChan ch) (s\<lparr>hw := ?h, procs := (procs s)(p := (procs s p)\<lparr>p_chan := Some ch,
      p_state := SLEEPING\<rparr>)\<rparr>)"
    using assms(2) \<open>noff (cur_cpu ?h) = 1\<close> by (intro sched_app [where p = p]) simp_all
  then show ?thesis
    using assms by (simp add: sleep_def curproc_app acquire_app release_app set_proc_def)
qed

section \<open>The sleep and wakeup protocol\<close>

text \<open>A sleeper runs \<open>acquire(lk); while(!cond) sleep(ch, lk); cond = 0; release(lk)\<close> and a waker
  \<open>acquire(lk); cond = 1; wakeup(ch); release(lk)\<close> on another hart, again and again; the scheduler
  gives the sleeper the processor back. One rule per lock operation or store of \<open>sleep\<close>, \<open>wakeup\<close>,
  \<open>sched\<close> and \<open>scheduler\<close>, in any interleaving. \<open>Sasleep\<close>: the scheduler has released the sleeper's
  process lock.\<close>

datatype swner = Nobody | Sleeper | Waker

datatype spc = Sidle | Stest | Swantp | Sboth | Shavep | Smarked | Sasleep | Sback | Swantlk

datatype wpc = Widle | Wlocked | Wcond | Wlockp | Wdone

record sw_state =
  sw_cond :: bool
  sw_lk :: swner
  sw_plock :: swner
  sw_pst :: procstate
  sw_chan :: bool
  sw_spc :: spc
  sw_wpc :: wpc

definition sw_init :: sw_state where
  "sw_init = \<lparr>sw_cond = False, sw_lk = Nobody, sw_plock = Nobody, sw_pst = RUNNING, sw_chan = False,
     sw_spc = Sidle, sw_wpc = Widle\<rparr>"

inductive sw_step :: "sw_state \<Rightarrow> sw_state \<Rightarrow> bool" where
  s_acquire: "sw_spc s = Sidle \<Longrightarrow> sw_lk s = Nobody \<Longrightarrow> sw_step s (s\<lparr>sw_lk := Sleeper, sw_spc := Stest\<rparr>)"
| s_take: "sw_spc s = Stest \<Longrightarrow> sw_cond s \<Longrightarrow>
    sw_step s (s\<lparr>sw_cond := False, sw_lk := Nobody, sw_spc := Sidle\<rparr>)"
| s_sleep: "sw_spc s = Stest \<Longrightarrow> \<not> sw_cond s \<Longrightarrow> sw_step s (s\<lparr>sw_spc := Swantp\<rparr>)"
| s_acquire_p: "sw_spc s = Swantp \<Longrightarrow> sw_plock s = Nobody \<Longrightarrow>
    sw_step s (s\<lparr>sw_plock := Sleeper, sw_spc := Sboth\<rparr>)"
| s_release_lk: "sw_spc s = Sboth \<Longrightarrow> sw_step s (s\<lparr>sw_lk := Nobody, sw_spc := Shavep\<rparr>)"
| s_mark: "sw_spc s = Shavep \<Longrightarrow> sw_step s (s\<lparr>sw_chan := True, sw_pst := SLEEPING, sw_spc := Smarked\<rparr>)"
| s_switch: "sw_spc s = Smarked \<Longrightarrow> sw_step s (s\<lparr>sw_plock := Nobody, sw_spc := Sasleep\<rparr>)"
| s_resume: "sw_spc s = Sasleep \<Longrightarrow> sw_pst s = RUNNABLE \<Longrightarrow> sw_plock s = Nobody \<Longrightarrow>
    sw_step s (s\<lparr>sw_plock := Sleeper, sw_pst := RUNNING, sw_spc := Sback\<rparr>)"
| s_release_p: "sw_spc s = Sback \<Longrightarrow> sw_step s (s\<lparr>sw_chan := False, sw_plock := Nobody, sw_spc := Swantlk\<rparr>)"
| s_reacquire: "sw_spc s = Swantlk \<Longrightarrow> sw_lk s = Nobody \<Longrightarrow> sw_step s (s\<lparr>sw_lk := Sleeper, sw_spc := Stest\<rparr>)"
| w_acquire: "sw_wpc s = Widle \<Longrightarrow> sw_lk s = Nobody \<Longrightarrow> sw_step s (s\<lparr>sw_lk := Waker, sw_wpc := Wlocked\<rparr>)"
| w_set: "sw_wpc s = Wlocked \<Longrightarrow> sw_step s (s\<lparr>sw_cond := True, sw_wpc := Wcond\<rparr>)"
| w_acquire_p: "sw_wpc s = Wcond \<Longrightarrow> sw_plock s = Nobody \<Longrightarrow>
    sw_step s (s\<lparr>sw_plock := Waker, sw_wpc := Wlockp\<rparr>)"
| w_wake: "sw_wpc s = Wlockp \<Longrightarrow> sw_step s (s\<lparr>sw_plock := Nobody, sw_wpc := Wdone,
    sw_pst := (if sw_pst s = SLEEPING \<and> sw_chan s then RUNNABLE else sw_pst s)\<rparr>)"
| w_release: "sw_wpc s = Wdone \<Longrightarrow> sw_step s (s\<lparr>sw_lk := Nobody, sw_wpc := Widle\<rparr>)"

inductive sw_reachable :: "sw_state \<Rightarrow> bool" where
  sw_start: "sw_reachable sw_init"
| sw_next: "sw_reachable s \<Longrightarrow> sw_step s t \<Longrightarrow> sw_reachable t"

text \<open>Who holds which lock at which point, when the sleeper is marked asleep, and that a true condition
  leaves a sleeper only to a waker that is still to look at it.\<close>

fun s_has_lk :: "spc \<Rightarrow> bool" where
  "s_has_lk Stest = True" | "s_has_lk Swantp = True" | "s_has_lk Sboth = True" | "s_has_lk _ = False"

fun s_has_p :: "spc \<Rightarrow> bool" where
  "s_has_p Sboth = True" | "s_has_p Shavep = True" | "s_has_p Smarked = True" | "s_has_p Sback = True"
| "s_has_p _ = False"

fun s_marked :: "spc \<Rightarrow> bool" where
  "s_marked Smarked = True" | "s_marked Sasleep = True" | "s_marked _ = False"

fun w_will_look :: "wpc \<Rightarrow> bool" where
  "w_will_look Wcond = True" | "w_will_look Wlockp = True" | "w_will_look _ = False"

definition sw_locks :: "sw_state \<Rightarrow> bool" where
  "sw_locks s \<longleftrightarrow>
     (sw_lk s = Sleeper) = s_has_lk (sw_spc s) \<and> (sw_lk s = Waker) = (sw_wpc s \<noteq> Widle) \<and>
     (sw_plock s = Sleeper) = s_has_p (sw_spc s) \<and> (sw_plock s = Waker) = (sw_wpc s = Wlockp)"

definition sw_marks :: "sw_state \<Rightarrow> bool" where
  "sw_marks s \<longleftrightarrow>
     (sw_spc s = Smarked \<longrightarrow> sw_pst s = SLEEPING) \<and>
     (sw_spc s = Sasleep \<longrightarrow> sw_pst s = SLEEPING \<or> sw_pst s = RUNNABLE) \<and>
     (if s_marked (sw_spc s) then sw_chan s else sw_pst s = RUNNING)"

definition sw_pending :: "sw_state \<Rightarrow> bool" where
  "sw_pending s \<longleftrightarrow> (sw_spc s = Swantp \<or> sw_spc s = Sboth \<longrightarrow> \<not> sw_cond s) \<and>
     (sw_spc s = Shavep \<or> s_marked (sw_spc s) \<and> sw_pst s = SLEEPING \<longrightarrow> sw_cond s \<longrightarrow> w_will_look (sw_wpc s))"

lemma sw_step_locks: "sw_step s t \<Longrightarrow> sw_locks s \<Longrightarrow> sw_locks t"
  by (induction rule: sw_step.induct) (auto simp: sw_locks_def)

lemma sw_step_marks: "sw_step s t \<Longrightarrow> sw_locks s \<Longrightarrow> sw_marks s \<Longrightarrow> sw_marks t"
  by (induction rule: sw_step.induct) (auto simp: sw_locks_def sw_marks_def)

lemma sw_step_pending: "sw_step s t \<Longrightarrow> sw_locks s \<Longrightarrow> sw_marks s \<Longrightarrow> sw_pending s \<Longrightarrow> sw_pending t"
  by (induction rule: sw_step.induct) (auto simp: sw_locks_def sw_marks_def sw_pending_def split: if_splits)

lemma sw_reachable_inv: "sw_reachable s \<Longrightarrow> sw_locks s \<and> sw_marks s \<and> sw_pending s"
proof (induction rule: sw_reachable.induct)
  case sw_start
  show ?case by (simp add: sw_locks_def sw_marks_def sw_pending_def sw_init_def)
qed (blast intro: sw_step_locks sw_step_marks sw_step_pending)

section \<open>Properties\<close>

text \<open>A process table for evaluation: process 0 runs, process 1 sleeps on \<open>ChTicks\<close>, the rest is unused.\<close>

definition zero_proc :: proc where
  "zero_proc = \<lparr>p_state = UNUSED, p_chan = None, p_killed = 0, p_xstate = 0, p_pid = 0, p_parent = None,
     p_kstack = 0, p_sz = 0, p_pagetable = 0, p_trapframe = 0,
     p_context = \<lparr>ctx_ra = 0, ctx_sp = 0, ctx_s = replicate 12 0\<rparr>, p_ofile = (\<lambda>_. None), p_cwd = None,
     p_name = (\<lambda>_. 0), p_exit_msg = (\<lambda>_. 0)\<rparr>"

definition run_hart :: hart where
  "run_hart = boot_hart\<lparr>cpus := (cpus boot_hart)(0 := (cpus boot_hart 0)\<lparr>c_proc := Some 0\<rparr>)\<rparr>"

definition demo_table :: "nat \<Rightarrow> proc" where
  "demo_table = (\<lambda>_. zero_proc)(0 := zero_proc\<lparr>p_state := RUNNING, p_pid := 1, p_pagetable := demo_root, p_sz := 4096\<rparr>,
     1 := zero_proc\<lparr>p_state := SLEEPING, p_chan := Some ChTicks, p_pid := 2\<rparr>)"

definition demo_pt :: proc_table where
  "demo_pt = \<lparr>hw = run_hart, mem = demo_mem, sym = boot_symbols, freelist = 0, kernel_pagetable = 0,
     satp = (\<lambda>_. 0), procs = demo_table, nextpid = 3, initproc = Some 0\<rparr>"

lemma run_hart_simps [simp]:
  "hart_ok run_hart" "lock_idle run_hart lk" "tp run_hart = 0" "c_proc (cur_cpu run_hart) = Some 0"
  "noff (cur_cpu run_hart) = 0" "all_idle run_hart" "others_idle run_hart"
  by (simp_all add: run_hart_def boot_hart_def hart_ok_def lock_idle_def sie_def cur_cpu_def all_idle_def others_idle_def)

lemma demo_pt_simps [simp]:
  "hw demo_pt = run_hart" "mem demo_pt = demo_mem" "sym demo_pt = boot_symbols" "procs demo_pt = demo_table"
  "freelist demo_pt = 0"
  by (simp_all add: demo_pt_def)

text \<open>C3: no wakeup is lost. In every interleaving of a sleeper that tests its condition under a lock and
  sleeps, and a waker that makes the condition true under the lock and calls \<open>wakeup\<close>, a sleeper that
  is marked asleep while the condition holds is one the waker has yet to look at; once the waker has
  looked, the sleeper is runnable.\<close>

theorem no_lost_wakeup:
  assumes "sw_reachable s" and "sw_cond s" and "sw_spc s = Sasleep"
  shows "sw_pst s = RUNNABLE \<or> sw_pst s = SLEEPING \<and> sw_wpc s \<in> {Wcond, Wlockp}"
proof -
  have "sw_marks s" "sw_pending s" using sw_reachable_inv [OF assms(1)] by simp_all
  moreover have "w_will_look w \<Longrightarrow> w \<in> {Wcond, Wlockp}" for w by (cases w) simp_all
  ultimately show ?thesis using assms(2,3) by (auto simp: sw_marks_def sw_pending_def)
qed

theorem no_lost_wakeup_witness:
  "\<exists>s. sw_reachable s \<and> sw_cond s \<and> sw_spc s = Sasleep \<and> sw_wpc s = Wdone \<and> sw_pst s = RUNNABLE"
proof -
  let ?s = "\<lparr>sw_cond = True, sw_lk = Waker, sw_plock = Nobody, sw_pst = RUNNABLE, sw_chan = True,
    sw_spc = Sasleep, sw_wpc = Wdone\<rparr>"
  have "sw_reachable (sw_init\<lparr>sw_lk := Sleeper, sw_spc := Stest\<rparr>)"
    using sw_next [OF sw_start s_acquire] by (simp add: sw_init_def)
  from sw_next [OF this s_sleep] have "sw_reachable (sw_init\<lparr>sw_lk := Sleeper, sw_spc := Swantp\<rparr>)"
    by (simp add: sw_init_def)
  from sw_next [OF this s_acquire_p]
  have "sw_reachable (sw_init\<lparr>sw_lk := Sleeper, sw_plock := Sleeper, sw_spc := Sboth\<rparr>)" by (simp add: sw_init_def)
  from sw_next [OF this s_release_lk]
  have "sw_reachable (sw_init\<lparr>sw_plock := Sleeper, sw_spc := Shavep\<rparr>)" by (simp add: sw_init_def)
  from sw_next [OF this s_mark]
  have "sw_reachable (sw_init\<lparr>sw_plock := Sleeper, sw_chan := True, sw_pst := SLEEPING, sw_spc := Smarked\<rparr>)"
    by (simp add: sw_init_def)
  from sw_next [OF this s_switch]
  have "sw_reachable (sw_init\<lparr>sw_chan := True, sw_pst := SLEEPING, sw_spc := Sasleep\<rparr>)" by (simp add: sw_init_def)
  from sw_next [OF this w_acquire]
  have "sw_reachable (sw_init\<lparr>sw_chan := True, sw_pst := SLEEPING, sw_spc := Sasleep, sw_lk := Waker, sw_wpc := Wlocked\<rparr>)"
    by (simp add: sw_init_def)
  from sw_next [OF this w_set]
  have "sw_reachable (sw_init\<lparr>sw_chan := True, sw_pst := SLEEPING, sw_spc := Sasleep, sw_lk := Waker, sw_cond := True,
      sw_wpc := Wcond\<rparr>)" by (simp add: sw_init_def)
  from sw_next [OF this w_acquire_p]
  have "sw_reachable (sw_init\<lparr>sw_chan := True, sw_pst := SLEEPING, sw_spc := Sasleep, sw_lk := Waker, sw_cond := True,
      sw_plock := Waker, sw_wpc := Wlockp\<rparr>)" by (simp add: sw_init_def)
  from sw_next [OF this w_wake] have r: "sw_reachable ?s" by (simp add: sw_init_def)
  then show ?thesis using no_lost_wakeup [OF r] by (intro exI [of _ ?s]) simp
qed

text \<open>C19: \<open>wakeup\<close> makes exactly the other processes that sleep on the channel runnable; every other
  process, every lock and all other state stays as it was.\<close>

theorem wakeup_exact:
  assumes "others_idle (hw s)"
  shows "\<exists>t. wakeup ch s = Ok () t \<and> t = s\<lparr>procs := procs t\<rparr> \<and>
    (\<forall>p. procs t p = (if p < NPROC \<and> Some p \<noteq> c_proc (cur_cpu (hw s)) \<and> p_state (procs s p) = SLEEPING \<and>
        p_chan (procs s p) = Some ch then (procs s p)\<lparr>p_state := RUNNABLE\<rparr> else procs s p))"
  using wakeup_app [OF assms, of ch] by (auto simp: woken_def wake_all_def)

theorem wakeup_exact_witness:
  "others_idle (hw demo_pt) \<and>
   (\<exists>t. wakeup ChTicks demo_pt = Ok () t \<and> p_state (procs t 1) = RUNNABLE \<and> p_state (procs t 0) = RUNNING)"
  using wakeup_exact [of demo_pt ChTicks] by (auto simp: demo_table_def zero_proc_def NPROC_def)



text \<open>C21: \<open>kill\<close> finds its victim. It returns 0 if and only if some slot has the pid, then marks the first
  such slot killed and wakes it if it sleeps, and otherwise returns -1 and changes nothing.\<close>

theorem kill_correct:
  assumes "all_idle (hw s)"
  shows "if \<exists>p < NPROC. p_pid (procs s p) = pid
    then \<exists>p < NPROC. p_pid (procs s p) = pid \<and> (\<forall>i < p. p_pid (procs s i) \<noteq> pid) \<and>
      kill pid s = Ok 0 (s\<lparr>procs := (procs s)(p := (procs s p)\<lparr>p_killed := 1,
        p_state := (if p_state (procs s p) = SLEEPING then RUNNABLE else p_state (procs s p))\<rparr>)\<rparr>)
    else kill pid s = Ok (-1) s"
proof (cases "find (\<lambda>p. p_pid (procs s p) = pid) [0..<NPROC]")
  case None
  then have "\<not> (\<exists>p < NPROC. p_pid (procs s p) = pid)" by (auto simp: find_None_iff)
  then show ?thesis using None kill_app [OF assms, of pid] by simp
next
  case (Some p)
  then have "p < NPROC" "p_pid (procs s p) = pid" "\<forall>i < p. p_pid (procs s i) \<noteq> pid" by (auto simp: find_Some_iff)
  moreover from this have "\<exists>p < NPROC. p_pid (procs s p) = pid" by blast
  ultimately show ?thesis using Some kill_app [OF assms, of pid] by auto
qed

theorem kill_correct_witness:
  "all_idle (hw demo_pt) \<and> kill 7 demo_pt = Ok (-1) demo_pt \<and>
   (\<exists>t. kill 2 demo_pt = Ok 0 t)"
proof -
  have a: "all_idle (hw demo_pt)" by simp
  have "\<not> (\<exists>p < NPROC. p_pid (procs demo_pt p) = 7)" by (simp add: demo_table_def zero_proc_def)
  then have "kill 7 demo_pt = Ok (-1) demo_pt" using kill_correct [OF a, of 7] by meson
  moreover have "1 < NPROC \<and> p_pid (procs demo_pt 1) = 2" by (simp add: demo_table_def NPROC_def)
  then have "\<exists>t. kill 2 demo_pt = Ok 0 t" using kill_correct [OF a, of 2] by meson
  ultimately show ?thesis using a by blast
qed



text \<open>C23: the scheduler runs what is runnable. A scan that starts at or before the first runnable slot
  stops at that slot with the process marked running on this processor and only its lock held.\<close>

theorem scheduler_picks_runnable:
  assumes "all_idle (hw s)" and "first \<le> k" and "k < NPROC" and "p_state (procs s k) = RUNNABLE"
    and "\<forall>i. first \<le> i \<and> i < k \<longrightarrow> p_state (procs s i) \<noteq> RUNNABLE"
  shows "runs (scheduler_scan first) s (\<lambda>r t. r = Some k \<and> held (hw t) (LkProc k) \<and>
    c_proc (cur_cpu (hw t)) = Some k \<and> procs t = (procs s)(k := (procs s k)\<lparr>p_state := RUNNING\<rparr>) \<and>
    (\<forall>p < NPROC. p \<noteq> k \<longrightarrow> lock_idle (hw t) (LkProc p)))"
  using scheduler_scan_app [OF assms(1-4)] assms(5) by blast

theorem scheduler_picks_runnable_witness:
  "runs (scheduler_scan 0) (demo_pt\<lparr>procs := demo_table(5 := zero_proc\<lparr>p_state := RUNNABLE\<rparr>)\<rparr>)
     (\<lambda>r t. r = Some 5 \<and> p_state (procs t 5) = RUNNING)"
proof -
  let ?s = "demo_pt\<lparr>procs := demo_table(5 := zero_proc\<lparr>p_state := RUNNABLE\<rparr>)\<rparr>"
  have "\<forall>i. 0 \<le> i \<and> i < 5 \<longrightarrow> p_state (procs ?s i) \<noteq> RUNNABLE" by (simp add: demo_table_def zero_proc_def)
  then have "runs (scheduler_scan 0) ?s (\<lambda>r t. r = Some 5 \<and> held (hw t) (LkProc 5) \<and>
    c_proc (cur_cpu (hw t)) = Some 5 \<and> procs t = (procs ?s)(5 := (procs ?s 5)\<lparr>p_state := RUNNING\<rparr>) \<and>
    (\<forall>p < NPROC. p \<noteq> 5 \<longrightarrow> lock_idle (hw t) (LkProc p)))"
    by (intro scheduler_picks_runnable) (simp_all add: NPROC_def)
  then show ?thesis by (rule runs_mono) simp
qed

section \<open>Sleeping until an interrupt\<close>

text \<open>A process sleeps, the scheduler of its hart runs, an interrupt handler makes the process runnable
  and the scheduler takes it next: the path on which a wait for a device ends with this handler. When
  the handler leaves it asleep, the run stops there.\<close>

definition sleep_until :: "chan \<Rightarrow> lockid \<Rightarrow> (unit, 'z proc_table_scheme) M \<Rightarrow> (unit, 'z proc_table_scheme) M" where
  "sleep_until ch lk handler = kbind curproc (\<lambda>p s. case sleep ch lk s of
       Block w t \<Rightarrow>
         kthen (scheduler_leave p) (
         kthen handler (
         kbind (scheduler_take p) (\<lambda>r. case r of
           None \<Rightarrow> block w
         | Some _ \<Rightarrow> sleep_return p lk (intena (cur_cpu (hw t)))))) t
     | Ok u t \<Rightarrow> Ok u t | Panic e \<Rightarrow> Panic e | Fault e \<Rightarrow> Fault e)"

text \<open>The hart while its scheduler runs in place of process \<open>p\<close>, which sleeps having given up \<open>lk\<close>; and
  the hart when \<open>p\<close> goes on in \<open>sleep_return\<close>.\<close>

definition sched_hart :: "nat \<Rightarrow> lockid \<Rightarrow> hart \<Rightarrow> hart" where
  "sched_hart p lk h = (let g = rel lk (acq (LkProc p) h) in
     rel (LkProc p) (g\<lparr>cpus := (cpus g)(tp g := (cpus g (tp g))\<lparr>c_proc := None\<rparr>)\<rparr>))"

definition resumed_hart :: "nat \<Rightarrow> bool \<Rightarrow> hart \<Rightarrow> hart" where
  "resumed_hart p saved h = (let g = acq (LkProc p) h in
     g\<lparr>cpus := (cpus g)(tp g := (cpus g (tp g))\<lparr>c_proc := Some p, intena := saved\<rparr>)\<rparr>)"

lemma SIE_clear [simp]: "(x OR SSTATUS_SIE) AND NOT SSTATUS_SIE = x AND NOT SSTATUS_SIE" "SSTATUS_SIE \<noteq> 0"
proof -
  show "(x OR SSTATUS_SIE) AND NOT SSTATUS_SIE = x AND NOT SSTATUS_SIE"
    by (rule bit_word_eqI) (auto simp: bit_simps)
qed (simp add: SSTATUS_SIE_def)

lemma sched_hart_simps:
  assumes "hart_ok h" "held h lk" "lk \<noteq> LkProc p" "noff (cur_cpu h) = 1" "lock_idle h (LkProc p)"
  shows "hart_ok (sched_hart p lk h)" "c_proc (cur_cpu (sched_hart p lk h)) = None" "tp (sched_hart p lk h) = tp h"
    "lock_idle (sched_hart p lk h) l \<longleftrightarrow> l = lk \<or> lock_idle h l" "noff (cur_cpu (sched_hart p lk h)) = 0"
  using assms
  by (auto simp: sched_hart_def Let_def rel_def acq_def popped_def pushed_def cur_cpu_def hart_ok_def held_def
      lock_idle_def sie_def)

lemma resume_sleep:
  assumes "hart_ok h" "held h lk" "lk \<noteq> LkProc p" "noff (cur_cpu h) = 1" "lock_idle h (LkProc p)"
    "c_proc (cur_cpu h) = Some p"
  shows "acq lk (rel (LkProc p) (resumed_hart p (intena (cur_cpu h)) (sched_hart p lk h))) = h"
    (is "?l = h")
proof (rule hart.equality)
  have so: "sstatus h (tp h) AND SSTATUS_SIE = 0" using assms(1,4) by (simp add: hart_ok_def sie_def)
  show "tp ?l = tp h" by (simp add: resumed_hart_def sched_hart_def Let_def)
  show "sstatus ?l = sstatus h"
    using SIE_off [OF so] assms(4)
    by (intro ext) (simp add: resumed_hart_def sched_hart_def Let_def rel_def acq_def popped_def pushed_def cur_cpu_def and.assoc)
  show "cpus ?l = cpus h"
    using assms(4,6) so by (intro ext cpu.equality)
      (auto simp: resumed_hart_def sched_hart_def Let_def rel_def acq_def popped_def pushed_def cur_cpu_def sie_def)
  show "locks ?l = locks h"
    using assms(2,3,5) by (intro ext spinlock.equality)
      (auto simp: resumed_hart_def sched_hart_def Let_def rel_def acq_def popped_def pushed_def cur_cpu_def held_def lock_idle_def)
qed simp

lemma resumed_hart_simps:
  "held (resumed_hart p b h) (LkProc p)" "\<not> sie (resumed_hart p b h)" "tp (resumed_hart p b h) = tp h"
  "noff (cur_cpu (resumed_hart p b h)) = noff (cur_cpu h) + 1"
  "lk \<noteq> LkProc p \<Longrightarrow> locks (resumed_hart p b h) lk = locks h lk"
  by (simp_all add: resumed_hart_def Let_def held_def sie_def cur_cpu_def acq_def pushed_def)

lemma runs_sleep_return:
  assumes "hw t = acq (LkProc p) h" "lk \<noteq> LkProc p" "lock_idle h lk" "noff (cur_cpu h) = 0"
  shows "runs (sleep_return p lk b) (t\<lparr>hw := (hw t)\<lparr>cpus := (cpus (hw t))(tp (hw t) := (cpus (hw t) (tp (hw t)))\<lparr>c_proc := Some p\<rparr>)\<rparr>\<rparr>) P
    \<longleftrightarrow> P () (t\<lparr>procs := (procs t)(p := (procs t p)\<lparr>p_chan := None\<rparr>), hw := acq lk (rel (LkProc p) (resumed_hart p b h))\<rparr>)"
proof -
  let ?r = "resumed_hart p b h"
  have r: "(hw t)\<lparr>cpus := (cpus (hw t))(tp (hw t) := (cpus (hw t) (tp (hw t)))\<lparr>c_proc := Some p, intena := b\<rparr>)\<rparr> = ?r"
    by (simp add: resumed_hart_def Let_def assms(1))
  have "locked (locks (rel (LkProc p) ?r) lk) = 0"
    using assms(2,3) by (simp add: resumed_hart_simps lock_idle_def)
  moreover have "locked (locks (hw t) (LkProc p)) = 1" "lk_cpu (locks (hw t) (LkProc p)) = Some (tp (hw t))"
    by (simp_all add: assms(1) acq_def pushed_def)
  moreover have "locked (locks (hw t) lk) = 0"
    using assms(2,3) by (simp add: assms(1) lock_idle_def)
  ultimately show ?thesis
    using r resumed_hart_simps(1,2,4) [of p b h] assms(2,4)
    by (simp add: sleep_return_def sched_return_def mycpu_def cpuid_def set_cpu_def held_def)
qed

lemma runs_sleep_until:
  assumes h: "hart_ok (hw s)" "held (hw s) lk" "lk \<noteq> LkProc p" "noff (cur_cpu (hw s)) = 1"
    "lock_idle (hw s) (LkProc p)" "c_proc (cur_cpu (hw s)) = Some p"
    and handler: "runs handler (s\<lparr>hw := sched_hart p lk (hw s), procs := (procs s)(p := (procs s p)\<lparr>p_chan := Some ch,
      p_state := SLEEPING\<rparr>)\<rparr>) (\<lambda>_ t. hw t = sched_hart p lk (hw s) \<and> p_state (procs t p) = RUNNABLE \<and>
        P () (t\<lparr>procs := (procs t)(p := (procs t p)\<lparr>p_state := RUNNING, p_chan := None\<rparr>), hw := hw s\<rparr>))"
  shows "runs (sleep_until ch lk handler) s P"
proof -
  let ?g = "rel lk (acq (LkProc p) (hw s))" and ?sh = "sched_hart p lk (hw s)" and ?b = "intena (cur_cpu (hw s))"
  let ?ps = "(procs s)(p := (procs s p)\<lparr>p_chan := Some ch, p_state := SLEEPING\<rparr>)"
  let ?t = "s\<lparr>hw := ?g, procs := ?ps\<rparr>"
  note sh = sched_hart_simps [OF h(1-5)]
  have int: "intena (cur_cpu ?g) = ?b"
    using h(4) by (simp add: rel_def acq_def popped_def pushed_def cur_cpu_def Let_def)
  have leave: "scheduler_leave p ?t = Ok () (s\<lparr>hw := ?sh, procs := ?ps\<rparr>)"
  proof (rule runs_eqI)
    have "held ?g (LkProc p)" "\<not> sie ?g" "noff (cur_cpu ?g) = 1" using h(3,4) by (simp_all add: sie_rel)
    then show "runs (scheduler_leave p) ?t (\<lambda>x u. x = () \<and> u = s\<lparr>hw := ?sh, procs := ?ps\<rparr>)"
      by (simp add: scheduler_leave_def mycpu_def cpuid_def set_cpu_def sched_hart_def Let_def held_def sie_def cur_cpu_def)
  qed
  have take: "runs (scheduler_take p) u (\<lambda>r v. r = Some p \<and> runs (sleep_return p lk ?b) v P)"
    if u: "hw u = ?sh" "p_state (procs u p) = RUNNABLE"
      "P () (u\<lparr>procs := (procs u)(p := (procs u p)\<lparr>p_state := RUNNING, p_chan := None\<rparr>), hw := hw s\<rparr>)" for u
  proof -
    let ?v = "u\<lparr>hw := acq (LkProc p) ?sh, procs := (procs u)(p := (procs u p)\<lparr>p_state := RUNNING\<rparr>)\<rparr>"
    have "lock_idle ?sh lk" "lock_idle ?sh (LkProc p)" using sh(4) h(5) by simp_all
    then show ?thesis
      using u runs_sleep_return [of ?v p ?sh lk ?b P] resume_sleep [OF h] h(3) sh(5)
      by (simp add: scheduler_take_def mycpu_def cpuid_def set_cpu_def)
  qed
  have "runs (kthen handler (kbind (scheduler_take p) (\<lambda>r. case r of None \<Rightarrow> block (OnChan ch)
      | Some _ \<Rightarrow> sleep_return p lk ?b))) (s\<lparr>hw := ?sh, procs := ?ps\<rparr>) P"
    unfolding runs_kthen runs_kbind
    by (rule runs_mono [OF handler], rule runs_mono [OF take]) auto
  then show ?thesis
    using h int leave by (simp add: sleep_until_def runs_def sleep_app curproc_app)
qed

end
