(* ===== verification/Xv6_Sleeplock.thy ===== *)
theory Xv6_Sleeplock
  imports Xv6_Proc
begin

text \<open>
  kernel/sleeplock.c. The sleep locks of the buffer cache and of the inode table are entries of
  \<open>slocks\<close>, named by their inner spin lock. \<open>acquiresleep\<close> on a lock that is taken ends in \<open>sleep\<close>; the
  loop is \<open>acquiresleep_loop\<close>, entered again with the inner lock held when the process is woken.
\<close>

record sleeplock =
  sk_locked :: u32
  sk_name :: string
  sk_pid :: int

record sleep_table = proc_table +
  slocks :: "lockid \<Rightarrow> sleeplock"

text \<open>The channel processes sleep on for a sleep lock: its address.\<close>

fun sl_chan :: "lockid \<Rightarrow> chan" where
  "sl_chan (LkBuf i) = ChBufLock i"
| "sl_chan (LkInode i) = ChInodeLock i"
| "sl_chan _ = ChTicks"

definition set_slock :: "lockid \<Rightarrow> (sleeplock \<Rightarrow> sleeplock) \<Rightarrow> (unit, 'z sleep_table_scheme) M" where
  "set_slock lk f = modify (\<lambda>s. s\<lparr>slocks := (slocks s)(lk := f (slocks s lk))\<rparr>)"

definition initsleeplock :: "lockid \<Rightarrow> string \<Rightarrow> (unit, 'z sleep_table_scheme) M" where
  "initsleeplock lk name =
     kthen (initlock lk ''sleep lock'')
     (set_slock lk (\<lambda>k. k\<lparr>sk_name := name, sk_locked := 0, sk_pid := 0\<rparr>))"

definition acquiresleep_loop :: "lockid \<Rightarrow> (unit, 'z sleep_table_scheme) M" where
  "acquiresleep_loop lk =
     kbind (gets (\<lambda>s. slocks s lk)) (\<lambda>k.
     if sk_locked k \<noteq> 0 then sleep (sl_chan lk) lk else
     kthen (set_slock lk (\<lambda>k. k\<lparr>sk_locked := 1\<rparr>)) (
     kbind curproc (\<lambda>p.
     kbind (get_proc p) (\<lambda>q.
     kthen (set_slock lk (\<lambda>k. k\<lparr>sk_pid := p_pid q\<rparr>))
     (release lk)))))"

definition acquiresleep :: "lockid \<Rightarrow> (unit, 'z sleep_table_scheme) M" where
  "acquiresleep lk = kthen (acquire lk) (acquiresleep_loop lk)"

definition releasesleep :: "lockid \<Rightarrow> (unit, 'z sleep_table_scheme) M" where
  "releasesleep lk =
     kthen (acquire lk) (
     kthen (set_slock lk (\<lambda>k. k\<lparr>sk_locked := 0, sk_pid := 0\<rparr>)) (
     kthen (wakeup (sl_chan lk))
     (release lk)))"

definition holdingsleep :: "lockid \<Rightarrow> (bool, 'z sleep_table_scheme) M" where
  "holdingsleep lk =
     kthen (acquire lk) (
     kbind (gets (\<lambda>s. slocks s lk)) (\<lambda>k.
     if sk_locked k = 0 then kthen (release lk) (ret False) else
     kbind curproc (\<lambda>p.
     kbind (get_proc p) (\<lambda>q.
     kthen (release lk)
     (ret (sk_pid k = p_pid q))))))"

section \<open>What the operations do\<close>

definition sl_idle :: "hart \<Rightarrow> lockid \<Rightarrow> bool" where
  "sl_idle h lk \<longleftrightarrow> all_idle h \<and> lock_idle h lk \<and> (\<forall>p. lk \<noteq> LkProc p)"

lemma others_idle_acq: "all_idle h \<Longrightarrow> (\<And>p. lk \<noteq> LkProc p) \<Longrightarrow> others_idle (acq lk h)"
  by (simp add: all_idle_def others_idle_def)

lemma runs_set_slock [simp]:
  "runs (set_slock lk f) s P = P () (s\<lparr>slocks := (slocks s)(lk := f (slocks s lk))\<rparr>)"
  by (simp add: set_slock_def)

lemma runs_wakeup:
  "others_idle (hw s) \<Longrightarrow> runs (wakeup ch) s P = P () (s\<lparr>procs :=
     wake_all (c_proc (cur_cpu (hw s))) ch (procs s)\<rparr>)"
  by (simp add: runs_app [OF wakeup_app])

lemma runs_acquiresleep:
  assumes "sl_idle (hw s) lk" "c_proc (cur_cpu (hw s)) = Some p" "sk_locked (slocks s lk) = 0"
  shows "runs (acquiresleep lk) s P = P () (s\<lparr>slocks := (slocks s)(lk := (slocks s lk)\<lparr>sk_locked := 1,
    sk_pid := p_pid (procs s p)\<rparr>)\<rparr>)"
  using assms by (simp add: acquiresleep_def acquiresleep_loop_def sl_idle_def all_idle_def)

lemma runs_releasesleep:
  assumes "sl_idle (hw s) lk"
  shows "runs (releasesleep lk) s P = P () (s\<lparr>slocks := (slocks s)(lk := (slocks s lk)\<lparr>sk_locked := 0, sk_pid := 0\<rparr>),
    procs := wake_all (c_proc (cur_cpu (hw s))) (sl_chan lk) (procs s)\<rparr>)"
  using assms others_idle_acq [of "hw s" lk]
  by (simp add: releasesleep_def sl_idle_def runs_wakeup) (simp add: all_idle_def)

lemma runs_holdingsleep:
  assumes "sl_idle (hw s) lk" "c_proc (cur_cpu (hw s)) = Some p"
  shows "runs (holdingsleep lk) s P =
    P (sk_locked (slocks s lk) \<noteq> 0 \<and> sk_pid (slocks s lk) = p_pid (procs s p)) s"
  using assms by (simp add: holdingsleep_def sl_idle_def all_idle_def)

end
