(* ===== verification/Xv6_Bus.thy ===== *)
theory Xv6_Bus
  imports Xv6_Sleeplock
begin

text \<open>
  The memory-mapped devices. A device is not part of the kernel: what a read of a device register
  returns is a parameter \<open>bus\<close>, a function of everything the kernel has read from and written to
  device registers before (\<open>bus_log\<close>, latest access first). \<open>panicked\<close> and \<open>pr_locking\<close> are the variables of
  printf.c.
\<close>

datatype bus_access = BusRead u64 | BusWrite u64 u32

record bus_state = sleep_table +
  bus :: "bus_access list \<Rightarrow> u64 \<Rightarrow> u32"
  bus_log :: "bus_access list"
  panicked :: int
  pr_locking :: int

definition bus_read :: "u64 \<Rightarrow> (u32, 'z bus_state_scheme) M" where
  "bus_read a = kbind (gets (\<lambda>s. bus s (bus_log s) a)) (\<lambda>v.
     kthen (modify (\<lambda>s. s\<lparr>bus_log := BusRead a # bus_log s\<rparr>)) (ret v))"

definition bus_write :: "u64 \<Rightarrow> u32 \<Rightarrow> (unit, 'z bus_state_scheme) M" where
  "bus_write a v = modify (\<lambda>s. s\<lparr>bus_log := BusWrite a v # bus_log s\<rparr>)"

lemma runs_bus_read [simp]:
  "runs (bus_read a) s P = P (bus s (bus_log s) a) (s\<lparr>bus_log := BusRead a # bus_log s\<rparr>)"
  by (simp add: bus_read_def)

lemma runs_bus_write [simp]: "runs (bus_write a v) s P = P () (s\<lparr>bus_log := BusWrite a v # bus_log s\<rparr>)"
  by (simp add: bus_write_def)

section \<open>The context of a system call\<close>

text \<open>The state in which a process runs kernel code that may sleep: it is the current process, it
  holds no spin lock, and no other hart holds one. What other processes may observe of code that
  returns without having slept are wakeups.\<close>

definition ctx :: "'z proc_table_scheme \<Rightarrow> nat \<Rightarrow> bool" where
  "ctx s p \<longleftrightarrow> hart_ok (hw s) \<and> noff (cur_cpu (hw s)) = 0 \<and> c_proc (cur_cpu (hw s)) = Some p \<and> p < NPROC \<and>
     (\<forall>lk. lock_idle (hw s) lk) \<and> p_state (procs s p) = RUNNING \<and> p_chan (procs s p) = None"

definition wakes :: "(nat \<Rightarrow> proc) \<Rightarrow> (nat \<Rightarrow> proc) \<Rightarrow> bool" where
  "wakes ps qs \<longleftrightarrow> (\<forall>i. qs i = ps i \<or> p_state (ps i) = SLEEPING \<and> qs i = (ps i)\<lparr>p_state := RUNNABLE\<rparr>)"

lemma wakes_refl [simp]: "wakes ps ps"
  by (simp add: wakes_def)

lemma wakes_trans [trans]: "wakes ps qs \<Longrightarrow> wakes qs rs \<Longrightarrow> wakes ps rs"
  unfolding wakes_def by (metis proc.select_convs(1) proc.surjective proc.update_convs(1) procstate.distinct)

lemma wakes_wake_all [simp]: "wakes ps (wake_all me ch ps)"
  by (simp add: wakes_def wake_all_def woken_def)

lemma wakes_running: "wakes ps qs \<Longrightarrow> p_state (ps p) = RUNNING \<Longrightarrow> qs p = ps p"
  by (auto simp: wakes_def)

lemma ctx_wakes: "ctx s p \<Longrightarrow> hw t = hw s \<Longrightarrow> wakes (procs s) (procs t) \<Longrightarrow> ctx t p"
  by (auto simp: ctx_def dest: wakes_running [of "procs s" "procs t" p])

lemma ctx_hart:
  assumes "ctx s p"
  shows "hart_ok (hw s)" "lock_idle (hw s) lk" "locked (locks (hw s) lk) = 0" "all_idle (hw s)" "others_idle (hw s)"
    "c_proc (cur_cpu (hw s)) = Some p" "noff (cur_cpu (hw s)) = 0" "p < NPROC" "p_state (procs s p) = RUNNING"
    "p_chan (procs s p) = None" "rel lk (acq lk (hw s)) = hw s"
  using assms by (simp_all add: ctx_def all_idle_def others_idle_def)

lemma ctx_sl_idle: "ctx s p \<Longrightarrow> (\<And>q. lk \<noteq> LkProc q) \<Longrightarrow> sl_idle (hw s) lk"
  by (simp add: sl_idle_def ctx_hart)

lemma wake_all_me: "ps p = q \<Longrightarrow> wake_all (Some p) ch ps p = q"
  by (simp add: wake_all_def woken_def)

end
