(* ===== verification/Xv6_Virtio.thy ===== *)
theory Xv6_Virtio
  imports Xv6_Bus
begin

text \<open>
  kernel/virtio_disk.c, kernel/virtio.h and \<open>struct buf\<close> of kernel/buf.h. The descriptor table and the
  two rings are records of the same shape; an address in a descriptor names the object it points to.
  The disk itself is a parameter: \<open>blkdev\<close> is what it does with a request, \<open>blk_ok\<close> the contract of the
  virtio block device, \<open>device_serve\<close> the device's side of the queue protocol.

  Shown: a request runs to completion, transfers exactly the block, and leaves the driver as it found
  it, every descriptor free.
\<close>

section \<open>virtio.h\<close>

definition VIRTIO_MMIO_MAGIC_VALUE :: u64 where "VIRTIO_MMIO_MAGIC_VALUE = 0x000"
definition VIRTIO_MMIO_VERSION :: u64 where "VIRTIO_MMIO_VERSION = 0x004"
definition VIRTIO_MMIO_DEVICE_ID :: u64 where "VIRTIO_MMIO_DEVICE_ID = 0x008"
definition VIRTIO_MMIO_VENDOR_ID :: u64 where "VIRTIO_MMIO_VENDOR_ID = 0x00c"
definition VIRTIO_MMIO_DEVICE_FEATURES :: u64 where "VIRTIO_MMIO_DEVICE_FEATURES = 0x010"
definition VIRTIO_MMIO_DRIVER_FEATURES :: u64 where "VIRTIO_MMIO_DRIVER_FEATURES = 0x020"
definition VIRTIO_MMIO_QUEUE_SEL :: u64 where "VIRTIO_MMIO_QUEUE_SEL = 0x030"
definition VIRTIO_MMIO_QUEUE_NUM_MAX :: u64 where "VIRTIO_MMIO_QUEUE_NUM_MAX = 0x034"
definition VIRTIO_MMIO_QUEUE_NUM :: u64 where "VIRTIO_MMIO_QUEUE_NUM = 0x038"
definition VIRTIO_MMIO_QUEUE_READY :: u64 where "VIRTIO_MMIO_QUEUE_READY = 0x044"
definition VIRTIO_MMIO_QUEUE_NOTIFY :: u64 where "VIRTIO_MMIO_QUEUE_NOTIFY = 0x050"
definition VIRTIO_MMIO_INTERRUPT_STATUS :: u64 where "VIRTIO_MMIO_INTERRUPT_STATUS = 0x060"
definition VIRTIO_MMIO_INTERRUPT_ACK :: u64 where "VIRTIO_MMIO_INTERRUPT_ACK = 0x064"
definition VIRTIO_MMIO_STATUS :: u64 where "VIRTIO_MMIO_STATUS = 0x070"
definition VIRTIO_MMIO_QUEUE_DESC_LOW :: u64 where "VIRTIO_MMIO_QUEUE_DESC_LOW = 0x080"
definition VIRTIO_MMIO_QUEUE_DESC_HIGH :: u64 where "VIRTIO_MMIO_QUEUE_DESC_HIGH = 0x084"
definition VIRTIO_MMIO_DRIVER_DESC_LOW :: u64 where "VIRTIO_MMIO_DRIVER_DESC_LOW = 0x090"
definition VIRTIO_MMIO_DRIVER_DESC_HIGH :: u64 where "VIRTIO_MMIO_DRIVER_DESC_HIGH = 0x094"
definition VIRTIO_MMIO_DEVICE_DESC_LOW :: u64 where "VIRTIO_MMIO_DEVICE_DESC_LOW = 0x0a0"
definition VIRTIO_MMIO_DEVICE_DESC_HIGH :: u64 where "VIRTIO_MMIO_DEVICE_DESC_HIGH = 0x0a4"

definition VIRTIO_CONFIG_S_ACKNOWLEDGE :: u32 where "VIRTIO_CONFIG_S_ACKNOWLEDGE = 1"
definition VIRTIO_CONFIG_S_DRIVER :: u32 where "VIRTIO_CONFIG_S_DRIVER = 2"
definition VIRTIO_CONFIG_S_DRIVER_OK :: u32 where "VIRTIO_CONFIG_S_DRIVER_OK = 4"
definition VIRTIO_CONFIG_S_FEATURES_OK :: u32 where "VIRTIO_CONFIG_S_FEATURES_OK = 8"

definition VIRTIO_BLK_F_RO :: nat where "VIRTIO_BLK_F_RO = 5"
definition VIRTIO_BLK_F_SCSI :: nat where "VIRTIO_BLK_F_SCSI = 7"
definition VIRTIO_BLK_F_CONFIG_WCE :: nat where "VIRTIO_BLK_F_CONFIG_WCE = 11"
definition VIRTIO_BLK_F_MQ :: nat where "VIRTIO_BLK_F_MQ = 12"
definition VIRTIO_F_ANY_LAYOUT :: nat where "VIRTIO_F_ANY_LAYOUT = 27"
definition VIRTIO_RING_F_INDIRECT_DESC :: nat where "VIRTIO_RING_F_INDIRECT_DESC = 28"
definition VIRTIO_RING_F_EVENT_IDX :: nat where "VIRTIO_RING_F_EVENT_IDX = 29"

definition NUM :: nat where "NUM = 8"
definition VRING_DESC_F_NEXT :: u16 where "VRING_DESC_F_NEXT = 1"
definition VRING_DESC_F_WRITE :: u16 where "VRING_DESC_F_WRITE = 2"
definition VIRTIO_BLK_T_IN :: u32 where "VIRTIO_BLK_T_IN = 0"
definition VIRTIO_BLK_T_OUT :: u32 where "VIRTIO_BLK_T_OUT = 1"
definition BSIZE :: nat where "BSIZE = 1024"

text \<open>What the address field of a descriptor points to: \<open>disk.ops[i]\<close>, \<open>bcache.buf[i].data\<close> or
  \<open>disk.info[i].status\<close>.\<close>

datatype dptr = DNull | DOps nat | DData nat | DStatus nat

record virtq_desc =
  vd_addr :: dptr
  vd_len :: u32
  vd_flags :: u16
  vd_next :: u16

record virtq_avail =
  av_flags :: u16
  av_idx :: u16
  av_ring :: "nat \<Rightarrow> u16"

record virtq_used_elem =
  ue_id :: u32
  ue_len :: u32

record virtq_used =
  us_flags :: u16
  us_idx :: u16
  us_ring :: "nat \<Rightarrow> virtq_used_elem"

record virtio_blk_req =
  br_type :: u32
  br_reserved :: u32
  br_sector :: u64

section \<open>struct buf, struct disk, the disk\<close>

text \<open>A buffer is named by its index in \<open>bcache.buf\<close>; the list head \<open>bcache.head\<close> is the buffer with
  index \<open>NBUF\<close>. Its sleep lock is the entry \<open>LkBuf i\<close> of \<open>slocks\<close>.\<close>

record buf =
  b_valid :: int
  b_disk :: int
  b_dev :: u32
  b_blockno :: u32
  b_refcnt :: u32
  b_prev :: nat
  b_next :: nat
  b_data :: "u8 list"

record disk_info =
  di_b :: "nat option"
  di_status :: u8

text \<open>\<open>struct disk\<close>: the addresses of the three pages the device is told about, and their contents.\<close>

record vdisk =
  v_desc_pa :: u64
  v_avail_pa :: u64
  v_used_pa :: u64
  v_desc :: "nat \<Rightarrow> virtq_desc"
  v_avail :: virtq_avail
  v_used :: virtq_used
  v_free :: "nat \<Rightarrow> u8"
  v_used_idx :: u16
  v_info :: "nat \<Rightarrow> disk_info"
  v_ops :: "nat \<Rightarrow> virtio_blk_req"

text \<open>The disk: sectors of 512 bytes, and what the device does with a request and the data buffer that
  comes with it: the status it reports, the new contents of the buffer, the new contents of the disk.
  \<open>dev_avail\<close> is how far the device has read the available ring, \<open>dhist\<close> what the disk held before each of
  the writes so far, latest first: the images a crash may leave behind.\<close>

type_synonym dimage = "u64 \<Rightarrow> u8 list"

record disk_state = bus_state +
  vdisk :: vdisk
  bufs :: "nat \<Rightarrow> buf"
  dimg :: dimage
  blkdev :: "virtio_blk_req \<Rightarrow> u8 list \<Rightarrow> dimage \<Rightarrow> u8 \<times> u8 list \<times> dimage"
  dev_avail :: u16
  dhist :: "dimage list"

definition set_disk :: "(vdisk \<Rightarrow> vdisk) \<Rightarrow> (unit, 'z disk_state_scheme) M" where
  "set_disk f = modify (\<lambda>s. s\<lparr>vdisk := f (vdisk s)\<rparr>)"

definition get_disk :: "(vdisk \<Rightarrow> 'a) \<Rightarrow> ('a, 'z disk_state_scheme) M" where
  "get_disk f = gets (\<lambda>s. f (vdisk s))"

definition set_buf :: "nat \<Rightarrow> (buf \<Rightarrow> buf) \<Rightarrow> (unit, 'z disk_state_scheme) M" where
  "set_buf b f = modify (\<lambda>s. s\<lparr>bufs := (bufs s)(b := f (bufs s b))\<rparr>)"

definition get_buf :: "nat \<Rightarrow> (buf \<Rightarrow> 'a) \<Rightarrow> ('a, 'z disk_state_scheme) M" where
  "get_buf b f = gets (\<lambda>s. f (bufs s b))"

definition zero_desc :: virtq_desc where
  "zero_desc = \<lparr>vd_addr = DNull, vd_len = 0, vd_flags = 0, vd_next = 0\<rparr>"

definition zero_avail :: virtq_avail where
  "zero_avail = \<lparr>av_flags = 0, av_idx = 0, av_ring = (\<lambda>_. 0)\<rparr>"

definition zero_used :: virtq_used where
  "zero_used = \<lparr>us_flags = 0, us_idx = 0, us_ring = (\<lambda>_. \<lparr>ue_id = 0, ue_len = 0\<rparr>)\<rparr>"

section \<open>virtio_disk.c\<close>

text \<open>The register at offset \<open>r\<close>: the macro \<open>R\<close>.\<close>

definition vio_read :: "u64 \<Rightarrow> (u32, 'z disk_state_scheme) M" where
  "vio_read r = bus_read (VIRTIO0 + r)"

definition vio_write :: "u64 \<Rightarrow> u32 \<Rightarrow> (unit, 'z disk_state_scheme) M" where
  "vio_write r v = bus_write (VIRTIO0 + r) v"

definition virtio_features :: "u64 \<Rightarrow> u64" where
  "virtio_features features = fold (\<lambda>f x. x AND NOT (push_bit f 1))
     [VIRTIO_BLK_F_RO, VIRTIO_BLK_F_SCSI, VIRTIO_BLK_F_CONFIG_WCE, VIRTIO_BLK_F_MQ,
      VIRTIO_F_ANY_LAYOUT, VIRTIO_RING_F_EVENT_IDX, VIRTIO_RING_F_INDIRECT_DESC] features"

text \<open>The check that the device is there; C evaluates the disjunction from left to right.\<close>

definition virtio_probe :: "(unit, 'z disk_state_scheme) M" where
  "virtio_probe = kbind (kfor [(VIRTIO_MMIO_MAGIC_VALUE, 0x74726976), (VIRTIO_MMIO_VERSION, 2),
       (VIRTIO_MMIO_DEVICE_ID, 2), (VIRTIO_MMIO_VENDOR_ID, 0x554d4551)]
       (\<lambda>(r, v). kbind (vio_read r) (\<lambda>x. ret (if x \<noteq> v then Some () else None))))
     (\<lambda>r. case r of Some _ \<Rightarrow> panic ''could not find virtio disk'' | None \<Rightarrow> ret ())"

definition virtio_negotiate :: "(u32, 'z disk_state_scheme) M" where
  "virtio_negotiate =
     kthen (vio_write VIRTIO_MMIO_STATUS 0) (
     kthen (vio_write VIRTIO_MMIO_STATUS VIRTIO_CONFIG_S_ACKNOWLEDGE) (
     let status = VIRTIO_CONFIG_S_ACKNOWLEDGE OR VIRTIO_CONFIG_S_DRIVER in
     kthen (vio_write VIRTIO_MMIO_STATUS status) (
     kbind (vio_read VIRTIO_MMIO_DEVICE_FEATURES) (\<lambda>features.
     kthen (vio_write VIRTIO_MMIO_DRIVER_FEATURES (ucast (virtio_features (ucast features)))) (
     kthen (vio_write VIRTIO_MMIO_STATUS (status OR VIRTIO_CONFIG_S_FEATURES_OK)) (
     kbind (vio_read VIRTIO_MMIO_STATUS) (\<lambda>status.
     if status AND VIRTIO_CONFIG_S_FEATURES_OK = 0 then panic ''virtio disk FEATURES_OK unset''
     else ret status)))))))"

definition virtio_queue_init :: "(unit, 'z disk_state_scheme) M" where
  "virtio_queue_init =
     kthen (vio_write VIRTIO_MMIO_QUEUE_SEL 0) (
     kbind (vio_read VIRTIO_MMIO_QUEUE_READY) (\<lambda>ready.
     if ready \<noteq> 0 then panic ''virtio disk should not be ready'' else
     kbind (vio_read VIRTIO_MMIO_QUEUE_NUM_MAX) (\<lambda>mx.
     if mx = 0 then panic ''virtio disk has no queue 0'' else
     if mx < of_nat NUM then panic ''virtio disk max queue too short'' else
     kbind kalloc (\<lambda>desc. kthen (set_disk (\<lambda>d. d\<lparr>v_desc_pa := desc\<rparr>)) (
     kbind kalloc (\<lambda>avail. kthen (set_disk (\<lambda>d. d\<lparr>v_avail_pa := avail\<rparr>)) (
     kbind kalloc (\<lambda>used. kthen (set_disk (\<lambda>d. d\<lparr>v_used_pa := used\<rparr>)) (
     if desc = 0 \<or> avail = 0 \<or> used = 0 then panic ''virtio disk kalloc'' else
     kthen (set_mem (memset desc 0 (ucast PGSIZE))) (
     kthen (set_mem (memset avail 0 (ucast PGSIZE))) (
     kthen (set_mem (memset used 0 (ucast PGSIZE))) (
     kthen (set_disk (\<lambda>d. d\<lparr>v_desc := (\<lambda>_. zero_desc), v_avail := zero_avail, v_used := zero_used\<rparr>)) (
     kthen (vio_write VIRTIO_MMIO_QUEUE_NUM (of_nat NUM)) (
     kthen (vio_write VIRTIO_MMIO_QUEUE_DESC_LOW (ucast desc)) (
     kthen (vio_write VIRTIO_MMIO_QUEUE_DESC_HIGH (ucast (drop_bit 32 desc))) (
     kthen (vio_write VIRTIO_MMIO_DRIVER_DESC_LOW (ucast avail)) (
     kthen (vio_write VIRTIO_MMIO_DRIVER_DESC_HIGH (ucast (drop_bit 32 avail))) (
     kthen (vio_write VIRTIO_MMIO_DEVICE_DESC_LOW (ucast used)) (
     kthen (vio_write VIRTIO_MMIO_DEVICE_DESC_HIGH (ucast (drop_bit 32 used)))
     (vio_write VIRTIO_MMIO_QUEUE_READY 1))))))))))))))))))))"

definition virtio_disk_init :: "(unit, 'z disk_state_scheme) M" where
  "virtio_disk_init =
     kthen (initlock LkDisk ''virtio_disk'') (
     kthen virtio_probe (
     kbind virtio_negotiate (\<lambda>status.
     kthen virtio_queue_init (
     kthen (kforall [0..<NUM] (\<lambda>i. set_disk (\<lambda>d. d\<lparr>v_free := (v_free d)(i := 1)\<rparr>)))
     (vio_write VIRTIO_MMIO_STATUS (status OR VIRTIO_CONFIG_S_DRIVER_OK))))))"

definition alloc_desc :: "(int, 'z disk_state_scheme) M" where
  "alloc_desc =
     kbind (kfor [0..<NUM] (\<lambda>i.
       kbind (get_disk v_free) (\<lambda>free.
       if free i \<noteq> 0 then
         kthen (set_disk (\<lambda>d. d\<lparr>v_free := (v_free d)(i := 0)\<rparr>)) (ret (Some (int i)))
       else ret None)))
     (\<lambda>r. ret (case r of None \<Rightarrow> -1 | Some i \<Rightarrow> i))"

definition free_desc :: "int \<Rightarrow> (unit, 'z disk_state_scheme) M" where
  "free_desc i =
     (if i \<ge> int NUM then panic ''free_desc 1'' else
      if i < 0 then fault ''disk.free'' else
      kbind (get_disk v_free) (\<lambda>free.
      if free (nat i) \<noteq> 0 then panic ''free_desc 2'' else
      kthen (set_disk (\<lambda>d. d\<lparr>v_desc := (v_desc d)(nat i := \<lparr>vd_addr = DNull, vd_len = 0, vd_flags = 0,
        vd_next = 0\<rparr>)\<rparr>)) (
      kthen (set_disk (\<lambda>d. d\<lparr>v_free := (v_free d)(nat i := 1)\<rparr>))
      (wakeup ChDiskFree))))"

text \<open>Every iteration frees a descriptor that was not free, so \<open>NUM + 1\<close> iterations always suffice.\<close>

definition free_chain_body :: "int \<Rightarrow> (int + unit, 'z disk_state_scheme) M" where
  "free_chain_body i =
     kbind (get_disk (\<lambda>d. v_desc d (nat i))) (\<lambda>e.
     kthen (free_desc i)
     (if vd_flags e AND VRING_DESC_F_NEXT \<noteq> 0 then ret (Inl (uint (vd_next e))) else ret (Inr ())))"

definition free_chain :: "int \<Rightarrow> (unit, 'z disk_state_scheme) M" where
  "free_chain i = kloop (NUM + 1) free_chain_body i"

text \<open>The array \<open>idx\<close> when the function returns 0, \<open>None\<close> when it returns -1.\<close>

definition alloc3_desc :: "(int list option, 'z disk_state_scheme) M" where
  "alloc3_desc = kloop 4 (\<lambda>idx.
     if length idx < 3 then
       kbind alloc_desc (\<lambda>i.
       if i < 0 then kthen (kforall idx free_desc) (ret (Inr None))
       else ret (Inl (idx @ [i])))
     else ret (Inr (Some idx))) []"

definition virtio_format :: "nat \<Rightarrow> bool \<Rightarrow> u64 \<Rightarrow> nat \<Rightarrow> nat \<Rightarrow> nat \<Rightarrow> (unit, 'z disk_state_scheme) M" where
  "virtio_format b write sector i0 i1 i2 =
     kthen (set_disk (\<lambda>d. d\<lparr>v_ops := (v_ops d)(i0 := \<lparr>br_type = if write then VIRTIO_BLK_T_OUT else VIRTIO_BLK_T_IN,
       br_reserved = 0, br_sector = sector\<rparr>)\<rparr>)) (
     kthen (set_disk (\<lambda>d. d\<lparr>v_desc := (v_desc d)(i0 := \<lparr>vd_addr = DOps i0, vd_len = 16,
       vd_flags = VRING_DESC_F_NEXT, vd_next = of_nat i1\<rparr>)\<rparr>)) (
     kthen (set_disk (\<lambda>d. d\<lparr>v_desc := (v_desc d)(i1 := \<lparr>vd_addr = DData b, vd_len = of_nat BSIZE,
       vd_flags = (if write then 0 else VRING_DESC_F_WRITE) OR VRING_DESC_F_NEXT, vd_next = of_nat i2\<rparr>)\<rparr>)) (
     kthen (set_disk (\<lambda>d. d\<lparr>v_info := (v_info d)(i0 := (v_info d i0)\<lparr>di_status := 0xff\<rparr>)\<rparr>))
     (set_disk (\<lambda>d. d\<lparr>v_desc := (v_desc d)(i2 := \<lparr>vd_addr = DStatus i0, vd_len = 1,
       vd_flags = VRING_DESC_F_WRITE, vd_next = 0\<rparr>)\<rparr>)))))"

definition virtio_submit :: "nat \<Rightarrow> nat \<Rightarrow> (unit, 'z disk_state_scheme) M" where
  "virtio_submit b i0 =
     kthen (set_buf b (\<lambda>x. x\<lparr>b_disk := 1\<rparr>)) (
     kthen (set_disk (\<lambda>d. d\<lparr>v_info := (v_info d)(i0 := (v_info d i0)\<lparr>di_b := Some b\<rparr>)\<rparr>)) (
     kthen (set_disk (\<lambda>d. d\<lparr>v_avail := (v_avail d)\<lparr>av_ring := (av_ring (v_avail d))
       (unat (av_idx (v_avail d)) mod NUM := of_nat i0)\<rparr>\<rparr>)) (
     kthen (set_disk (\<lambda>d. d\<lparr>v_avail := (v_avail d)\<lparr>av_idx := av_idx (v_avail d) + 1\<rparr>\<rparr>))
     (vio_write VIRTIO_MMIO_QUEUE_NOTIFY 0))))"

definition virtio_disk_intr_body :: "unit \<Rightarrow> (unit + unit, 'z disk_state_scheme) M" where
  "virtio_disk_intr_body _ =
     kbind (get_disk (\<lambda>d. d)) (\<lambda>d.
     if v_used_idx d = us_idx (v_used d) then ret (Inr ()) else
     let id = unat (ue_id (us_ring (v_used d) (unat (v_used_idx d) mod NUM))) in
     if id \<ge> NUM then fault ''disk.info'' else
     if di_status (v_info d id) \<noteq> 0 then panic ''virtio_disk_intr status'' else
     (case di_b (v_info d id) of None \<Rightarrow> fault ''disk.info[id].b'' | Some b \<Rightarrow>
       kthen (set_buf b (\<lambda>x. x\<lparr>b_disk := 0\<rparr>)) (
       kthen (wakeup (ChBuf b)) (
       kthen (set_disk (\<lambda>d. d\<lparr>v_used_idx := v_used_idx d + 1\<rparr>))
       (ret (Inl ()))))))"

text \<open>The index is 16 bits wide, so the loop ends within \<open>2 ^ 16\<close> iterations.\<close>

definition virtio_disk_intr :: "(unit, 'z disk_state_scheme) M" where
  "virtio_disk_intr =
     kthen (acquire LkDisk) (
     kbind (vio_read VIRTIO_MMIO_INTERRUPT_STATUS) (\<lambda>v.
     kthen (vio_write VIRTIO_MMIO_INTERRUPT_ACK (v AND 0x3)) (
     kthen (kloop (2 ^ 16 + 1) virtio_disk_intr_body ())
     (release LkDisk))))"

section \<open>The device\<close>

text \<open>The device's side of the protocol (virtio 1.1, sections 2.6 and 5.2): it takes the chains the
  available ring names, in order, performs each request on its data buffer, stores the status byte and
  adds the chain to the used ring.\<close>

definition device_chain :: "nat \<Rightarrow> (unit, 'z disk_state_scheme) M" where
  "device_chain i0 =
     kbind (gets (\<lambda>s. s)) (\<lambda>s.
     let d = vdisk s; d0 = v_desc d i0; d1 = v_desc d (unat (vd_next d0)); d2 = v_desc d (unat (vd_next d1)) in
     case (vd_addr d0, vd_addr d1, vd_addr d2) of
       (DOps r, DData b, DStatus i) \<Rightarrow>
         (case blkdev s (v_ops d r) (b_data (bufs s b)) (dimg s) of (st, data, img) \<Rightarrow>
           kthen (modify (\<lambda>s. s\<lparr>dimg := img,
             dhist := if br_type (v_ops d r) = VIRTIO_BLK_T_OUT then dimg s # dhist s else dhist s\<rparr>)) (
           kthen (kwhen (vd_flags d1 AND VRING_DESC_F_WRITE \<noteq> 0) (set_buf b (\<lambda>x. x\<lparr>b_data := data\<rparr>))) (
           kthen (set_disk (\<lambda>d. d\<lparr>v_info := (v_info d)(i := (v_info d i)\<lparr>di_status := st\<rparr>)\<rparr>))
           (set_disk (\<lambda>d. d\<lparr>v_used := (v_used d)\<lparr>us_ring := (us_ring (v_used d))(unat (us_idx (v_used d)) mod NUM :=
             \<lparr>ue_id = of_nat i0, ue_len = 0\<rparr>), us_idx := us_idx (v_used d) + 1\<rparr>\<rparr>)))))
     | _ \<Rightarrow> fault ''bad descriptor chain'')"

definition device_serve :: "(unit, 'z disk_state_scheme) M" where
  "device_serve = kloop (NUM + 1) (\<lambda>_.
     kbind (gets (\<lambda>s. s)) (\<lambda>s.
     if dev_avail s = av_idx (v_avail (vdisk s)) then ret (Inr ()) else
     kthen (device_chain (unat (av_ring (v_avail (vdisk s)) (unat (dev_avail s) mod NUM)))) (
     kthen (modify (\<lambda>s. s\<lparr>dev_avail := dev_avail s + 1\<rparr>))
     (ret (Inl ()))))) ()"

text \<open>The contract of the block device: a read fills the buffer from the two sectors of the block, a
  write stores the buffer there; both report success.\<close>

definition blk_ok :: "(virtio_blk_req \<Rightarrow> u8 list \<Rightarrow> dimage \<Rightarrow> u8 \<times> u8 list \<times> dimage) \<Rightarrow> bool" where
  "blk_ok dv \<longleftrightarrow> (\<forall>r data img. length data = BSIZE \<longrightarrow>
     (br_type r = VIRTIO_BLK_T_IN \<longrightarrow> dv r data img = (0, img (br_sector r) @ img (br_sector r + 1), img)) \<and>
     (br_type r = VIRTIO_BLK_T_OUT \<longrightarrow> (\<exists>data'. dv r data img =
        (0, data', img(br_sector r := take 512 data, br_sector r + 1 := drop 512 data)))))"

section \<open>A disk operation\<close>

text \<open>The wait for the interrupt: the process sleeps, the device serves the queue and interrupts, the
  handler wakes the process. The device serves everything queued, so a second look at \<open>b->disk\<close> ends the
  loop.\<close>

definition virtio_wait :: "nat \<Rightarrow> (unit, 'z disk_state_scheme) M" where
  "virtio_wait b = kloop 2 (\<lambda>_.
     kbind (get_buf b b_disk) (\<lambda>d.
     if d = 1 then kthen (sleep_until (ChBuf b) LkDisk (kthen device_serve virtio_disk_intr)) (ret (Inl ()))
     else ret (Inr ()))) ()"

definition virtio_disk_rw :: "nat \<Rightarrow> bool \<Rightarrow> (unit, 'z disk_state_scheme) M" where
  "virtio_disk_rw b write =
     kbind (get_buf b b_blockno) (\<lambda>blockno.
     let sector = ucast (blockno * (of_nat BSIZE div 512)) in
     kthen (acquire LkDisk) (
     kbind alloc3_desc (\<lambda>r. case r of
       None \<Rightarrow> sleep ChDiskFree LkDisk
     | Some idx \<Rightarrow>
       kthen (virtio_format b write sector (nat (idx ! 0)) (nat (idx ! 1)) (nat (idx ! 2))) (
       kthen (virtio_submit b (nat (idx ! 0))) (
       kthen (virtio_wait b) (
       kthen (set_disk (\<lambda>d. d\<lparr>v_info := (v_info d)(nat (idx ! 0) := (v_info d (nat (idx ! 0)))\<lparr>di_b := None\<rparr>)\<rparr>)) (
       kthen (free_chain (idx ! 0))
       (release LkDisk))))))))"

section \<open>Running a disk operation\<close>

definition sector_of :: "u32 \<Rightarrow> u64" where
  "sector_of bn = ucast (bn * 2)"

definition blk :: "dimage \<Rightarrow> u32 \<Rightarrow> u8 list" where
  "blk img bn = img (sector_of bn) @ img (sector_of bn + 1)"

definition blk_upd :: "dimage \<Rightarrow> u32 \<Rightarrow> u8 list \<Rightarrow> dimage" where
  "blk_upd img bn data = img(sector_of bn := take 512 data, sector_of bn + 1 := drop 512 data)"

text \<open>No request is in flight and every descriptor is free.\<close>

definition disk_idle :: "'z disk_state_scheme \<Rightarrow> bool" where
  "disk_idle s \<longleftrightarrow> (\<forall>i < NUM. v_free (vdisk s) i = 1) \<and> dev_avail s = av_idx (v_avail (vdisk s)) \<and>
     v_used_idx (vdisk s) = us_idx (v_used (vdisk s)) \<and> blk_ok (blkdev s)"

lemma runs_disk_access [simp]:
  "runs (set_disk f) s P = P () (s\<lparr>vdisk := f (vdisk s)\<rparr>)" "runs (get_disk g) s Q = Q (g (vdisk s)) s"
  "runs (set_buf b h) s P = P () (s\<lparr>bufs := (bufs s)(b := h (bufs s b))\<rparr>)" "runs (get_buf b k) s R = R (k (bufs s b)) s"
  "runs (vio_write r v) s P = P () (s\<lparr>bus_log := BusWrite (VIRTIO0 + r) v # bus_log s\<rparr>)"
  "runs (vio_read r) s V = V (bus s (bus_log s) (VIRTIO0 + r)) (s\<lparr>bus_log := BusRead (VIRTIO0 + r) # bus_log s\<rparr>)"
  by (simp_all add: set_disk_def get_disk_def set_buf_def get_buf_def vio_write_def vio_read_def)

lemma NUM_pos [simp]: "0 < NUM" "Suc 0 < NUM" "2 < NUM" "NUM \<noteq> 0"
  by (simp_all add: NUM_def)

lemma runs_alloc_desc:
  assumes "k < NUM" "v_free (vdisk s) k \<noteq> 0" "\<And>i. i < k \<Longrightarrow> v_free (vdisk s) i = 0"
  shows "runs alloc_desc s P = P (int k) (s\<lparr>vdisk := (vdisk s)\<lparr>v_free := (v_free (vdisk s))(k := 0)\<rparr>\<rparr>)"
proof -
  let ?body = "\<lambda>i. kbind (get_disk v_free) (\<lambda>free. if free i \<noteq> 0 then
    kthen (set_disk (\<lambda>d. d\<lparr>v_free := (v_free d)(i := 0)\<rparr>)) (ret (Some (int i))) else ret None)"
  have "kfor [0..<NUM] ?body s = Ok (Some (int k)) (s\<lparr>vdisk := (vdisk s)\<lparr>v_free := (v_free (vdisk s))(k := 0)\<rparr>\<rparr>)"
    by (rule kfor_first [where k = k]) (use assms in \<open>simp_all add: get_disk_def set_disk_def\<close>)
  then show ?thesis by (simp add: alloc_desc_def runs_def)
qed

lemma runs_alloc3_desc:
  assumes "\<forall>i < NUM. v_free (vdisk s) i = 1"
  shows "runs alloc3_desc s P = P (Some [0, 1, 2])
    (s\<lparr>vdisk := (vdisk s)\<lparr>v_free := (v_free (vdisk s))(0 := 0, 1 := 0, 2 := 0)\<rparr>\<rparr>)"
proof -
  have "\<And>i :: nat. i < 2 \<Longrightarrow> i = 0 \<or> i = 1" by arith
  then show ?thesis
    using assms
    by (simp add: alloc3_desc_def runs_kloop_step runs_alloc_desc [where k = 0] runs_alloc_desc [where k = 1]
        runs_alloc_desc [where k = 2] NUM_def)
qed

lemma runs_free_desc:
  assumes "others_idle (hw s)" "0 \<le> i" "i < int NUM" "v_free (vdisk s) (nat i) = 0"
  shows "runs (free_desc i) s P = P () (s\<lparr>vdisk := (vdisk s)\<lparr>v_desc := (v_desc (vdisk s))(nat i := zero_desc),
      v_free := (v_free (vdisk s))(nat i := 1)\<rparr>, procs := wake_all (c_proc (cur_cpu (hw s))) ChDiskFree (procs s)\<rparr>)"
  using assms by (simp add: free_desc_def runs_wakeup zero_desc_def)

text \<open>One request, formatted in descriptors 0, 1 and 2, is in the queue.\<close>

definition pending :: "'z disk_state_scheme \<Rightarrow> nat \<Rightarrow> bool \<Rightarrow> u32 \<Rightarrow> bool" where
  "pending s b w bn \<longleftrightarrow> (let d = vdisk s in
     v_desc d 0 = \<lparr>vd_addr = DOps 0, vd_len = 16, vd_flags = VRING_DESC_F_NEXT, vd_next = 1\<rparr> \<and>
     v_desc d 1 = \<lparr>vd_addr = DData b, vd_len = of_nat BSIZE,
       vd_flags = (if w then 0 else VRING_DESC_F_WRITE) OR VRING_DESC_F_NEXT, vd_next = 2\<rparr> \<and>
     v_desc d 2 = \<lparr>vd_addr = DStatus 0, vd_len = 1, vd_flags = VRING_DESC_F_WRITE, vd_next = 0\<rparr> \<and>
     v_ops d 0 = \<lparr>br_type = if w then VIRTIO_BLK_T_OUT else VIRTIO_BLK_T_IN, br_reserved = 0, br_sector = sector_of bn\<rparr> \<and>
     di_b (v_info d 0) = Some b \<and> av_ring (v_avail d) (unat (dev_avail s) mod NUM) = 0 \<and>
     av_idx (v_avail d) = dev_avail s + 1 \<and> v_used_idx d = us_idx (v_used d))"

definition served :: "nat \<Rightarrow> bool \<Rightarrow> u32 \<Rightarrow> 'z disk_state_scheme \<Rightarrow> 'z disk_state_scheme" where
  "served b w bn s = s\<lparr>dimg := if w then blk_upd (dimg s) bn (b_data (bufs s b)) else dimg s,
     dhist := if w then dimg s # dhist s else dhist s,
     bufs := if w then bufs s else (bufs s)(b := (bufs s b)\<lparr>b_data := blk (dimg s) bn\<rparr>),
     vdisk := (vdisk s)\<lparr>v_info := (v_info (vdisk s))(0 := (v_info (vdisk s) 0)\<lparr>di_status := 0\<rparr>),
       v_used := (v_used (vdisk s))\<lparr>us_ring := (us_ring (v_used (vdisk s)))(unat (us_idx (v_used (vdisk s))) mod NUM :=
             \<lparr>ue_id = 0, ue_len = 0\<rparr>), us_idx := us_idx (v_used (vdisk s)) + 1\<rparr>\<rparr>,
     dev_avail := dev_avail s + 1\<rparr>"

lemma blk_types [simp]: "VIRTIO_BLK_T_IN \<noteq> VIRTIO_BLK_T_OUT" "VIRTIO_BLK_T_OUT \<noteq> VIRTIO_BLK_T_IN"
  by (simp_all add: VIRTIO_BLK_T_IN_def VIRTIO_BLK_T_OUT_def)

lemma vring_flags [simp]:
  "VRING_DESC_F_NEXT AND VRING_DESC_F_WRITE = 0" "(VRING_DESC_F_WRITE OR VRING_DESC_F_NEXT) AND VRING_DESC_F_WRITE \<noteq> 0"
  "(VRING_DESC_F_WRITE OR VRING_DESC_F_NEXT) AND VRING_DESC_F_NEXT \<noteq> 0" "VRING_DESC_F_NEXT \<noteq> 0"
  "VRING_DESC_F_WRITE AND VRING_DESC_F_NEXT = 0" "VRING_DESC_F_WRITE \<noteq> 0"
  by (simp_all add: VRING_DESC_F_NEXT_def VRING_DESC_F_WRITE_def)

lemma blk_okD:
  assumes "blk_ok dv" "length data = BSIZE"
  shows "br_type r = VIRTIO_BLK_T_IN \<Longrightarrow> dv r data img = (0, img (br_sector r) @ img (br_sector r + 1), img)"
    "br_type r = VIRTIO_BLK_T_OUT \<Longrightarrow> \<exists>data'. dv r data img =
      (0, data', img(br_sector r := take 512 data, br_sector r + 1 := drop 512 data))"
  using assms unfolding blk_ok_def by blast+

lemma runs_device_serve:
  assumes "pending s b w bn" "blk_ok (blkdev s)" "length (b_data (bufs s b)) = BSIZE"
  shows "runs device_serve s P = P () (served b w bn s)"
proof -
  note p = assms(1) [unfolded pending_def Let_def]
  have [simp]: "dev_avail s \<noteq> dev_avail s + 1" by simp
  show ?thesis
  proof (cases w)
    case True
    obtain data' where "blkdev s (v_ops (vdisk s) 0) (b_data (bufs s b)) (dimg s) =
        (0, data', blk_upd (dimg s) bn (b_data (bufs s b)))"
      using blk_okD(2) [OF assms(2,3), of "v_ops (vdisk s) 0" "dimg s"] p True by (auto simp: blk_upd_def)
    then show ?thesis using p True
      by (simp add: device_serve_def device_chain_def runs_kloop_step Let_def served_def)
  next
    case False
    have "blkdev s (v_ops (vdisk s) 0) (b_data (bufs s b)) (dimg s) = (0, blk (dimg s) bn, dimg s)"
      using blk_okD(1) [OF assms(2,3), of "v_ops (vdisk s) 0" "dimg s"] p False by (auto simp: blk_def)
    then show ?thesis using p False
      by (simp add: device_serve_def device_chain_def runs_kloop_step Let_def served_def)
  qed
qed

lemma runs_intr_loop:
  assumes "others_idle (hw s)" "v_used_idx d + 1 = us_idx (v_used d)" "vdisk s = d"
    "ue_id (us_ring (v_used d) (unat (v_used_idx d) mod NUM)) = 0" "di_status (v_info d 0) = 0" "di_b (v_info d 0) = Some b"
    and "Suc 0 < n"
  shows "runs (kloop n virtio_disk_intr_body ()) s P = P () (s\<lparr>bufs := (bufs s)(b := (bufs s b)\<lparr>b_disk := 0\<rparr>),
    procs := wake_all (c_proc (cur_cpu (hw s))) (ChBuf b) (procs s), vdisk := d\<lparr>v_used_idx := v_used_idx d + 1\<rparr>\<rparr>)"
proof -
  have [simp]: "v_used_idx d \<noteq> us_idx (v_used d)" "us_idx (v_used d) = v_used_idx d + 1" using assms(2) by auto
  have n: "0 < n" "0 < n - 1" using assms(7) by simp_all
  have [simp]: "us_idx (v_used d) \<noteq> v_used_idx d" by simp
  show ?thesis using assms(1,3-6) n
    by (simp add: runs_kloop_step virtio_disk_intr_body_def Let_def runs_wakeup)
qed

text \<open>The device serves the request and its interrupt is handled, while the scheduler runs.\<close>

definition completed :: "nat \<Rightarrow> bool \<Rightarrow> u32 \<Rightarrow> 'z disk_state_scheme \<Rightarrow> 'z disk_state_scheme" where
  "completed b w bn s = (let t = served b w bn s in
     t\<lparr>bus_log := BusWrite (VIRTIO0 + VIRTIO_MMIO_INTERRUPT_ACK) (bus s (bus_log s) (VIRTIO0 + VIRTIO_MMIO_INTERRUPT_STATUS) AND 3)
         # BusRead (VIRTIO0 + VIRTIO_MMIO_INTERRUPT_STATUS) # bus_log s,
       bufs := (bufs t)(b := (bufs t b)\<lparr>b_disk := 0\<rparr>),
       procs := wake_all (c_proc (cur_cpu (hw s))) (ChBuf b) (procs s),
       vdisk := (vdisk t)\<lparr>v_used_idx := v_used_idx (vdisk t) + 1\<rparr>\<rparr>)"

lemma served_simps [simp]:
  "hw (served b w bn s) = hw s" "procs (served b w bn s) = procs s" "bus (served b w bn s) = bus s"
  "bus_log (served b w bn s) = bus_log s"
  by (simp_all add: served_def)

lemma runs_interrupt:
  assumes p: "pending s b w bn" "blk_ok (blkdev s)" "length (b_data (bufs s b)) = BSIZE"
    and h: "all_idle (hw s)" "lock_idle (hw s) LkDisk"
  shows "runs (kthen device_serve virtio_disk_intr) s P = P () (completed b w bn s)"
proof -
  have oi: "others_idle (acq LkDisk (hw s))" by (rule others_idle_acq [OF h(1)]) simp
  have "hart_ok (hw s)" using h(1) by (simp add: all_idle_def)
  then show ?thesis
    using h p
    by (simp add: runs_device_serve virtio_disk_intr_def)
       (subst runs_intr_loop [where b = b, OF _ _ refl];
        simp add: oi served_def pending_def Let_def completed_def runs_intr_loop)
qed

text \<open>The state in which the process goes on when it is woken.\<close>

definition waited :: "nat \<Rightarrow> nat \<Rightarrow> bool \<Rightarrow> u32 \<Rightarrow> 'z disk_state_scheme \<Rightarrow> 'z disk_state_scheme \<Rightarrow> bool" where
  "waited p b w bn s t \<longleftrightarrow> (\<exists>ps bl. wakes (procs s) ps \<and>
     t = (served b w bn s)\<lparr>procs := ps, bus_log := bl,
       bufs := (bufs (served b w bn s))(b := (bufs (served b w bn s) b)\<lparr>b_disk := 0\<rparr>),
       vdisk := (vdisk (served b w bn s))\<lparr>v_used_idx := v_used_idx (vdisk (served b w bn s)) + 1\<rparr>\<rparr>)"

lemma wakes_resumed:
  assumes "p_state (ps p) = RUNNING" "p_chan (ps p) = None"
  shows "wakes ps ((wake_all None ch (ps(p := (ps p)\<lparr>p_chan := Some ch, p_state := SLEEPING\<rparr>)))
    (p := (wake_all None ch (ps(p := (ps p)\<lparr>p_chan := Some ch, p_state := SLEEPING\<rparr>)) p)\<lparr>p_state := RUNNING, p_chan := None\<rparr>))"
  using assms by (auto simp: wakes_def wake_all_def woken_def intro!: proc.equality)

lemma runs_virtio_wait:
  assumes p: "pending s b w bn" "blk_ok (blkdev s)" "length (b_data (bufs s b)) = BSIZE" "b_disk (bufs s b) = 1"
    and c: "hart_ok (hw s)" "held (hw s) LkDisk" "noff (cur_cpu (hw s)) = 1" "\<And>q. lock_idle (hw s) (LkProc q)"
      "c_proc (cur_cpu (hw s)) = Some p" "p < NPROC" "p_state (procs s p) = RUNNING" "p_chan (procs s p) = None"
    and P: "\<And>t. waited p b w bn s t \<Longrightarrow> P () t"
  shows "runs (virtio_wait b) s P"
proof -
  let ?sh = "sched_hart p LkDisk (hw s)"
  let ?s = "s\<lparr>hw := ?sh, procs := (procs s)(p := (procs s p)\<lparr>p_chan := Some (ChBuf b), p_state := SLEEPING\<rparr>)\<rparr>"
  note sh = sched_hart_simps [OF c(1,2) _ c(3,4), simplified]
  have pend: "pending ?s b w bn" using p(1) by (simp add: pending_def)
  have idle: "all_idle ?sh" "lock_idle ?sh LkDisk" using sh(1,4) c(4) by (simp_all add: all_idle_def)
  let ?Q = "\<lambda>_ t. waited p b w bn s t \<and> b_disk (bufs t b) = 0"
  have "runs (sleep_until (ChBuf b) LkDisk (kthen device_serve virtio_disk_intr)) s ?Q"
  proof (rule runs_sleep_until [OF c(1,2) _ c(3,4,5)])
    let ?t = "completed b w bn ?s"
    have "p_state (procs ?t p) = RUNNABLE"
      using c(6) sh(2) by (simp add: completed_def wake_all_def woken_def Let_def)
    moreover have "waited p b w bn s (?t\<lparr>procs := (procs ?t)(p := (procs ?t p)\<lparr>p_state := RUNNING, p_chan := None\<rparr>), hw := hw s\<rparr>)"
      using wakes_resumed [of "procs s" p "ChBuf b", OF c(7,8)] sh(2)
      by (auto simp: waited_def completed_def Let_def served_def intro!: exI disk_state.equality)
    ultimately show "runs (kthen device_serve virtio_disk_intr) ?s (\<lambda>_ t. hw t = ?sh \<and> p_state (procs t p) = RUNNABLE \<and>
        ?Q () (t\<lparr>procs := (procs t)(p := (procs t p)\<lparr>p_state := RUNNING, p_chan := None\<rparr>), hw := hw s\<rparr>))"
      using runs_interrupt [OF pend, of "\<lambda>_ t. hw t = ?sh \<and> p_state (procs t p) = RUNNABLE \<and>
        ?Q () (t\<lparr>procs := (procs t)(p := (procs t p)\<lparr>p_state := RUNNING, p_chan := None\<rparr>), hw := hw s\<rparr>)"] p(2,3) idle
      by (simp add: completed_def Let_def)
  qed simp
  then have "runs (sleep_until (ChBuf b) LkDisk (kthen device_serve virtio_disk_intr)) s
      (\<lambda>_ t. b_disk (bufs t b) \<noteq> 1 \<and> P () t)"
    by (rule runs_mono) (simp add: P)
  then show ?thesis using p(4)
    by (simp add: virtio_wait_def runs_kloop_step del: runs_kthen) (simp add: runs_mono)
qed

text \<open>The three descriptors of a request are freed again.\<close>

definition freed :: "nat \<Rightarrow> 'z disk_state_scheme \<Rightarrow> 'z disk_state_scheme" where
  "freed i s = s\<lparr>vdisk := (vdisk s)\<lparr>v_desc := (v_desc (vdisk s))(i := zero_desc), v_free := (v_free (vdisk s))(i := 1)\<rparr>,
     procs := wake_all (c_proc (cur_cpu (hw s))) ChDiskFree (procs s)\<rparr>"

lemma runs_free_chain_step:
  assumes "others_idle (hw s)" "i < NUM" "v_free (vdisk s) i = 0" "0 < n"
  shows "runs (kloop n free_chain_body (int i)) s P =
    (if vd_flags (v_desc (vdisk s) i) AND VRING_DESC_F_NEXT \<noteq> 0
     then runs (kloop (n - 1) free_chain_body (uint (vd_next (v_desc (vdisk s) i)))) (freed i s) P
     else P () (freed i s))"
  unfolding runs_kloop_step [OF assms(4)] using assms(1-3)
  by (simp add: free_chain_body_def runs_free_desc freed_def)

lemma freed_simps [simp]:
  "hw (freed i s) = hw s" "v_free (vdisk (freed i s)) = (v_free (vdisk s))(i := 1)"
  "v_desc (vdisk (freed i s)) = (v_desc (vdisk s))(i := zero_desc)" "wakes ps (procs s) \<Longrightarrow> wakes ps (procs (freed i s))"
  by (auto simp: freed_def intro: wakes_trans)

lemma runs_free_chain:
  assumes "others_idle (hw s)" "v_free d 0 = 0" "v_free d 1 = 0" "v_free d 2 = 0" "vdisk s = d"
    "vd_flags (v_desc d 0) AND VRING_DESC_F_NEXT \<noteq> 0" "vd_next (v_desc d 0) = 1"
    "vd_flags (v_desc d 1) AND VRING_DESC_F_NEXT \<noteq> 0" "vd_next (v_desc d 1) = 2"
    "vd_flags (v_desc d 2) AND VRING_DESC_F_NEXT = 0"
    and P: "\<And>ps. wakes (procs s) ps \<Longrightarrow> P () (s\<lparr>procs := ps, vdisk := d\<lparr>v_free := (v_free d)(0 := 1, 1 := 1, 2 := 1),
      v_desc := (v_desc d)(0 := zero_desc, 1 := zero_desc, 2 := zero_desc)\<rparr>\<rparr>)"
  shows "runs (free_chain 0) s P"
proof -
  let ?t = "freed 2 (freed 1 (freed 0 s))"
  have "?t = s\<lparr>procs := procs ?t, vdisk := d\<lparr>v_free := (v_free d)(0 := 1, 1 := 1, 2 := 1),
      v_desc := (v_desc d)(0 := zero_desc, 1 := zero_desc, 2 := zero_desc)\<rparr>\<rparr>"
    using assms(5) by (simp add: freed_def)
  moreover have "wakes (procs s) (procs ?t)" by simp
  ultimately have "P () ?t" using P [of "procs ?t"] by simp
  then show ?thesis
    using assms(1-10) runs_free_chain_step [of s 0 "NUM + 1" P] runs_free_chain_step [of "freed 0 s" 1 NUM P]
      runs_free_chain_step [of "freed 1 (freed 0 s)" 2 "NUM - 1" P]
    by (simp add: free_chain_def)
qed

definition disk_done :: "nat \<Rightarrow> bool \<Rightarrow> 'z disk_state_scheme \<Rightarrow> 'z disk_state_scheme \<Rightarrow> bool" where
  "disk_done b w s t \<longleftrightarrow> disk_idle t \<and> wakes (procs s) (procs t) \<and>
     t = s\<lparr>vdisk := vdisk t, procs := procs t, bus_log := bus_log t, dev_avail := dev_avail t,
       bufs := (bufs s)(b := (bufs s b)\<lparr>b_disk := 0,
         b_data := if w then b_data (bufs s b) else blk (dimg s) (b_blockno (bufs s b))\<rparr>),
       dimg := if w then blk_upd (dimg s) (b_blockno (bufs s b)) (b_data (bufs s b)) else dimg s,
       dhist := if w then dimg s # dhist s else dhist s\<rparr>"

text \<open>The state when the request of process \<open>p\<close> is in the queue, and the driver's part of the state when the
  request has been served and the process goes on.\<close>

definition submitted :: "nat \<Rightarrow> bool \<Rightarrow> u64 \<Rightarrow> 'z disk_state_scheme \<Rightarrow> 'z disk_state_scheme" where
  "submitted b w sector s = s\<lparr>bufs := (bufs s)(b := (bufs s b)\<lparr>b_disk := 1\<rparr>),
     vdisk := (vdisk s)\<lparr>
       v_ops := (v_ops (vdisk s))(0 := \<lparr>br_type = if w then VIRTIO_BLK_T_OUT else VIRTIO_BLK_T_IN, br_reserved = 0,
         br_sector = sector\<rparr>),
       v_desc := (v_desc (vdisk s))(
         0 := \<lparr>vd_addr = DOps 0, vd_len = 16, vd_flags = VRING_DESC_F_NEXT, vd_next = 1\<rparr>,
         1 := \<lparr>vd_addr = DData b, vd_len = of_nat BSIZE, vd_flags = (if w then 0 else VRING_DESC_F_WRITE) OR VRING_DESC_F_NEXT,
           vd_next = 2\<rparr>,
         2 := \<lparr>vd_addr = DStatus 0, vd_len = 1, vd_flags = VRING_DESC_F_WRITE, vd_next = 0\<rparr>),
       v_info := (v_info (vdisk s))(0 := (v_info (vdisk s) 0)\<lparr>di_status := 255, di_b := Some b\<rparr>),
       v_avail := (v_avail (vdisk s))\<lparr>av_ring := (av_ring (v_avail (vdisk s)))
           (unat (av_idx (v_avail (vdisk s))) mod NUM := 0), av_idx := av_idx (v_avail (vdisk s)) + 1\<rparr>\<rparr>,
     bus_log := BusWrite (VIRTIO0 + VIRTIO_MMIO_QUEUE_NOTIFY) 0 # bus_log s\<rparr>"

lemma runs_submit:
  "runs (virtio_format b w sector 0 1 2) s (\<lambda>_ t. runs (virtio_submit b 0) t P) = P () (submitted b w sector s)"
  by (simp add: virtio_format_def virtio_submit_def submitted_def)

lemma pending_submitted:
  "dev_avail s = av_idx (v_avail (vdisk s)) \<Longrightarrow> v_used_idx (vdisk s) = us_idx (v_used (vdisk s)) \<Longrightarrow>
   pending (submitted b w (sector_of bn) s) b w bn"
  by (simp add: pending_def submitted_def)

lemma submitted_simps [simp]:
  "hw (submitted b w sec s) = hw s" "procs (submitted b w sec s) = procs s" "blkdev (submitted b w sec s) = blkdev s"
  "bufs (submitted b w sec s) = (bufs s)(b := (bufs s b)\<lparr>b_disk := 1\<rparr>)"
  by (simp_all add: submitted_def)

lemma waited_simps:
  assumes "waited p b w bn s t"
  shows "hw t = hw s" "wakes (procs s) (procs t)" "v_free (vdisk t) = v_free (vdisk s)" "v_desc (vdisk t) = v_desc (vdisk s)"
    "blkdev t = blkdev s" "v_avail (vdisk t) = v_avail (vdisk s)" "dev_avail t = dev_avail s + 1"
    "us_idx (v_used (vdisk t)) = us_idx (v_used (vdisk s)) + 1" "v_used_idx (vdisk t) = v_used_idx (vdisk s) + 1"
  using assms by (auto simp: waited_def served_def)

lemma waited_submitted:
  assumes "waited p b w (b_blockno (bufs s b)) (submitted b w sec (s\<lparr>hw := h, vdisk := vd\<rparr>)) t"
  shows "t\<lparr>procs := ps, vdisk := vd', hw := hw s\<rparr> = s\<lparr>vdisk := vd', procs := ps, bus_log := bus_log t, dev_avail := dev_avail s + 1,
       bufs := (bufs s)(b := (bufs s b)\<lparr>b_disk := 0,
         b_data := if w then b_data (bufs s b) else blk (dimg s) (b_blockno (bufs s b))\<rparr>),
       dimg := if w then blk_upd (dimg s) (b_blockno (bufs s b)) (b_data (bufs s b)) else dimg s,
       dhist := if w then dimg s # dhist s else dhist s\<rparr>"
  using assms by (intro disk_state.equality) (auto simp: waited_def served_def submitted_def)

lemma runs_virtio_disk_rw:
  assumes "ctx s p" "disk_idle s" "length (b_data (bufs s b)) = BSIZE"
    and P: "\<And>t. disk_done b w s t \<Longrightarrow> P () t"
  shows "runs (virtio_disk_rw b w) s P"
proof -
  note c = ctx_hart [OF assms(1)] and i = assms(2) [unfolded disk_idle_def]
  let ?bn = "b_blockno (bufs s b)"
  let ?s1 = "s\<lparr>hw := acq LkDisk (hw s), vdisk := (vdisk s)\<lparr>v_free := (v_free (vdisk s))(0 := 0, 1 := 0, 2 := 0)\<rparr>\<rparr>"
  let ?s2 = "submitted b w (sector_of ?bn) ?s1"
  let ?m = "kthen (set_disk (\<lambda>d. d\<lparr>v_info := (v_info d)(0 := (v_info d 0)\<lparr>di_b := None\<rparr>)\<rparr>)) (kthen (free_chain 0) (release LkDisk))"
  have oi: "others_idle (acq LkDisk (hw s))" by (rule others_idle_acq [OF c(4)]) simp
  have sec: "ucast (?bn * (of_nat BSIZE div 512)) = sector_of ?bn" by (simp add: sector_of_def BSIZE_def)
  have wait: "runs (virtio_wait b) ?s2 (\<lambda>_ t. runs ?m t P)"
  proof (rule runs_virtio_wait [where p = p and w = w and bn = ?bn])
    show "pending ?s2 b w ?bn" using i by (intro pending_submitted) simp_all
    fix t assume w: "waited p b w ?bn ?s2 t"
    note ws = waited_simps [OF w]
    define d where "d = (vdisk t)\<lparr>v_info := (v_info (vdisk t))(0 := (v_info (vdisk t) 0)\<lparr>di_b := None\<rparr>)\<rparr>"
    have dd: "v_free d = (v_free (vdisk s))(0 := 0, 1 := 0, 2 := 0)" "v_desc d = v_desc (vdisk ?s2)"
      "v_avail d = v_avail (vdisk ?s2)" "us_idx (v_used d) = us_idx (v_used (vdisk s)) + 1"
      "v_used_idx d = v_used_idx (vdisk s) + 1"
      using ws by (simp_all add: d_def) (simp_all add: submitted_def)
    have "runs (free_chain 0) (t\<lparr>vdisk := d\<rparr>) (\<lambda>_ t. runs (release LkDisk) t P)"
    proof (rule runs_free_chain [where d = d])
      fix ps assume "wakes (procs (t\<lparr>vdisk := d\<rparr>)) ps"
      then have ps: "wakes (procs s) ps" using ws(2) wakes_trans by auto
      let ?d = "d\<lparr>v_free := (v_free d)(0 := 1, 1 := 1, 2 := 1), v_desc := (v_desc d)(0 := zero_desc, 1 := zero_desc, 2 := zero_desc)\<rparr>"
      let ?v = "t\<lparr>procs := ps, vdisk := ?d, hw := hw s\<rparr>"
      have "disk_idle ?v"
        using i dd ws(5,7) by (auto simp: disk_idle_def submitted_def)
      then have "disk_done b w s ?v"
        using waited_submitted [OF w, where vd' = ?d and ps = ps] ps by (auto simp: disk_done_def)
      then show "runs (release LkDisk) (t\<lparr>vdisk := d, procs := ps, vdisk := ?d\<rparr>) P"
        using P [of ?v] c ws(1) by simp
    qed (use ws oi dd in \<open>simp_all add: submitted_def\<close>)
    then show "runs ?m t P" by (simp add: d_def)
  qed (use c i assms(3) in simp_all)
  have "v_free (vdisk (s\<lparr>hw := acq LkDisk (hw s)\<rparr>)) = v_free (vdisk s)" by simp
  then show ?thesis
    unfolding virtio_disk_rw_def runs_kbind runs_disk_access Let_def sec runs_kthen runs_acquire
    apply (subst runs_alloc3_desc)
    using i apply simp
    using wait c(3) by (simp add: runs_submit [simplified] del: submitted_simps)
qed

end
