(* ===== verification/Xv6_Ring.thy ===== *)
theory Xv6_Ring
  imports Main
begin

text \<open>
  Circular doubly linked lists with a head, given by the functions that follow the two links: the
  shape of the buffer cache. \<open>links nx a xs z\<close> says that following \<open>nx\<close> from \<open>a\<close> visits \<open>xs\<close> and
  arrives at \<open>z\<close>.
\<close>

fun links :: "('a \<Rightarrow> 'a) \<Rightarrow> 'a \<Rightarrow> 'a list \<Rightarrow> 'a \<Rightarrow> bool" where
  "links nx a [] z \<longleftrightarrow> nx a = z"
| "links nx a (x # xs) z \<longleftrightarrow> nx a = x \<and> links nx x xs z"

definition ring :: "('a \<Rightarrow> 'a) \<Rightarrow> ('a \<Rightarrow> 'a) \<Rightarrow> 'a \<Rightarrow> 'a list \<Rightarrow> bool" where
  "ring nx pv h xs \<longleftrightarrow> distinct (h # xs) \<and> links nx h xs h \<and> links pv h (rev xs) h"

lemma links_append [simp]: "links nx a (xs @ y # ys) z \<longleftrightarrow> links nx a xs y \<and> links nx y ys z"
  by (induction xs arbitrary: a) auto

lemma links_upd [simp]: "u \<notin> set (a # xs) \<Longrightarrow> links (nx(u := v)) a xs z = links nx a xs z"
  by (induction xs arbitrary: a) auto

lemma links_cong: "(\<And>x. x \<in> set (a # xs) \<Longrightarrow> nx x = ny x) \<Longrightarrow> links nx a xs z = links ny a xs z"
  by (induction xs arbitrary: a) auto

lemma links_first: "links nx a xs z \<Longrightarrow> nx a = hd (xs @ [z])"
  by (cases xs) auto

lemma links_redirect:
  "links nx a xs z \<Longrightarrow> distinct (a # xs) \<Longrightarrow> links (nx(last (a # xs) := c)) a xs c"
  by (induction xs arbitrary: a) (auto split: if_splits)

text \<open>Taking an element out: its predecessor is linked to its successor.\<close>

lemma links_unlink:
  assumes "links nx a (xs @ b # ys) z" "distinct (a # xs @ b # ys)"
  shows "links (nx(last (a # xs) := nx b)) a (xs @ ys) z"
proof -
  let ?n = "nx(last (a # xs) := nx b)"
  have r: "links ?n a xs (nx b)" using assms by (intro links_redirect [of nx a xs b]) auto
  have b: "links nx b ys z" using assms(1) by simp
  have l: "last (a # xs) \<in> set (a # xs)" by (rule last_in_set) simp
  show ?thesis
  proof (cases ys)
    case Nil
    then show ?thesis using r b by simp
  next
    case (Cons y ys')
    then have "last (a # xs) \<notin> set (y # ys')" using l assms(2) by auto
    then show ?thesis using r b Cons by simp
  qed
qed

lemma ring_ends:
  assumes "ring nx pv h (xs @ b # ys)"
  shows "pv b = last (h # xs)" "nx b = last (h # rev ys)"
proof -
  have "links pv b (rev xs) h" "links nx b ys h" using assms by (auto simp: ring_def)
  then have "pv b = hd (rev xs @ [h])" "nx b = hd (ys @ [h])" by (auto dest: links_first)
  then show "pv b = last (h # xs)" "nx b = last (h # rev ys)"
    by (cases xs rule: rev_cases; simp) (use \<open>nx b = hd (ys @ [h])\<close> in \<open>cases ys; simp\<close>)
qed

lemma ring_unlink:
  assumes "ring nx pv h (xs @ b # ys)"
  shows "ring (nx(pv b := nx b)) (pv(nx b := pv b)) h (xs @ ys)"
proof -
  have d: "distinct (h # xs @ b # ys)" "distinct (h # rev ys @ b # rev xs)" using assms by (auto simp: ring_def)
  have "links nx h (xs @ b # ys) h" "links pv h (rev ys @ b # rev xs) h" using assms by (auto simp: ring_def)
  then show ?thesis
    using links_unlink [OF _ d(1), of nx h] links_unlink [OF _ d(2), of pv h] d(1)
    by (simp add: ring_def ring_ends [OF assms])
qed

text \<open>Putting an element at the front.\<close>

lemma ring_insert:
  assumes "ring nx pv h xs" "b \<notin> set (h # xs)"
  shows "ring (nx(b := nx h, h := b)) (pv(b := h, nx h := b)) h (b # xs)"
proof (cases xs)
  case Nil
  then show ?thesis using assms by (auto simp: ring_def)
next
  case (Cons x ys)
  then have "nx h = x" "x \<noteq> h" "x \<noteq> b" using assms by (auto simp: ring_def)
  then show ?thesis using assms Cons by (auto simp: ring_def)
qed

lemma ring_empty: "ring nx pv h [] \<longleftrightarrow> nx h = h \<and> pv h = h"
  by (simp add: ring_def)

end
