(* ===== verification/Xv6_Bio.thy ===== *)
theory Xv6_Bio
  imports Xv6_Virtio Xv6_Ring
begin

text \<open>
  kernel/bio.c: the buffer cache. The buffers form a doubly linked list through \<open>b_prev\<close> and \<open>b_next\<close>
  with \<open>bcache.head\<close>, the entry with index \<open>NBUF\<close>, as its head; the loops over the list are bounded by
  its length.

  Shown: the links always form one ring through all buffers, in the order of last use; a block is in
  at most one buffer; and the cache is transparent: the contents of a block as its users see them are
  those last stored, whatever buffers are recycled.
\<close>

definition NBUF :: nat where "NBUF = 30"

section \<open>bio.c\<close>

definition binit :: "(unit, 'z disk_state_scheme) M" where
  "binit =
     kthen (initlock LkBcache ''bcache'') (
     kthen (set_buf NBUF (\<lambda>h. h\<lparr>b_prev := NBUF\<rparr>)) (
     kthen (set_buf NBUF (\<lambda>h. h\<lparr>b_next := NBUF\<rparr>))
     (kforall [0..<NBUF] (\<lambda>b.
       kbind (get_buf NBUF b_next) (\<lambda>first.
       kthen (set_buf b (\<lambda>x. x\<lparr>b_next := first\<rparr>)) (
       kthen (set_buf b (\<lambda>x. x\<lparr>b_prev := NBUF\<rparr>)) (
       kthen (initsleeplock (LkBuf b) ''buffer'') (
       kthen (set_buf first (\<lambda>x. x\<lparr>b_prev := b\<rparr>))
       (set_buf NBUF (\<lambda>h. h\<lparr>b_next := b\<rparr>))))))))))"

text \<open>The two loops of \<open>bget\<close>: from the front for a buffer that holds the block, from the back for one
  that is not in use.\<close>

definition bget_find :: "u32 \<Rightarrow> u32 \<Rightarrow> nat \<Rightarrow> (nat + nat option, 'z disk_state_scheme) M" where
  "bget_find dev blockno b =
     (if b = NBUF then ret (Inr None) else
      kbind (get_buf b (\<lambda>x. x)) (\<lambda>x.
      if b_dev x = dev \<and> b_blockno x = blockno then ret (Inr (Some b)) else ret (Inl (b_next x))))"

definition bget_lru :: "nat \<Rightarrow> (nat + nat option, 'z disk_state_scheme) M" where
  "bget_lru b =
     (if b = NBUF then ret (Inr None) else
      kbind (get_buf b (\<lambda>x. x)) (\<lambda>x.
      if b_refcnt x = 0 then ret (Inr (Some b)) else ret (Inl (b_prev x))))"

definition bget :: "u32 \<Rightarrow> u32 \<Rightarrow> (nat, 'z disk_state_scheme) M" where
  "bget dev blockno =
     kthen (acquire LkBcache) (
     kbind (get_buf NBUF b_next) (\<lambda>first.
     kbind (kloop (NBUF + 1) (bget_find dev blockno) first) (\<lambda>r. case r of
       Some b \<Rightarrow>
         kthen (set_buf b (\<lambda>x. x\<lparr>b_refcnt := b_refcnt x + 1\<rparr>)) (
         kthen (release LkBcache) (
         kthen (acquiresleep (LkBuf b))
         (ret b)))
     | None \<Rightarrow>
         kbind (get_buf NBUF b_prev) (\<lambda>last_b.
         kbind (kloop (NBUF + 1) bget_lru last_b) (\<lambda>r. case r of
           Some b \<Rightarrow>
             kthen (set_buf b (\<lambda>x. x\<lparr>b_dev := dev, b_blockno := blockno, b_valid := 0, b_refcnt := 1\<rparr>)) (
             kthen (release LkBcache) (
             kthen (acquiresleep (LkBuf b))
             (ret b)))
         | None \<Rightarrow> panic ''bget: no buffers'')))))"

definition bread :: "u32 \<Rightarrow> u32 \<Rightarrow> (nat, 'z disk_state_scheme) M" where
  "bread dev blockno =
     kbind (bget dev blockno) (\<lambda>b.
     kbind (get_buf b b_valid) (\<lambda>v.
     kthen (kwhen (v = 0) (
       kthen (virtio_disk_rw b False)
       (set_buf b (\<lambda>x. x\<lparr>b_valid := 1\<rparr>))))
     (ret b)))"

definition bwrite :: "nat \<Rightarrow> (unit, 'z disk_state_scheme) M" where
  "bwrite b =
     kbind (holdingsleep (LkBuf b)) (\<lambda>h.
     if \<not> h then panic ''bwrite'' else virtio_disk_rw b True)"

text \<open>The move of a buffer to the front of the list.\<close>

definition bmove :: "nat \<Rightarrow> (unit, 'z disk_state_scheme) M" where
  "bmove b =
     kbind (get_buf b (\<lambda>x. x)) (\<lambda>x.
     kthen (set_buf (b_next x) (\<lambda>y. y\<lparr>b_prev := b_prev x\<rparr>)) (
     kthen (set_buf (b_prev x) (\<lambda>y. y\<lparr>b_next := b_next x\<rparr>)) (
     kbind (get_buf NBUF b_next) (\<lambda>first.
     kthen (set_buf b (\<lambda>y. y\<lparr>b_next := first\<rparr>)) (
     kthen (set_buf b (\<lambda>y. y\<lparr>b_prev := NBUF\<rparr>)) (
     kthen (set_buf first (\<lambda>y. y\<lparr>b_prev := b\<rparr>))
     (set_buf NBUF (\<lambda>h. h\<lparr>b_next := b\<rparr>))))))))"

definition brelse :: "nat \<Rightarrow> (unit, 'z disk_state_scheme) M" where
  "brelse b =
     kbind (holdingsleep (LkBuf b)) (\<lambda>h.
     if \<not> h then panic ''brelse'' else
     kthen (releasesleep (LkBuf b)) (
     kthen (acquire LkBcache) (
     kthen (set_buf b (\<lambda>x. x\<lparr>b_refcnt := b_refcnt x - 1\<rparr>)) (
     kbind (get_buf b b_refcnt) (\<lambda>r.
     kthen (kwhen (r = 0) (bmove b))
     (release LkBcache))))))"

definition bpin :: "nat \<Rightarrow> (unit, 'z disk_state_scheme) M" where
  "bpin b =
     kthen (acquire LkBcache) (
     kthen (set_buf b (\<lambda>x. x\<lparr>b_refcnt := b_refcnt x + 1\<rparr>))
     (release LkBcache))"

definition bunpin :: "nat \<Rightarrow> (unit, 'z disk_state_scheme) M" where
  "bunpin b =
     kthen (acquire LkBcache) (
     kthen (set_buf b (\<lambda>x. x\<lparr>b_refcnt := b_refcnt x - 1\<rparr>))
     (release LkBcache))"

section \<open>The cache in order\<close>

definition ROOTDEV :: u32 where "ROOTDEV = 1"

definition holds_block :: "buf \<Rightarrow> u32 \<Rightarrow> bool" where
  "holds_block x bn \<longleftrightarrow> b_dev x = ROOTDEV \<and> b_blockno x = bn"

definition buf_ok :: "'z disk_state_scheme \<Rightarrow> nat \<Rightarrow> bool" where
  "buf_ok s b \<longleftrightarrow> (let x = bufs s b in length (b_data x) = BSIZE \<and> (b_valid x \<noteq> 0 \<or> b_refcnt x \<noteq> 0 \<longrightarrow> b_dev x = ROOTDEV) \<and>
     (b_dev x = ROOTDEV \<longrightarrow> b_blockno x < 2 ^ 31) \<and>
     (b_refcnt x = 0 \<longrightarrow> sk_locked (slocks s (LkBuf b)) = 0 \<and>
       (b_valid x \<noteq> 0 \<longrightarrow> b_data x = blk (dimg s) (b_blockno x))))"

definition lru_ring :: "(nat \<Rightarrow> buf) \<Rightarrow> nat list \<Rightarrow> bool" where
  "lru_ring bs l \<longleftrightarrow> ring (\<lambda>i. b_next (bs i)) (\<lambda>i. b_prev (bs i)) NBUF l \<and> set l = {..<NBUF}"

text \<open>The links form one ring through all buffers; a block of the root device is in at most one buffer;
  a buffer nobody uses is unlocked and holds, if valid, what the disk holds.\<close>

definition bcache_ok :: "'z disk_state_scheme \<Rightarrow> nat list \<Rightarrow> bool" where
  "bcache_ok s l \<longleftrightarrow> lru_ring (bufs s) l \<and> (\<forall>b < NBUF. buf_ok s b) \<and>
     (\<forall>i < NBUF. \<forall>j < NBUF. \<forall>bn. holds_block (bufs s i) bn \<longrightarrow> holds_block (bufs s j) bn \<longrightarrow> i = j) \<and>
     (\<forall>sec. length (dimg s sec) = 512) \<and> disk_idle s"

lemma runs_bget_find:
  assumes "links (\<lambda>i. b_next (bufs s i)) a xs NBUF" "NBUF \<notin> set xs" "length xs < n"
  shows "runs (kloop n (bget_find dev bn) (b_next (bufs s a))) s P =
    P (find (\<lambda>b. b_dev (bufs s b) = dev \<and> b_blockno (bufs s b) = bn) xs) s"
  using assms
proof (induction xs arbitrary: a n)
  case Nil
  then show ?case by (cases n) (simp_all add: bget_find_def)
next
  case (Cons x xs)
  then obtain m where "n = Suc m" "length xs < m" by (cases n) auto
  then show ?case using Cons by (auto simp: bget_find_def)
qed

lemma runs_bget_lru:
  assumes "links (\<lambda>i. b_prev (bufs s i)) a xs NBUF" "NBUF \<notin> set xs" "length xs < n"
  shows "runs (kloop n bget_lru (b_prev (bufs s a))) s P = P (find (\<lambda>b. b_refcnt (bufs s b) = 0) xs) s"
  using assms
proof (induction xs arbitrary: a n)
  case Nil
  then show ?case by (cases n) (simp_all add: bget_lru_def)
next
  case (Cons x xs)
  then obtain m where "n = Suc m" "length xs < m" by (cases n) auto
  then show ?case using Cons by (auto simp: bget_lru_def)
qed

lemma lru_ringD:
  assumes "lru_ring bs l"
  shows "links (\<lambda>i. b_next (bs i)) NBUF l NBUF" "links (\<lambda>i. b_prev (bs i)) NBUF (rev l) NBUF"
    "NBUF \<notin> set l" "set l = {..<NBUF}" "length l = NBUF" "distinct l"
proof -
  show d: "distinct l" and s: "set l = {..<NBUF}" using assms by (auto simp: lru_ring_def ring_def)
  show "length l = NBUF" using distinct_card [OF d] s by simp
qed (use assms in \<open>auto simp: lru_ring_def ring_def\<close>)

text \<open>Changes to other fields than the links.\<close>

lemma lru_ring_cong:
  assumes "\<And>i. b_next (bs i) = b_next (cs i)" "\<And>i. b_prev (bs i) = b_prev (cs i)"
  shows "lru_ring bs l = lru_ring cs l"
  by (simp add: lru_ring_def assms)

section \<open>What the users of the cache see\<close>

text \<open>Per block: the buffer that holds it, the references to that buffer, the process that has it
  locked, the contents on the disk, and the contents a reader sees. Block numbers from \<open>2 ^ 31\<close> on are out
  of reach, since the driver computes sector numbers in 32 bits.\<close>

definition buf_of :: "'z disk_state_scheme \<Rightarrow> u32 \<Rightarrow> nat option" where
  "buf_of s bn = find (\<lambda>b. holds_block (bufs s b) bn) [0..<NBUF]"

definition refs :: "'z disk_state_scheme \<Rightarrow> u32 \<Rightarrow> nat" where
  "refs s bn = (case buf_of s bn of None \<Rightarrow> 0 | Some b \<Rightarrow> unat (b_refcnt (bufs s b)))"

definition lock_pid :: "'z disk_state_scheme \<Rightarrow> u32 \<Rightarrow> int option" where
  "lock_pid s bn = (case buf_of s bn of None \<Rightarrow> None
     | Some b \<Rightarrow> if sk_locked (slocks s (LkBuf b)) = 0 then None else Some (sk_pid (slocks s (LkBuf b))))"

definition disk_of :: "dimage \<Rightarrow> u32 \<Rightarrow> u8 list" where
  "disk_of img bn = (if bn < 2 ^ 31 then blk img bn else [])"

definition disk :: "'z disk_state_scheme \<Rightarrow> u32 \<Rightarrow> u8 list" where
  "disk s = disk_of (dimg s)"

text \<open>The contents the disk had before each write so far.\<close>

definition dtrace :: "'z disk_state_scheme \<Rightarrow> (u32 \<Rightarrow> u8 list) list" where
  "dtrace s = map disk_of (dhist s)"

definition view :: "'z disk_state_scheme \<Rightarrow> u32 \<Rightarrow> u8 list" where
  "view s bn = (case buf_of s bn of None \<Rightarrow> disk s bn
     | Some b \<Rightarrow> if b_valid (bufs s b) \<noteq> 0 then b_data (bufs s b) else disk s bn)"

lemma disk_cong: "dimg t = dimg s \<Longrightarrow> disk t = disk s"
  by (simp add: disk_def)

lemma lock_pid_cong: "buf_of t = buf_of s \<Longrightarrow> slocks t = slocks s \<Longrightarrow> lock_pid t = lock_pid s"
  by (rule ext) (simp add: lock_pid_def split: option.split)

lemma refs_cong: "buf_of t = buf_of s \<Longrightarrow> (\<And>b. b_refcnt (bufs t b) = b_refcnt (bufs s b)) \<Longrightarrow> refs t = refs s"
  by (rule ext) (simp add: refs_def split: option.split)

lemma bcache_okD:
  assumes "bcache_ok s l"
  shows "lru_ring (bufs s) l" "b < NBUF \<Longrightarrow> buf_ok s b" "length (dimg s sec) = 512" "disk_idle s"
    "i < NBUF \<Longrightarrow> j < NBUF \<Longrightarrow> holds_block (bufs s i) bn \<Longrightarrow> holds_block (bufs s j) bn \<Longrightarrow> i = j"
  using assms unfolding bcache_ok_def by blast+

lemma find_unique:
  assumes "\<And>x y. x \<in> set xs \<Longrightarrow> y \<in> set xs \<Longrightarrow> Q x \<Longrightarrow> Q y \<Longrightarrow> x = y"
  shows "find Q xs = Some x \<longleftrightarrow> x \<in> set xs \<and> Q x"
  using assms by (induction xs) auto

lemma find_SomeD: "find Q xs = Some x \<Longrightarrow> x \<in> set xs \<and> Q x"
  by (auto simp: find_Some_iff)

lemma buf_of_Some:
  assumes "bcache_ok s l"
  shows "buf_of s bn = Some b \<longleftrightarrow> b < NBUF \<and> holds_block (bufs s b) bn"
  unfolding buf_of_def using bcache_okD(5) [OF assms] by (subst find_unique) auto

lemma buf_of_None: "buf_of s bn = None \<longleftrightarrow> (\<forall>b < NBUF. \<not> holds_block (bufs s b) bn)"
  unfolding buf_of_def by (simp add: find_None_iff)

lemma find_buf_of:
  assumes "bcache_ok s l"
  shows "find (\<lambda>b. b_dev (bufs s b) = ROOTDEV \<and> b_blockno (bufs s b) = bn) l = buf_of s bn"
proof (cases "buf_of s bn")
  case None
  then have "find (\<lambda>b. b_dev (bufs s b) = ROOTDEV \<and> b_blockno (bufs s b) = bn) l = None"
    using lru_ringD(4) [OF bcache_okD(1) [OF assms]]
    by (auto simp: buf_of_None find_None_iff holds_block_def)
  then show ?thesis using None by simp
next
  case (Some b)
  then have b: "b < NBUF" "holds_block (bufs s b) bn" using buf_of_Some [OF assms] by auto
  have "find (\<lambda>b. b_dev (bufs s b) = ROOTDEV \<and> b_blockno (bufs s b) = bn) l = Some b"
    using b bcache_okD(5) [OF assms] lru_ringD(4) [OF bcache_okD(1) [OF assms]]
    by (subst find_unique) (auto simp: holds_block_def)
  then show ?thesis using Some by simp
qed

definition locked_by :: "nat \<Rightarrow> nat \<Rightarrow> 'z disk_state_scheme \<Rightarrow> 'z disk_state_scheme" where
  "locked_by p b s = s\<lparr>slocks := (slocks s)(LkBuf b := (slocks s (LkBuf b))\<lparr>sk_locked := 1, sk_pid := p_pid (procs s p)\<rparr>)\<rparr>"

lemma runs_bget:
  assumes "ctx s p" "bcache_ok s l"
  shows "buf_of s bn = Some b \<Longrightarrow> sk_locked (slocks s (LkBuf b)) = 0 \<Longrightarrow> runs (bget ROOTDEV bn) s P =
      P b (locked_by p b (s\<lparr>bufs := (bufs s)(b := (bufs s b)\<lparr>b_refcnt := b_refcnt (bufs s b) + 1\<rparr>)\<rparr>))" (is "?F1 \<Longrightarrow> _ \<Longrightarrow> ?G1")
    and "buf_of s bn = None \<Longrightarrow> find (\<lambda>b. b_refcnt (bufs s b) = 0) (rev l) = Some c \<Longrightarrow> runs (bget ROOTDEV bn) s P =
      P c (locked_by p c (s\<lparr>bufs := (bufs s)(c := (bufs s c)\<lparr>b_dev := ROOTDEV, b_blockno := bn, b_valid := 0, b_refcnt := 1\<rparr>)\<rparr>))"
      (is "?F2 \<Longrightarrow> ?F3 \<Longrightarrow> ?G2")
proof -
  note c = ctx_hart [OF assms(1)] and r = lru_ringD [OF bcache_okD(1) [OF assms(2)]]
  have find: "runs (kloop (NBUF + 1) (bget_find ROOTDEV bn) (b_next (bufs s NBUF))) (s\<lparr>hw := h\<rparr>) Q = Q (buf_of s bn) (s\<lparr>hw := h\<rparr>)" for Q h
    using runs_bget_find [of "s\<lparr>hw := h\<rparr>" NBUF l "NBUF + 1" ROOTDEV bn Q] r find_buf_of [OF assms(2), of bn] by simp
  have lru: "runs (kloop (NBUF + 1) bget_lru (b_prev (bufs s NBUF))) (s\<lparr>hw := h\<rparr>) Q =
      Q (find (\<lambda>b. b_refcnt (bufs s b) = 0) (rev l)) (s\<lparr>hw := h\<rparr>)" for Q h
    using runs_bget_lru [of "s\<lparr>hw := h\<rparr>" NBUF "rev l" "NBUF + 1" Q] r by simp
  have sl: "sl_idle (hw s) (LkBuf i)" for i by (rule ctx_sl_idle [OF assms(1)]) simp
  show ?G1 if f: ?F1 "sk_locked (slocks s (LkBuf b)) = 0"
    using f c sl by (simp add: bget_def find [simplified] runs_acquiresleep locked_by_def)
  show ?G2 if f: ?F2 ?F3
  proof -
    have "c < NBUF" "b_refcnt (bufs s c) = 0" using find_SomeD [OF f(2)] r(4) by auto
    then have "sk_locked (slocks s (LkBuf c)) = 0"
      using bcache_okD(2) [OF assms(2), of c] by (auto simp: buf_ok_def Let_def)
    then show ?thesis
      using f c sl by (simp add: bget_def find [simplified] lru [simplified] runs_acquiresleep locked_by_def)
  qed
qed

text \<open>How the abstraction changes with one buffer.\<close>

lemma buf_of_upd:
  assumes "bcache_ok s l" "bcache_ok t m" "bufs t = (bufs s)(b := x)" "b < NBUF"
  shows "buf_of t bn = (if holds_block x bn then Some b else if buf_of s bn = Some b then None else buf_of s bn)"
proof -
  consider "holds_block x bn" | "\<not> holds_block x bn" "buf_of s bn = Some b" | "\<not> holds_block x bn" "buf_of s bn \<noteq> Some b" by blast
  then show ?thesis
  proof cases
    case 1
    then show ?thesis using buf_of_Some [OF assms(2), of bn b] assms(3,4) by simp
  next
    case 2
    then have "buf_of t bn = None"
      using bcache_okD(5) [OF assms(1)] assms(3,4) buf_of_Some [OF assms(1), of bn b] by (auto simp: buf_of_None)
    then show ?thesis using 2 by simp
  next
    case 3
    have "buf_of t bn = Some c \<longleftrightarrow> buf_of s bn = Some c" for c
      using 3 assms(3) buf_of_Some [OF assms(1), of bn] buf_of_Some [OF assms(2), of bn] by (cases "c = b") auto
    then have "buf_of t bn = buf_of s bn" by (cases "buf_of s bn"; cases "buf_of t bn") auto
    then show ?thesis using 3 by simp
  qed
qed

lemma refs_upd:
  assumes "bcache_ok s l" "bcache_ok t m" "bufs t = (bufs s)(b := x)" "b < NBUF"
  shows "refs t bn = (if holds_block x bn then unat (b_refcnt x) else if buf_of s bn = Some b then 0 else refs s bn)"
  using assms(3) by (auto simp: refs_def buf_of_upd [OF assms] split: option.splits)

definition key_pid :: "sleeplock \<Rightarrow> int option" where
  "key_pid k = (if sk_locked k = 0 then None else Some (sk_pid k))"

lemma lock_pid_upd:
  assumes "bcache_ok s l" "bcache_ok t m" "bufs t = (bufs s)(b := x)" "b < NBUF" "slocks t = (slocks s)(LkBuf b := k)"
  shows "lock_pid t bn = (if holds_block x bn then key_pid k else if buf_of s bn = Some b then None else lock_pid s bn)"
  using assms(5) by (auto simp: lock_pid_def key_pid_def buf_of_upd [OF assms(1-4)] split: option.splits)

lemma view_upd:
  assumes "bcache_ok s l" "bcache_ok t m" "bufs t = (bufs s)(b := x)" "b < NBUF" "dimg t = dimg s"
  shows "view t bn = (if holds_block x bn then if b_valid x \<noteq> 0 then b_data x else disk s bn
    else if buf_of s bn = Some b then disk s bn else view s bn)"
  using assms(3,5) by (auto simp: view_def disk_def disk_of_def buf_of_upd [OF assms(1-4)] split: option.splits)

text \<open>The part of the state that cache operations leave alone, up to wakeups.\<close>

definition rest :: "'z disk_state_scheme \<Rightarrow> 'z disk_state_scheme" where
  "rest s = s\<lparr>procs := undefined, slocks := undefined, bus_log := undefined, vdisk := undefined, bufs := undefined,
     dimg := undefined, dev_avail := undefined, dhist := undefined\<rparr>"

definition io :: "'z disk_state_scheme \<Rightarrow> 'z disk_state_scheme \<Rightarrow> bool" where
  "io s t \<longleftrightarrow> wakes (procs s) (procs t) \<and> rest t = rest s \<and> (\<forall>lk. (\<nexists>b. lk = LkBuf b) \<longrightarrow> slocks t lk = slocks s lk)"

lemma io_refl [simp]: "io s s"
  by (simp add: io_def)

lemma io_trans [trans]: "io s t \<Longrightarrow> io t u \<Longrightarrow> io s u"
  unfolding io_def using wakes_trans by fastforce

lemma rest_simps [simp]:
  "rest (s\<lparr>procs := a\<rparr>) = rest s" "rest (s\<lparr>slocks := b\<rparr>) = rest s" "rest (s\<lparr>bus_log := c\<rparr>) = rest s"
  "rest (s\<lparr>vdisk := d\<rparr>) = rest s" "rest (s\<lparr>bufs := e\<rparr>) = rest s" "rest (s\<lparr>dimg := f\<rparr>) = rest s"
  "rest (s\<lparr>dev_avail := g\<rparr>) = rest s" "rest (s\<lparr>dhist := h\<rparr>) = rest s"
  by (simp_all add: rest_def)

lemma ioD:
  assumes "io s t"
  shows "hw t = hw s" "mem t = mem s" "sym t = sym s" "freelist t = freelist s" "kernel_pagetable t = kernel_pagetable s"
    "satp t = satp s" "nextpid t = nextpid s" "initproc t = initproc s" "bus t = bus s" "blkdev t = blkdev s"
    "disk_state.more t = disk_state.more s" "wakes (procs s) (procs t)"
proof -
  have r: "rest t = rest s" using assms by (simp add: io_def)
  show "hw t = hw s" "mem t = mem s" "sym t = sym s" "freelist t = freelist s" "kernel_pagetable t = kernel_pagetable s"
    "satp t = satp s" "nextpid t = nextpid s" "initproc t = initproc s" "bus t = bus s" "blkdev t = blkdev s"
    "disk_state.more t = disk_state.more s"
    using arg_cong [OF r, of hw] arg_cong [OF r, of mem] arg_cong [OF r, of sym] arg_cong [OF r, of freelist]
      arg_cong [OF r, of kernel_pagetable] arg_cong [OF r, of satp] arg_cong [OF r, of nextpid]
      arg_cong [OF r, of initproc] arg_cong [OF r, of bus] arg_cong [OF r, of blkdev] arg_cong [OF r, of disk_state.more]
    by (simp_all add: rest_def)
  show "wakes (procs s) (procs t)" using assms by (simp add: io_def)
qed

lemma io_ctx: "ctx s p \<Longrightarrow> io s t \<Longrightarrow> ctx t p"
  by (rule ctx_wakes [of s p t]) (simp_all add: ioD)

lemma io_pid: "ctx s p \<Longrightarrow> io s t \<Longrightarrow> procs t p = procs s p"
  using wakes_running [of "procs s" "procs t" p] by (simp add: ctx_def ioD)

section \<open>Reading, writing and releasing blocks\<close>

definition used :: "'z disk_state_scheme \<Rightarrow> u32 set" where
  "used s = {bn. 0 < refs s bn}"

lemma used_eq:
  assumes "bcache_ok s l"
  shows "used s = (\<lambda>b. b_blockno (bufs s b)) ` {b. b < NBUF \<and> b_refcnt (bufs s b) \<noteq> 0}"
proof -
  have "0 < refs s bn \<longleftrightarrow> (\<exists>b < NBUF. b_refcnt (bufs s b) \<noteq> 0 \<and> b_blockno (bufs s b) = bn)" for bn
  proof
    assume "0 < refs s bn"
    then show "\<exists>b < NBUF. b_refcnt (bufs s b) \<noteq> 0 \<and> b_blockno (bufs s b) = bn"
      using buf_of_Some [OF assms, of bn] by (auto simp: refs_def holds_block_def unat_gt_0 split: option.splits)
  next
    assume "\<exists>b < NBUF. b_refcnt (bufs s b) \<noteq> 0 \<and> b_blockno (bufs s b) = bn"
    then obtain b where b: "b < NBUF" "b_refcnt (bufs s b) \<noteq> 0" "b_blockno (bufs s b) = bn" by blast
    then have "buf_of s bn = Some b"
      using bcache_okD(2) [OF assms b(1)] buf_of_Some [OF assms, of bn b] by (auto simp: buf_ok_def Let_def holds_block_def)
    then show "0 < refs s bn" using b by (simp add: refs_def unat_gt_0)
  qed
  then show ?thesis unfolding used_def by auto
qed

lemma used_room:
  assumes "bcache_ok s l" "card (used s) < NBUF"
  shows "\<exists>b < NBUF. b_refcnt (bufs s b) = 0"
proof (rule ccontr)
  assume "\<not> ?thesis"
  then have all: "\<And>b. b < NBUF \<Longrightarrow> b_refcnt (bufs s b) \<noteq> 0" by blast
  then have u: "used s = (\<lambda>b. b_blockno (bufs s b)) ` {..<NBUF}" using used_eq [OF assms(1)] by auto
  have "inj_on (\<lambda>b. b_blockno (bufs s b)) {..<NBUF}"
  proof (rule inj_onI)
    fix i j assume ij: "i \<in> {..<NBUF}" "j \<in> {..<NBUF}" "b_blockno (bufs s i) = b_blockno (bufs s j)"
    have "b_dev (bufs s b) = ROOTDEV" if "b < NBUF" for b
      using bcache_okD(2) [OF assms(1) that] all [OF that] by (simp add: buf_ok_def Let_def)
    then show "i = j" using bcache_okD(5) [OF assms(1), of i j "b_blockno (bufs s i)"] ij by (simp add: holds_block_def)
  qed
  then have "card (used s) = NBUF" unfolding u by (simp add: card_image)
  then show False using assms(2) by simp
qed

lemma finite_used: "bcache_ok s l \<Longrightarrow> finite (used s)"
  by (simp add: used_eq)

text \<open>\<open>bget\<close> takes a buffer \<open>b\<close> and changes its entry to \<open>x\<close>.\<close>

definition got :: "'z disk_state_scheme \<Rightarrow> u32 \<Rightarrow> nat \<Rightarrow> buf \<Rightarrow> bool" where
  "got s bn b x \<longleftrightarrow> b < NBUF \<and> holds_block x bn \<and> b_next x = b_next (bufs s b) \<and> b_prev x = b_prev (bufs s b) \<and>
     length (b_data x) = BSIZE \<and> unat (b_refcnt x) = refs s bn + 1 \<and>
     (if b_valid x \<noteq> 0 then b_data x = view s bn else view s bn = disk s bn) \<and>
     (\<forall>bn'. buf_of s bn' = Some b \<longrightarrow> bn' \<noteq> bn \<longrightarrow> refs s bn' = 0) \<and>
     (\<forall>bn'. buf_of s bn' = Some b \<longrightarrow> bn' \<noteq> bn \<longrightarrow> view s bn' = disk s bn' \<and> lock_pid s bn' = None) \<and>
     (\<forall>c. buf_of s bn = Some c \<longrightarrow> c = b)"

lemma got_cached:
  assumes "bcache_ok s l" "buf_of s bn = Some b" "refs s bn < 2 ^ 32 - 1"
  shows "got s bn b ((bufs s b)\<lparr>b_refcnt := b_refcnt (bufs s b) + 1\<rparr>)"
proof -
  have b: "b < NBUF" "holds_block (bufs s b) bn" using buf_of_Some [OF assms(1)] assms(2) by auto
  have "unat (b_refcnt (bufs s b) + 1) = unat (b_refcnt (bufs s b)) + 1"
    using assms(2,3) by (simp add: refs_def unat_word_ariths)
  moreover have "\<forall>bn'. buf_of s bn' = Some b \<longrightarrow> bn' \<noteq> bn \<longrightarrow> Q bn'" for Q
    using buf_of_Some [OF assms(1)] b(2) by (simp add: holds_block_def)
  moreover have "length (b_data (bufs s b)) = BSIZE" using bcache_okD(2) [OF assms(1) b(1)] by (simp add: buf_ok_def Let_def)
  moreover have "refs s bn = unat (b_refcnt (bufs s b))"
    "view s bn = (if b_valid (bufs s b) \<noteq> 0 then b_data (bufs s b) else disk s bn)"
    using assms(2) by (simp_all add: refs_def view_def)
  ultimately show ?thesis
    using b assms(2) unfolding got_def by (simp add: holds_block_def) blast
qed

lemma got_recycled:
  assumes "bcache_ok s l" "buf_of s bn = None" "b < NBUF" "b_refcnt (bufs s b) = 0"
  shows "got s bn b ((bufs s b)\<lparr>b_dev := ROOTDEV, b_blockno := bn, b_valid := 0, b_refcnt := 1\<rparr>)"
proof -
  have "refs s bn' = 0 \<and> view s bn' = disk s bn' \<and> lock_pid s bn' = None" if "buf_of s bn' = Some b" for bn'
    using that assms(4) bcache_okD(2) [OF assms(1,3)] buf_of_Some [OF assms(1), of bn' b]
    by (auto simp: refs_def view_def lock_pid_def buf_ok_def disk_def disk_of_def holds_block_def Let_def)
  moreover have "length (b_data (bufs s b)) = BSIZE" using bcache_okD(2) [OF assms(1,3)] by (simp add: buf_ok_def Let_def)
  moreover have "refs s bn = 0" "view s bn = disk s bn" using assms(2) by (simp_all add: refs_def view_def)
  ultimately show ?thesis
    using assms(2,3) unfolding got_def by (simp add: holds_block_def)
qed

lemma bcache_ok_locked:
  assumes "bcache_ok s l" "got s bn b x" "bn < 2 ^ 31"
  shows "bcache_ok (locked_by p b (s\<lparr>bufs := (bufs s)(b := x)\<rparr>)) l" (is "bcache_ok ?t l")
  unfolding bcache_ok_def
proof (intro conjI allI impI)
  note g = assms(2) [unfolded got_def]
  have x: "b_refcnt x \<noteq> 0" "b_dev x = ROOTDEV" "b_blockno x = bn" using g by (auto simp: holds_block_def)
  show "lru_ring (bufs ?t) l"
    using bcache_okD(1) [OF assms(1)] g by (subst lru_ring_cong [of _ "bufs s"]) (auto simp: locked_by_def)
  show "buf_ok ?t c" if "c < NBUF" for c
    using bcache_okD(2) [OF assms(1) that] g x assms(3) by (cases "c = b") (simp_all add: buf_ok_def Let_def locked_by_def)
  show "length (dimg ?t sec) = 512" for sec using bcache_okD(3) [OF assms(1)] by (simp add: locked_by_def)
  show "disk_idle ?t" using bcache_okD(4) [OF assms(1)] by (simp add: disk_idle_def locked_by_def)
  fix i j bn' assume ij: "i < NBUF" "j < NBUF" "holds_block (bufs ?t i) bn'" "holds_block (bufs ?t j) bn'"
  have bufs_t: "bufs ?t = (bufs s)(b := x)" by (simp add: locked_by_def)
  have eq: "k = b \<longleftrightarrow> bn' = bn" if k: "k < NBUF" "holds_block (bufs ?t k) bn'" for k
  proof
    show "k = b \<Longrightarrow> bn' = bn" using k(2) x(3) by (simp add: bufs_t holds_block_def)
    assume "bn' = bn"
    then show "k = b" using k g buf_of_Some [OF assms(1), of bn k] unfolding bufs_t by (cases "k = b") simp_all
  qed
  show "i = j"
  proof (cases "bn' = bn")
    case True
    then show ?thesis using eq [OF ij(1,3)] eq [OF ij(2,4)] by simp
  next
    case False
    then have "i \<noteq> b" "j \<noteq> b" using eq [OF ij(1,3)] eq [OF ij(2,4)] by simp_all
    then show ?thesis using ij by (intro bcache_okD(5) [OF assms(1), of i j bn']) (simp_all add: bufs_t)
  qed
qed

lemma got_abs:
  assumes "bcache_ok s l" "got s bn b x" "bn < 2 ^ 31" "t = locked_by p b (s\<lparr>bufs := (bufs s)(b := x)\<rparr>)"
  shows "buf_of t bn = Some b" "refs t = (refs s)(bn := refs s bn + 1)" "view t = view s" "disk t = disk s"
    "lock_pid t = (lock_pid s)(bn := Some (p_pid (procs s p)))" "io s t"
    "0 < refs s bn' \<Longrightarrow> buf_of t bn' = buf_of s bn'" "dtrace t = dtrace s" "i \<noteq> b \<Longrightarrow> bufs t i = bufs s i"
proof -
  note g = assms(2) [unfolded got_def]
  have t: "bcache_ok t l" unfolding assms(4) by (rule bcache_ok_locked [OF assms(1-3)])
  have e: "bufs t = (bufs s)(b := x)" "b < NBUF" "dimg t = dimg s"
    "slocks t = (slocks s)(LkBuf b := (slocks s (LkBuf b))\<lparr>sk_locked := 1, sk_pid := p_pid (procs s p)\<rparr>)"
    using g by (simp_all add: assms(4) locked_by_def)
  have h: "holds_block x bn' \<longleftrightarrow> bn' = bn" for bn' using g by (auto simp: holds_block_def)
  show "buf_of t bn = Some b" using buf_of_upd [OF assms(1) t e(1,2), of bn] h by simp
  show "disk t = disk s" by (rule disk_cong [OF e(3)])
  show "dtrace t = dtrace s" "i \<noteq> b \<Longrightarrow> bufs t i = bufs s i" using e(1) by (simp_all add: dtrace_def assms(4) locked_by_def)
  show "refs t = (refs s)(bn := refs s bn + 1)"
    using refs_upd [OF assms(1) t e(1,2)] h g by (simp add: fun_eq_iff)
  show "view t = view s"
    using view_upd [OF assms(1) t e(1,2,3)] h g by (simp add: fun_eq_iff split: if_splits)
  show "lock_pid t = (lock_pid s)(bn := Some (p_pid (procs s p)))"
    using lock_pid_upd [OF assms(1) t e(1,2,4)] h g by (simp add: fun_eq_iff key_pid_def)
  show "io s t" unfolding assms(4) locked_by_def io_def by simp
  have "buf_of s bn = None \<or> buf_of s bn = Some b" using g by (cases "buf_of s bn") blast+
  then have "0 < refs s bn \<Longrightarrow> buf_of s bn = Some b" unfolding refs_def by (elim disjE) simp_all
  then show "0 < refs s bn' \<Longrightarrow> buf_of t bn' = buf_of s bn'"
    using buf_of_upd [OF assms(1) t e(1,2), of bn'] h [of bn'] g by (metis less_numeral_extra(3))
qed

text \<open>A change of a buffer in use.\<close>

lemma bcache_ok_held:
  assumes "bcache_ok s l" "buf_of s bn = Some b" and t: "bufs t = (bufs s)(b := x)"
    and x: "b_dev x = ROOTDEV" "b_blockno x = bn" "b_refcnt x \<noteq> 0" "b_next x = b_next (bufs s b)"
      "b_prev x = b_prev (bufs s b)" "length (b_data x) = BSIZE"
    and o: "\<And>i. i \<noteq> b \<Longrightarrow> slocks t (LkBuf i) = slocks s (LkBuf i)" "\<And>sec. length (dimg t sec) = 512"
      "\<And>c. c \<noteq> bn \<Longrightarrow> c < 2 ^ 31 \<Longrightarrow> blk (dimg t) c = blk (dimg s) c" "disk_idle t"
  shows "bcache_ok t l" "buf_of t = buf_of s"
proof -
  have b: "b < NBUF" "holds_block (bufs s b) bn" using buf_of_Some [OF assms(1)] assms(2) by auto
  have bl: "b_blockno (bufs s i) \<noteq> bn" if "i < NBUF" "i \<noteq> b" "b_dev (bufs s i) = ROOTDEV" for i
    using that bcache_okD(5) [OF assms(1) that(1) b(1), of bn] b(2) by (auto simp: holds_block_def)
  have ok: "buf_ok t i" if "i < NBUF" for i
  proof (cases "i = b")
    case True
    then show ?thesis using x t bcache_okD(2) [OF assms(1) b(1)] b(2) by (simp add: buf_ok_def Let_def holds_block_def)
  next
    case False
    then show ?thesis using t o(1) o(3) bl [OF that False] bcache_okD(2) [OF assms(1) that] by (simp add: buf_ok_def Let_def)
  qed
  have hb: "holds_block (bufs t i) c = holds_block (bufs s i) c" for i c
    using x(1,2) b(2) by (simp add: t holds_block_def)
  show "buf_of t = buf_of s" by (simp add: buf_of_def fun_eq_iff hb)
  have "lru_ring (bufs t) l"
    using bcache_okD(1) [OF assms(1)] x(4,5) t by (subst lru_ring_cong [of _ "bufs s"]) simp_all
  then show "bcache_ok t l"
    unfolding bcache_ok_def hb using ok o(2,4) assms(1) [unfolded bcache_ok_def] by blast
qed

definition bread_post :: "'z disk_state_scheme \<Rightarrow> nat \<Rightarrow> u32 \<Rightarrow> nat list \<Rightarrow> nat \<Rightarrow> 'z disk_state_scheme \<Rightarrow> bool" where
  "bread_post s p bn l b t \<longleftrightarrow> bcache_ok t l \<and> io s t \<and> buf_of t bn = Some b \<and> b_valid (bufs t b) \<noteq> 0 \<and>
     b_data (bufs t b) = view s bn \<and> view t = view s \<and> disk t = disk s \<and> refs t = (refs s)(bn := refs s bn + 1) \<and>
     lock_pid t = (lock_pid s)(bn := Some (p_pid (procs s p))) \<and>
     (\<forall>c. 0 < refs s c \<longrightarrow> buf_of t c = buf_of s c) \<and> (\<forall>i. i \<noteq> b \<longrightarrow> bufs t i = bufs s i) \<and> dtrace t = dtrace s"

lemma disk_doneD:
  assumes "disk_done b w s t"
  shows "io s t" "disk_idle t" "slocks t = slocks s"
    "bufs t = (bufs s)(b := (bufs s b)\<lparr>b_disk := 0,
       b_data := if w then b_data (bufs s b) else blk (dimg s) (b_blockno (bufs s b))\<rparr>)"
    "dimg t = (if w then blk_upd (dimg s) (b_blockno (bufs s b)) (b_data (bufs s b)) else dimg s)"
    "dhist t = (if w then dimg s # dhist s else dhist s)"
proof -
  obtain vd ps bl da where t: "t = s\<lparr>vdisk := vd, procs := ps, bus_log := bl, dev_avail := da,
       bufs := (bufs s)(b := (bufs s b)\<lparr>b_disk := 0,
         b_data := if w then b_data (bufs s b) else blk (dimg s) (b_blockno (bufs s b))\<rparr>),
       dimg := if w then blk_upd (dimg s) (b_blockno (bufs s b)) (b_data (bufs s b)) else dimg s,
       dhist := if w then dimg s # dhist s else dhist s\<rparr>"
    using assms unfolding disk_done_def by blast
  show "slocks t = slocks s" unfolding t by simp
  show "bufs t = (bufs s)(b := (bufs s b)\<lparr>b_disk := 0,
       b_data := if w then b_data (bufs s b) else blk (dimg s) (b_blockno (bufs s b))\<rparr>)" unfolding t by simp
  show "dimg t = (if w then blk_upd (dimg s) (b_blockno (bufs s b)) (b_data (bufs s b)) else dimg s)" unfolding t by simp
  show "dhist t = (if w then dimg s # dhist s else dhist s)" unfolding t by simp
  have "rest t = rest s" unfolding t by (simp only: rest_simps)
  then show "io s t" using assms \<open>slocks t = slocks s\<close> by (simp add: io_def disk_done_def)
  show "disk_idle t" using assms by (simp add: disk_done_def)
qed

lemma runs_bget_got:
  assumes "ctx s p" "bcache_ok s l" "lock_pid s bn = None" "refs s bn < 2 ^ 32 - 1" "0 < refs s bn \<or> card (used s) < NBUF"
  shows "\<exists>b x. got s bn b x \<and> (\<forall>P. runs (bget ROOTDEV bn) s P = P b (locked_by p b (s\<lparr>bufs := (bufs s)(b := x)\<rparr>)))"
proof (cases "buf_of s bn")
  case (Some b)
  then have "sk_locked (slocks s (LkBuf b)) = 0" using assms(3) by (simp add: lock_pid_def split: if_splits)
  then show ?thesis using runs_bget(1) [OF assms(1,2) Some] got_cached [OF assms(2) Some assms(4)] by blast
next
  case None
  then have "card (used s) < NBUF" using assms(5) by (simp add: refs_def)
  then obtain c where "c < NBUF" "b_refcnt (bufs s c) = 0" using used_room [OF assms(2)] by blast
  then have "find (\<lambda>b. b_refcnt (bufs s b) = 0) (rev l) \<noteq> None"
    using lru_ringD(4) [OF bcache_okD(1) [OF assms(2)]] by (auto simp: find_None_iff)
  then obtain b where b: "find (\<lambda>b. b_refcnt (bufs s b) = 0) (rev l) = Some b" by blast
  then have "b < NBUF" "b_refcnt (bufs s b) = 0"
    using find_SomeD [OF b] lru_ringD(4) [OF bcache_okD(1) [OF assms(2)]] by auto
  then show ?thesis using runs_bget(2) [OF assms(1,2) None b] got_recycled [OF assms(2) None] by blast
qed

lemma runs_bread:
  assumes "ctx s p" "bcache_ok s l" "bn < 2 ^ 31" "lock_pid s bn = None" "refs s bn < 2 ^ 32 - 1"
    "0 < refs s bn \<or> card (used s) < NBUF"
  shows "runs (bread ROOTDEV bn) s (bread_post s p bn l)"
proof -
  obtain b x where g: "got s bn b x"
    and r': "\<forall>P. runs (bget ROOTDEV bn) s P = P b (locked_by p b (s\<lparr>bufs := (bufs s)(b := x)\<rparr>))"
    using runs_bget_got [OF assms(1,2,4-6)] by (elim exE conjE)
  note r = r' [rule_format]
  define t where "t = locked_by p b (s\<lparr>bufs := (bufs s)(b := x)\<rparr>)"
  note a = got_abs [OF assms(2) g assms(3) t_def] and tok = bcache_ok_locked [OF assms(2) g assms(3), of p, folded t_def]
  have bt: "bufs t b = x" by (simp add: t_def locked_by_def)
  have xd: "b_dev x = ROOTDEV" "b_blockno x = bn" "b_refcnt x \<noteq> 0" "length (b_data x) = BSIZE"
    using g by (auto simp: got_def holds_block_def)
  show ?thesis
  proof (cases "b_valid x = 0")
    case False
    then have "bread_post s p bn l b t" using a tok bt g by (simp add: bread_post_def got_def)
    then show ?thesis using False bt by (simp add: bread_def r flip: t_def)
  next
    case True
    have "runs (virtio_disk_rw b False) t (\<lambda>_ u. bread_post s p bn l b (u\<lparr>bufs := (bufs u)(b := (bufs u b)\<lparr>b_valid := 1\<rparr>)\<rparr>))"
    proof (rule runs_virtio_disk_rw [OF io_ctx [OF assms(1) a(6)] bcache_okD(4) [OF tok]])
      fix u assume "disk_done b False t u"
      note d = disk_doneD [OF this, simplified bt xd if_False]
      let ?v = "u\<lparr>bufs := (bufs u)(b := (bufs u b)\<lparr>b_valid := 1\<rparr>)\<rparr>"
      let ?x = "x\<lparr>b_disk := 0, b_data := blk (dimg t) bn, b_valid := 1\<rparr>"
      have bv: "bufs ?v = (bufs t)(b := ?x)" using d(4) by simp
      have len: "length (blk (dimg t) bn) = BSIZE" using bcache_okD(3) [OF tok] by (simp add: blk_def BSIZE_def)
      have v: "bcache_ok ?v l" "buf_of ?v = buf_of t"
        by (rule bcache_ok_held [OF tok a(1) bv]; use xd bt len d bcache_okD(3) [OF tok] in \<open>simp add: disk_idle_def\<close>)+
      have di: "disk ?v = disk t" by (rule disk_cong) (simp add: d(5))
      have vd: "view s bn = blk (dimg t) bn"
        using g True a(4) assms(3) by (simp add: got_def disk_def disk_of_def fun_eq_iff) metis
      have hb: "\<And>c. buf_of t c = Some b \<Longrightarrow> c = bn" using buf_of_Some [OF tok] xd bt by (auto simp: holds_block_def)
      have "view ?v = view t"
      proof
        fix c show "view ?v c = view t c"
        proof (cases "c = bn")
          case True
          have "view ?v bn = blk (dimg t) bn" unfolding view_def v(2) bv by (simp add: a(1))
          then show ?thesis using True a(3) vd by simp
        next
          case False
          then have "buf_of t c \<noteq> Some b" using hb by blast
          then show ?thesis unfolding view_def v(2) bv di by (simp split: option.split)
        qed
      qed
      moreover have "refs ?v = refs t" by (rule refs_cong [OF v(2)]) (simp add: bv bt)
      moreover have "lock_pid ?v = lock_pid t" by (rule lock_pid_cong [OF v(2)]) (simp add: d(3))
      moreover have "io s ?v" using io_trans [OF a(6) d(1)] by (simp add: io_def)
      moreover have "dtrace ?v = dtrace t" using d(6) by (simp add: dtrace_def)
      ultimately show "bread_post s p bn l b ?v"
        using a v di vd bv unfolding bread_post_def by simp
    qed (use xd bt in simp)
    then show ?thesis using True bt by (simp add: bread_def r flip: t_def)
  qed
qed

text \<open>A block whose buffer the process holds: it may change the data, write the block and give it back.\<close>

definition holding_block :: "'z disk_state_scheme \<Rightarrow> nat \<Rightarrow> u32 \<Rightarrow> nat \<Rightarrow> bool" where
  "holding_block s p bn b \<longleftrightarrow> buf_of s bn = Some b \<and> b_valid (bufs s b) \<noteq> 0 \<and> 0 < refs s bn \<and>
     lock_pid s bn = Some (p_pid (procs s p))"

lemma holding_blockD:
  assumes "bcache_ok s l" "holding_block s p bn b"
  shows "b < NBUF" "b_dev (bufs s b) = ROOTDEV" "b_blockno (bufs s b) = bn" "b_refcnt (bufs s b) \<noteq> 0"
    "length (b_data (bufs s b)) = BSIZE" "b_data (bufs s b) = view s bn" "sk_locked (slocks s (LkBuf b)) \<noteq> 0"
    "sk_pid (slocks s (LkBuf b)) = p_pid (procs s p)" "unat (b_refcnt (bufs s b)) = refs s bn" "bn < 2 ^ 31"
    "buf_of s bn = Some b"
proof -
  have h: "buf_of s bn = Some b" "b_valid (bufs s b) \<noteq> 0" "0 < refs s bn" "lock_pid s bn = Some (p_pid (procs s p))"
    using assms(2) by (auto simp: holding_block_def)
  show b: "b < NBUF" "b_dev (bufs s b) = ROOTDEV" "b_blockno (bufs s b) = bn" "buf_of s bn = Some b"
    using buf_of_Some [OF assms(1)] h(1) by (auto simp: holds_block_def)
  show r: "unat (b_refcnt (bufs s b)) = refs s bn" using h(1) by (simp add: refs_def)
  show "b_refcnt (bufs s b) \<noteq> 0" using r h(3) by auto
  show "length (b_data (bufs s b)) = BSIZE" "bn < 2 ^ 31"
    using bcache_okD(2) [OF assms(1) b(1)] b by (simp_all add: buf_ok_def Let_def)
  show "b_data (bufs s b) = view s bn" using h by (simp add: view_def)
  show "sk_locked (slocks s (LkBuf b)) \<noteq> 0" "sk_pid (slocks s (LkBuf b)) = p_pid (procs s p)"
    using h(1,4) by (simp_all add: lock_pid_def split: if_splits)
qed

lemma buf_of_other: "bcache_ok s l \<Longrightarrow> buf_of s bn = Some b \<Longrightarrow> c \<noteq> bn \<Longrightarrow> buf_of s c \<noteq> Some b"
  using buf_of_Some [of s l] by (auto simp: holds_block_def)

lemma set_data_abs:
  assumes "bcache_ok s l" "holding_block s p bn b" "length d = BSIZE"
    and t: "t = s\<lparr>bufs := (bufs s)(b := (bufs s b)\<lparr>b_data := d\<rparr>)\<rparr>"
  shows "bcache_ok t l" "buf_of t = buf_of s" "view t = (view s)(bn := d)" "disk t = disk s" "refs t = refs s"
    "lock_pid t = lock_pid s" "io s t" "dtrace t = dtrace s"
proof -
  note h = holding_blockD [OF assms(1,2)]
  have bt: "bufs t = (bufs s)(b := (bufs s b)\<lparr>b_data := d\<rparr>)" by (simp add: t)
  show ok: "bcache_ok t l" and bo: "buf_of t = buf_of s"
    by (rule bcache_ok_held [OF assms(1) h(11) bt];
        use h assms(3) bcache_okD [OF assms(1)] in \<open>simp add: t disk_idle_def\<close>)+
  show d: "disk t = disk s" by (rule disk_cong) (simp add: t)
  show "refs t = refs s" by (rule refs_cong [OF bo]) (simp add: bt)
  show "lock_pid t = lock_pid s" by (rule lock_pid_cong [OF bo]) (simp add: t)
  show "io s t" unfolding t io_def by simp
  show "dtrace t = dtrace s" by (simp add: t dtrace_def)
  show "view t = (view s)(bn := d)"
  proof
    fix c show "view t c = ((view s)(bn := d)) c"
    proof (cases "c = bn")
      case True
      then show ?thesis using assms(2) by (simp add: view_def bo bt holding_block_def)
    next
      case False
      then show ?thesis using buf_of_other [OF assms(1) h(11) False] by (simp add: view_def bo bt d split: option.split)
    qed
  qed
qed

lemma unat_sector:
  assumes "bn < (2 :: u32) ^ 31"
  shows "unat (sector_of bn) = 2 * unat bn" "unat (sector_of bn + 1) = 2 * unat bn + 1"
proof -
  have "unat bn < 2 ^ 31" using assms by (simp add: word_less_nat_alt)
  then have "unat (bn * 2) = 2 * unat bn" by (simp add: unat_word_ariths)
  then show s: "unat (sector_of bn) = 2 * unat bn" by (simp add: sector_of_def)
  show "unat (sector_of bn + 1) = 2 * unat bn + 1"
    using \<open>unat bn < 2 ^ 31\<close> s by (simp add: unat_word_ariths)
qed

lemma blk_blk_upd:
  assumes "bn < 2 ^ 31" "c < 2 ^ 31" "length d = BSIZE"
  shows "blk (blk_upd img bn d) c = (if c = bn then d else blk img c)"
proof -
  note u = unat_sector [OF assms(1)] unat_sector [OF assms(2)]
  have "sector_of c \<noteq> sector_of bn + 1" "sector_of c + 1 \<noteq> sector_of bn" using u by (metis even_Suc even_mult_iff even_numeral Suc_eq_plus1)+
  moreover have "sector_of bn + 1 \<noteq> sector_of bn" by simp
  moreover have "sector_of c \<noteq> sector_of bn" if "c \<noteq> bn"
  proof -
    have "unat c \<noteq> unat bn" using that by (simp add: word_unat_eq_iff)
    then show ?thesis using u by auto
  qed
  ultimately show ?thesis by (auto simp: blk_def blk_upd_def)
qed

lemma length_blk_upd: "length d = BSIZE \<Longrightarrow> (\<And>sec. length (img sec) = 512) \<Longrightarrow> length (blk_upd img bn d sec) = 512"
  by (simp add: blk_upd_def BSIZE_def)

definition bwrite_post :: "'z disk_state_scheme \<Rightarrow> u32 \<Rightarrow> nat list \<Rightarrow> 'z disk_state_scheme \<Rightarrow> bool" where
  "bwrite_post s bn l t \<longleftrightarrow> bcache_ok t l \<and> io s t \<and> buf_of t = buf_of s \<and> (\<forall>b. b_valid (bufs t b) = b_valid (bufs s b)) \<and>
     view t = view s \<and> disk t = (disk s)(bn := view s bn) \<and> refs t = refs s \<and> lock_pid t = lock_pid s \<and>
     dtrace t = disk s # dtrace s"

lemma runs_bwrite:
  assumes "ctx s p" "bcache_ok s l" "holding_block s p bn b"
  shows "runs (bwrite b) s (\<lambda>_. bwrite_post s bn l)"
proof -
  note h = holding_blockD [OF assms(2,3)]
  have "runs (virtio_disk_rw b True) s (\<lambda>_. bwrite_post s bn l)"
  proof (rule runs_virtio_disk_rw [OF assms(1) bcache_okD(4) [OF assms(2)] h(5)])
    fix t assume "disk_done b True s t"
    note d = disk_doneD [OF this, simplified if_True h]
    have bt: "bufs t = (bufs s)(b := (bufs s b)\<lparr>b_disk := 0\<rparr>)" using d(4) by (simp flip: h(6))
    have im: "dimg t = blk_upd (dimg s) bn (view s bn)" using d(5) h(6) by simp
    have len: "length (view s bn) = BSIZE" using h(5,6) by simp
    have ok: "bcache_ok t l" and bo: "buf_of t = buf_of s"
      by (rule bcache_ok_held [OF assms(2) h(11) bt];
          use h d len bcache_okD(3) [OF assms(2)] in \<open>simp add: im blk_blk_upd length_blk_upd\<close>)+
    have "disk t = (disk s)(bn := view s bn)"
      using h(10) len by (auto simp: disk_def disk_of_def fun_eq_iff im blk_blk_upd)
    moreover have "view t = view s"
    proof
      fix c show "view t c = view s c"
        using buf_of_other [OF assms(2) h(11), of c] h(11) assms(3) calculation
        by (cases "c = bn") (auto simp: view_def bo bt holding_block_def split: option.split)
    qed
    moreover have "refs t = refs s" by (rule refs_cong [OF bo]) (simp add: bt)
    moreover have "lock_pid t = lock_pid s" by (rule lock_pid_cong [OF bo d(3)])
    moreover have "dtrace t = disk s # dtrace s" using d(6) by (simp add: dtrace_def disk_def)
    ultimately show "bwrite_post s bn l t" using ok bo d(1) bt by (simp add: bwrite_post_def)
  qed
  then show ?thesis
    using runs_holdingsleep [OF ctx_sl_idle [OF assms(1)] ctx_hart(6) [OF assms(1)], of "LkBuf b"] h(7,8)
    by (simp add: bwrite_def)
qed

text \<open>Changing the number of references to a block.\<close>

lemma set_refcnt_abs:
  assumes "bcache_ok s l" "buf_of s bn = Some b" "r \<noteq> 0" "bufs t = (bufs s)(b := (bufs s b)\<lparr>b_refcnt := r\<rparr>)"
    "dimg t = dimg s" "disk_idle t" "\<And>i. i \<noteq> b \<Longrightarrow> slocks t (LkBuf i) = slocks s (LkBuf i)"
  shows "bcache_ok t l" "buf_of t = buf_of s" "view t = view s" "disk t = disk s" "refs t = (refs s)(bn := unat r)"
proof -
  have b: "b < NBUF" "holds_block (bufs s b) bn" using buf_of_Some [OF assms(1)] assms(2) by auto
  show bo: "bcache_ok t l" "buf_of t = buf_of s"
    by (rule bcache_ok_held [OF assms(1,2,4)];
        use assms b bcache_okD [OF assms(1)] in \<open>simp add: holds_block_def buf_ok_def Let_def\<close>)+
  show d: "disk t = disk s" by (rule disk_cong [OF assms(5)])
  show "view t = view s" by (rule ext) (simp add: view_def bo(2) assms(4) d split: option.split)
  show "refs t = (refs s)(bn := unat r)"
  proof
    fix c show "refs t c = ((refs s)(bn := unat r)) c"
      using buf_of_other [OF assms(1,2), of c] assms(2)
      by (cases "c = bn") (auto simp: refs_def bo(2) assms(4) split: option.split)
  qed
qed

lemma runs_bpin:
  assumes "ctx s p" "bcache_ok s l" "buf_of s bn = Some b" "refs s bn < 2 ^ 32 - 1"
  shows "runs (bpin b) s (\<lambda>_ t. bcache_ok t l \<and> io s t \<and> buf_of t = buf_of s \<and> view t = view s \<and> disk t = disk s \<and>
    refs t = (refs s)(bn := refs s bn + 1) \<and> lock_pid t = lock_pid s \<and> (\<forall>i. b_valid (bufs t i) = b_valid (bufs s i)) \<and> dtrace t = dtrace s)"
proof -
  let ?r = "b_refcnt (bufs s b) + 1"
  let ?t = "s\<lparr>bufs := (bufs s)(b := (bufs s b)\<lparr>b_refcnt := ?r\<rparr>)\<rparr>"
  have r: "unat ?r = refs s bn + 1" using assms(3,4) by (simp add: refs_def unat_word_ariths)
  then have nz: "?r \<noteq> 0" by auto
  note a = set_refcnt_abs [OF assms(2,3) nz, of ?t]
  have i: "disk_idle ?t" using bcache_okD(4) [OF assms(2)] by (simp add: disk_idle_def)
  have "lock_pid ?t = lock_pid s" by (rule lock_pid_cong [OF a(2)]) (simp_all add: i)
  then show ?thesis
    using ctx_hart [OF assms(1)] a i r by (simp add: bpin_def io_def dtrace_def)
qed

lemma runs_bunpin:
  assumes "ctx s p" "bcache_ok s l" "buf_of s bn = Some b" "1 < refs s bn"
  shows "runs (bunpin b) s (\<lambda>_ t. bcache_ok t l \<and> io s t \<and> buf_of t = buf_of s \<and> view t = view s \<and> disk t = disk s \<and>
    refs t = (refs s)(bn := refs s bn - 1) \<and> lock_pid t = lock_pid s \<and> (\<forall>i. b_valid (bufs t i) = b_valid (bufs s i)) \<and> dtrace t = dtrace s)"
proof -
  let ?r = "b_refcnt (bufs s b) - 1"
  let ?t = "s\<lparr>bufs := (bufs s)(b := (bufs s b)\<lparr>b_refcnt := ?r\<rparr>)\<rparr>"
  have u: "unat (b_refcnt (bufs s b)) = refs s bn" using assms(3) by (simp add: refs_def)
  then have r: "unat ?r = refs s bn - 1" using assms(4) by (subst unat_minus_one) auto
  then have nz: "?r \<noteq> 0" using assms(4) by auto
  note a = set_refcnt_abs [OF assms(2,3) nz, of ?t]
  have i: "disk_idle ?t" using bcache_okD(4) [OF assms(2)] by (simp add: disk_idle_def)
  have "lock_pid ?t = lock_pid s" by (rule lock_pid_cong [OF a(2)]) (simp_all add: i)
  then show ?thesis
    using ctx_hart [OF assms(1)] a i r by (simp add: bunpin_def io_def dtrace_def)
qed

text \<open>The move to the front of the list.\<close>

definition set_prev :: "nat \<Rightarrow> nat \<Rightarrow> (nat \<Rightarrow> buf) \<Rightarrow> nat \<Rightarrow> buf" where
  "set_prev i v bs = bs(i := (bs i)\<lparr>b_prev := v\<rparr>)"

definition set_next :: "nat \<Rightarrow> nat \<Rightarrow> (nat \<Rightarrow> buf) \<Rightarrow> nat \<Rightarrow> buf" where
  "set_next i v bs = bs(i := (bs i)\<lparr>b_next := v\<rparr>)"

lemma set_link_fields [simp]:
  "b_valid (set_prev i v bs j) = b_valid (bs j)" "b_disk (set_prev i v bs j) = b_disk (bs j)"
  "b_dev (set_prev i v bs j) = b_dev (bs j)" "b_blockno (set_prev i v bs j) = b_blockno (bs j)"
  "b_refcnt (set_prev i v bs j) = b_refcnt (bs j)" "b_data (set_prev i v bs j) = b_data (bs j)"
  "b_next (set_prev i v bs j) = b_next (bs j)" "b_prev (set_prev i v bs j) = (if j = i then v else b_prev (bs j))"
  "b_valid (set_next i v bs j) = b_valid (bs j)" "b_disk (set_next i v bs j) = b_disk (bs j)"
  "b_dev (set_next i v bs j) = b_dev (bs j)" "b_blockno (set_next i v bs j) = b_blockno (bs j)"
  "b_refcnt (set_next i v bs j) = b_refcnt (bs j)" "b_data (set_next i v bs j) = b_data (bs j)"
  "b_prev (set_next i v bs j) = b_prev (bs j)" "b_next (set_next i v bs j) = (if j = i then v else b_next (bs j))"
  by (simp_all add: set_prev_def set_next_def)

definition unlinked :: "nat \<Rightarrow> (nat \<Rightarrow> buf) \<Rightarrow> nat \<Rightarrow> buf" where
  "unlinked b bs = set_next (b_prev (bs b)) (b_next (bs b)) (set_prev (b_next (bs b)) (b_prev (bs b)) bs)"

definition pushed_front :: "nat \<Rightarrow> (nat \<Rightarrow> buf) \<Rightarrow> nat \<Rightarrow> buf" where
  "pushed_front b bs = set_next NBUF b (set_prev (b_next (bs NBUF)) b (set_prev b NBUF (set_next b (b_next (bs NBUF)) bs)))"

definition to_front :: "nat \<Rightarrow> (nat \<Rightarrow> buf) \<Rightarrow> nat \<Rightarrow> buf" where
  "to_front b bs = pushed_front b (unlinked b bs)"

lemma to_front_fields [simp]:
  "b_valid (to_front b bs i) = b_valid (bs i)" "b_disk (to_front b bs i) = b_disk (bs i)" "b_dev (to_front b bs i) = b_dev (bs i)"
  "b_blockno (to_front b bs i) = b_blockno (bs i)" "b_refcnt (to_front b bs i) = b_refcnt (bs i)"
  "b_data (to_front b bs i) = b_data (bs i)"
  by (simp_all add: to_front_def pushed_front_def unlinked_def)

lemma lru_ring_to_front:
  assumes "lru_ring bs l" "b < NBUF"
  shows "lru_ring (to_front b bs) (b # remove1 b l)"
proof -
  let ?n = "\<lambda>i. b_next (bs i)" and ?p = "\<lambda>i. b_prev (bs i)"
  note r = lru_ringD [OF assms(1)]
  obtain xs ys where l: "l = xs @ b # ys" using assms(2) r(4) split_list by (metis lessThan_iff)
  have d: "b \<notin> set xs" "b \<notin> set ys" "NBUF \<notin> set (xs @ ys)" "b \<noteq> NBUF" using r(3,6) l assms(2) by auto
  have "ring ?n ?p NBUF (xs @ b # ys)" using assms(1) l by (simp add: lru_ring_def)
  note u = ring_unlink [OF this] and e = ring_ends [OF this]
  have "last (NBUF # rev ys) \<in> set (NBUF # rev ys)" "last (NBUF # xs) \<in> set (NBUF # xs)" by (rule last_in_set; simp)+
  then have bn: "?n b \<noteq> b" "?p b \<noteq> b" using e d(1,2,4) by auto
  let ?m = "?n(?p b := ?n b)"
  have fb: "?m NBUF \<noteq> b"
  proof -
    have e: "?m NBUF = hd ((xs @ ys) @ [NBUF])" by (rule links_first [of ?m NBUF]) (use u in \<open>simp add: ring_def\<close>)
    have "hd ((xs @ ys) @ [NBUF]) \<in> set ((xs @ ys) @ [NBUF])" by (rule hd_in_set) simp
    then show ?thesis unfolding e using d by auto
  qed
  have "ring (?m(b := ?m NBUF, NBUF := b)) (?p(?n b := ?p b, b := NBUF, ?m NBUF := b)) NBUF (b # xs @ ys)"
    using ring_insert [OF u, of b] d by simp
  moreover have "(\<lambda>i. b_next (to_front b bs i)) = ?m(b := ?m NBUF, NBUF := b)"
    using bn d(4) by (auto simp: to_front_def pushed_front_def unlinked_def fun_eq_iff)
  moreover have "(\<lambda>i. b_prev (to_front b bs i)) = ?p(?n b := ?p b, b := NBUF, ?m NBUF := b)"
    using bn d(4) fb by (auto simp: to_front_def pushed_front_def unlinked_def fun_eq_iff)
  moreover have "remove1 b l = xs @ ys" using l d by (simp add: remove1_append)
  moreover have "set (b # xs @ ys) = {..<NBUF}" using r(4) l by auto
  ultimately show ?thesis by (simp add: lru_ring_def)
qed

definition released :: "nat \<Rightarrow> (nat \<Rightarrow> buf) \<Rightarrow> nat \<Rightarrow> buf" where
  "released b bs = (let bs = bs(b := (bs b)\<lparr>b_refcnt := b_refcnt (bs b) - 1\<rparr>) in
     if b_refcnt (bs b) = 0 then to_front b bs else bs)"

lemma runs_bmove: "runs (bmove b) s P = P () (s\<lparr>bufs := to_front b (bufs s)\<rparr>)"
  unfolding bmove_def runs_kthen runs_kbind runs_disk_access
  by (simp only: to_front_def pushed_front_def unlinked_def set_prev_def set_next_def) simp

lemma runs_brelse_raw:
  assumes "ctx s p" "sk_locked (slocks s (LkBuf b)) \<noteq> 0" "sk_pid (slocks s (LkBuf b)) = p_pid (procs s p)"
  shows "runs (brelse b) s P = P () (s\<lparr>
    slocks := (slocks s)(LkBuf b := (slocks s (LkBuf b))\<lparr>sk_locked := 0, sk_pid := 0\<rparr>),
    procs := wake_all (Some p) (ChBufLock b) (procs s), bufs := released b (bufs s)\<rparr>)"
proof -
  note c = ctx_hart [OF assms(1)]
  have sl: "sl_idle (hw s) (LkBuf b)" by (rule ctx_sl_idle [OF assms(1)]) simp
  show ?thesis
    using assms(2,3) c
    by (simp add: brelse_def runs_holdingsleep [OF sl c(6)] runs_releasesleep [OF sl] runs_bmove released_def Let_def)
qed

definition brelse_post :: "'z disk_state_scheme \<Rightarrow> u32 \<Rightarrow> nat list \<Rightarrow> 'z disk_state_scheme \<Rightarrow> bool" where
  "brelse_post s bn l t \<longleftrightarrow> bcache_ok t l \<and> io s t \<and> buf_of t = buf_of s \<and> (\<forall>i. b_valid (bufs t i) = b_valid (bufs s i)) \<and>
     view t = view s \<and> disk t = disk s \<and> refs t = (refs s)(bn := refs s bn - 1) \<and> lock_pid t = (lock_pid s)(bn := None) \<and>
     dtrace t = dtrace s"

lemma released_fields [simp]:
  "b_valid (released b bs i) = b_valid (bs i)" "b_dev (released b bs i) = b_dev (bs i)"
  "b_blockno (released b bs i) = b_blockno (bs i)" "b_data (released b bs i) = b_data (bs i)"
  "b_refcnt (released b bs i) = (if i = b then b_refcnt (bs b) - 1 else b_refcnt (bs i))"
  by (simp_all add: released_def Let_def)

lemma lru_ring_released:
  assumes "lru_ring bs l" "b < NBUF"
  shows "lru_ring (released b bs) (if b_refcnt (bs b) = 1 then b # remove1 b l else l)"
proof -
  let ?bs = "bs(b := (bs b)\<lparr>b_refcnt := b_refcnt (bs b) - 1\<rparr>)"
  have r: "lru_ring ?bs l" using assms(1) by (subst lru_ring_cong [of _ bs]) simp_all
  have "b_refcnt (bs b) - 1 = 0 \<longleftrightarrow> b_refcnt (bs b) = 1" by simp
  then show ?thesis using r lru_ring_to_front [OF r assms(2)]
    by (cases "b_refcnt (bs b) = 1") (simp_all add: released_def Let_def)
qed

lemma runs_brelse:
  assumes "ctx s p" "bcache_ok s l" "holding_block s p bn b" "refs s bn = 1 \<Longrightarrow> view s bn = disk s bn"
  shows "runs (brelse b) s (\<lambda>_. brelse_post s bn (if refs s bn = 1 then b # remove1 b l else l))"
proof -
  note h = holding_blockD [OF assms(2,3)]
  let ?l = "if refs s bn = 1 then b # remove1 b l else l"
  let ?t = "s\<lparr>slocks := (slocks s)(LkBuf b := (slocks s (LkBuf b))\<lparr>sk_locked := 0, sk_pid := 0\<rparr>),
    procs := wake_all (Some p) (ChBufLock b) (procs s), bufs := released b (bufs s)\<rparr>"
  have r1: "b_refcnt (bufs s b) = 1 \<longleftrightarrow> refs s bn = 1" using h(9) by (metis unat_1 word_unat_eq_iff)
  have hb: "holds_block (bufs ?t i) c = holds_block (bufs s i) c" for i c by (simp add: holds_block_def)
  have bo: "buf_of ?t = buf_of s" by (simp add: buf_of_def fun_eq_iff holds_block_def)
  have ok: "buf_ok ?t i" if "i < NBUF" for i
    using bcache_okD(2) [OF assms(2) that] h assms(4) r1 by (cases "i = b") (auto simp: buf_ok_def Let_def disk_def disk_of_def)
  have "lru_ring (bufs ?t) ?l" using lru_ring_released [OF bcache_okD(1) [OF assms(2)] h(1)] r1 by simp
  then have "bcache_ok ?t ?l"
    unfolding bcache_ok_def hb using ok assms(2) [unfolded bcache_ok_def] by (simp add: disk_idle_def)
  moreover have d: "disk ?t = disk s" by (rule disk_cong) simp
  moreover have "view ?t = view s" by (rule ext) (simp add: view_def bo d split: option.split)
  moreover have "refs ?t = (refs s)(bn := refs s bn - 1)"
  proof
    fix c show "refs ?t c = ((refs s)(bn := refs s bn - 1)) c"
      using buf_of_other [OF assms(2) h(11), of c] h(4,9,11) unat_minus_one [of "b_refcnt (bufs s b)"]
      by (cases "c = bn") (auto simp: refs_def bo split: option.split)
  qed
  moreover have "lock_pid ?t = (lock_pid s)(bn := None)"
  proof
    fix c show "lock_pid ?t c = ((lock_pid s)(bn := None)) c"
      using buf_of_other [OF assms(2) h(11), of c] h(11) by (cases "c = bn") (auto simp: lock_pid_def bo split: option.split)
  qed
  moreover have "io s ?t" by (simp add: io_def)
  moreover have "dtrace ?t = dtrace s" by (simp add: dtrace_def)
  ultimately have "brelse_post s bn ?l ?t" using bo by (simp add: brelse_post_def)
  then show ?thesis using runs_brelse_raw [OF assms(1) h(7,8)] by simp
qed

section \<open>The interface of the cache\<close>

text \<open>What the layers above rely on. \<open>seen\<close> is the contents of a block for a reader, \<open>dsk\<close> its contents on the
  disk, \<open>tr\<close> what the disk held before each write, \<open>cnt\<close> the references to it, \<open>owner\<close> the process that has it locked, \<open>mine s bn b\<close> says that the caller
  holds block \<open>bn\<close> in buffer \<open>b\<close>, \<open>avail s bn\<close> that a buffer for the block can be had without waiting.\<close>

locale block_cache =
  fixes read_op :: "u32 \<Rightarrow> (nat, 's) M" and store_op :: "nat \<Rightarrow> u8 list \<Rightarrow> (unit, 's) M"
    and write_op rel_op :: "nat \<Rightarrow> (unit, 's) M"
    and ok :: "'s \<Rightarrow> bool" and seen dsk :: "'s \<Rightarrow> u32 \<Rightarrow> u8 list" and cnt :: "'s \<Rightarrow> u32 \<Rightarrow> nat"
    and owner :: "'s \<Rightarrow> u32 \<Rightarrow> int option" and me :: "'s \<Rightarrow> int" and mine :: "'s \<Rightarrow> u32 \<Rightarrow> nat \<Rightarrow> bool"
    and avail :: "'s \<Rightarrow> u32 \<Rightarrow> bool" and tr :: "'s \<Rightarrow> (u32 \<Rightarrow> u8 list) list" and same :: "'s \<Rightarrow> 's \<Rightarrow> bool" and bsize :: nat
  assumes read_law: "ok s \<Longrightarrow> avail s bn \<Longrightarrow> runs (read_op bn) s (\<lambda>b t. ok t \<and> same s t \<and> me t = me s \<and> mine t bn b \<and>
      seen t = seen s \<and> dsk t = dsk s \<and> cnt t = (cnt s)(bn := cnt s bn + 1) \<and> owner t = (owner s)(bn := Some (me s)) \<and> tr t = tr s)"
    and store_law: "ok s \<Longrightarrow> mine s bn b \<Longrightarrow> length d = bsize \<Longrightarrow> runs (store_op b d) s (\<lambda>_ t. ok t \<and> same s t \<and> me t = me s \<and>
      mine t bn b \<and> seen t = (seen s)(bn := d) \<and> dsk t = dsk s \<and> cnt t = cnt s \<and> owner t = owner s \<and> tr t = tr s)"
    and write_law: "ok s \<Longrightarrow> mine s bn b \<Longrightarrow> runs (write_op b) s (\<lambda>_ t. ok t \<and> same s t \<and> me t = me s \<and> mine t bn b \<and>
      seen t = seen s \<and> dsk t = (dsk s)(bn := seen s bn) \<and> cnt t = cnt s \<and> owner t = owner s \<and> tr t = dsk s # tr s)"
    and rel_law: "ok s \<Longrightarrow> mine s bn b \<Longrightarrow> (cnt s bn = 1 \<longrightarrow> seen s bn = dsk s bn) \<Longrightarrow> runs (rel_op b) s (\<lambda>_ t. ok t \<and> same s t \<and>
      me t = me s \<and> seen t = seen s \<and> dsk t = dsk s \<and> cnt t = (cnt s)(bn := cnt s bn - 1) \<and> owner t = (owner s)(bn := None) \<and> tr t = tr s)"
    and avail_law: "ok s \<Longrightarrow> avail s bn \<Longrightarrow> owner s bn = None"
    and clean_law: "ok s \<Longrightarrow> cnt s bn = 0 \<Longrightarrow> seen s bn = dsk s bn"
    and same_trans: "same s t \<Longrightarrow> same t u \<Longrightarrow> same s u"
begin

text \<open>Replacing a block, durably.\<close>

definition write_block :: "u32 \<Rightarrow> u8 list \<Rightarrow> (unit, 's) M" where
  "write_block bn d = kbind (read_op bn) (\<lambda>b. kthen (store_op b d) (kthen (write_op b) (rel_op b)))"

lemma write_block_runs:
  assumes "ok s" "avail s bn" "length d = bsize"
  shows "runs (write_block bn d) s (\<lambda>_ t. ok t \<and> same s t \<and> me t = me s \<and> seen t = (seen s)(bn := d) \<and>
    dsk t = (dsk s)(bn := d) \<and> cnt t = cnt s \<and> owner t = owner s \<and> tr t = dsk s # tr s)"
proof -
  have on: "owner s bn = None" by (rule avail_law [OF assms(1,2)])
  have rel: "runs (rel_op b) w (\<lambda>_ t. ok t \<and> same s t \<and> me t = me s \<and> seen t = (seen s)(bn := d) \<and>
      dsk t = (dsk s)(bn := d) \<and> cnt t = cnt s \<and> owner t = owner s \<and> tr t = dsk s # tr s)"
    if w: "ok w" "same s w" "me w = me s" "mine w bn b" "seen w = (seen s)(bn := d)" "dsk w = (dsk s)(bn := d)"
      "cnt w = (cnt s)(bn := cnt s bn + 1)" "owner w = (owner s)(bn := Some (me s))"
      "tr w = dsk s # tr s" for b w
    by (rule runs_mono [OF rel_law [OF w(1,4)]])
       (use w on in \<open>auto simp: fun_upd_idem intro: same_trans\<close>)
  have wr: "runs (write_op b) v (\<lambda>_ w. runs (rel_op b) w (\<lambda>_ t. ok t \<and> same s t \<and> me t = me s \<and> seen t = (seen s)(bn := d) \<and>
      dsk t = (dsk s)(bn := d) \<and> cnt t = cnt s \<and> owner t = owner s \<and> tr t = dsk s # tr s))"
    if v: "ok v" "same s v" "me v = me s" "mine v bn b" "seen v = (seen s)(bn := d)" "dsk v = dsk s"
      "cnt v = (cnt s)(bn := cnt s bn + 1)" "owner v = (owner s)(bn := Some (me s))"
      "tr v = tr s" for b v
    by (rule runs_mono [OF write_law [OF v(1,4)]], rule rel) (use v in \<open>auto intro: same_trans\<close>)
  have store: "runs (store_op b d) u (\<lambda>_ v. runs (write_op b) v (\<lambda>_ w. runs (rel_op b) w (\<lambda>_ t. ok t \<and> same s t \<and> me t = me s \<and>
      seen t = (seen s)(bn := d) \<and> dsk t = (dsk s)(bn := d) \<and> cnt t = cnt s \<and> owner t = owner s \<and> tr t = dsk s # tr s)))"
    if u: "ok u \<and> same s u \<and> me u = me s \<and> mine u bn b \<and> seen u = seen s \<and> dsk u = dsk s \<and>
      cnt u = (cnt s)(bn := cnt s bn + 1) \<and> owner u = (owner s)(bn := Some (me s)) \<and> tr u = tr s" for b u
  proof (rule runs_mono [OF store_law [OF conjunct1 [OF u] _ assms(3)]])
    show "mine u bn b" using u by blast
  qed (rule wr; use u in \<open>auto intro: same_trans\<close>)
  show ?thesis unfolding write_block_def runs_kbind runs_kthen
    by (rule runs_mono [OF read_law [OF assms(1,2)]]) (rule store)
qed

text \<open>Reading a block and giving it back: nothing changes.\<close>

lemma read_release_runs:
  assumes "ok s" "avail s bn"
  shows "runs (kbind (read_op bn) rel_op) s (\<lambda>_ t. ok t \<and> same s t \<and> me t = me s \<and> seen t = seen s \<and> dsk t = dsk s \<and>
    cnt t = cnt s \<and> owner t = owner s \<and> tr t = tr s)"
proof -
  have on: "owner s bn = None" by (rule avail_law [OF assms(1,2)])
  have rel: "runs (rel_op b) u (\<lambda>_ t. ok t \<and> same s t \<and> me t = me s \<and> seen t = seen s \<and> dsk t = dsk s \<and>
      cnt t = cnt s \<and> owner t = owner s \<and> tr t = tr s)"
    if u: "ok u \<and> same s u \<and> me u = me s \<and> mine u bn b \<and> seen u = seen s \<and> dsk u = dsk s \<and>
      cnt u = (cnt s)(bn := cnt s bn + 1) \<and> owner u = (owner s)(bn := Some (me s)) \<and> tr u = tr s" for b u
  proof (rule runs_mono [OF rel_law])
    show "ok u" "mine u bn b" using u by blast+
    show "cnt u bn = 1 \<longrightarrow> seen u bn = dsk u bn" using u clean_law [OF assms(1)] by simp
  qed (use u on in \<open>auto simp: fun_upd_idem intro: same_trans\<close>)
  show ?thesis unfolding runs_kbind by (rule runs_mono [OF read_law [OF assms(1,2)]]) (rule rel)
qed

end

definition bc_ready :: "nat \<Rightarrow> 'z disk_state_scheme \<Rightarrow> bool" where
  "bc_ready p s \<longleftrightarrow> ctx s p \<and> (\<exists>l. bcache_ok s l)"

definition bc_avail :: "'z disk_state_scheme \<Rightarrow> u32 \<Rightarrow> bool" where
  "bc_avail s bn \<longleftrightarrow> bn < 2 ^ 31 \<and> lock_pid s bn = None \<and> refs s bn < 2 ^ 32 - 1 \<and> (0 < refs s bn \<or> card (used s) < NBUF)"

definition store_data :: "nat \<Rightarrow> u8 list \<Rightarrow> (unit, 'z disk_state_scheme) M" where
  "store_data b d = set_buf b (\<lambda>x. x\<lparr>b_data := d\<rparr>)"

lemma bc_readyE:
  assumes "bc_ready p s"
  obtains l where "ctx s p" "bcache_ok s l"
  using assms by (auto simp: bc_ready_def)

lemma holding_block_cong:
  "holding_block s p bn b \<Longrightarrow> buf_of t = buf_of s \<Longrightarrow> (\<And>i. b_valid (bufs t i) = b_valid (bufs s i)) \<Longrightarrow> refs t = refs s \<Longrightarrow>
   lock_pid t = lock_pid s \<Longrightarrow> procs t p = procs s p \<Longrightarrow> holding_block t p bn b"
  by (simp add: holding_block_def)

lemma clean_block:
  assumes "bcache_ok s l" "refs s bn = 0"
  shows "view s bn = disk s bn"
proof (cases "buf_of s bn")
  case (Some b)
  then have "b < NBUF" "holds_block (bufs s b) bn" using buf_of_Some [OF assms(1)] by auto
  then show ?thesis using bcache_okD(2) [OF assms(1), of b] assms(2) Some
    by (auto simp: view_def refs_def disk_def disk_of_def buf_ok_def holds_block_def Let_def unat_eq_zero)
qed (simp add: view_def)

lemma bc_read:
  assumes "bc_ready p s" "bc_avail s bn"
  shows "runs (bread ROOTDEV bn) s (\<lambda>b t. bc_ready p t \<and> io s t \<and> p_pid (procs t p) = p_pid (procs s p) \<and> holding_block t p bn b \<and>
      view t = view s \<and> disk t = disk s \<and> refs t = (refs s)(bn := refs s bn + 1) \<and>
      lock_pid t = (lock_pid s)(bn := Some (p_pid (procs s p))) \<and> dtrace t = dtrace s)"
proof -
  obtain l where c: "ctx s p" and l: "bcache_ok s l" using assms(1) by (rule bc_readyE)
  have "runs (bread ROOTDEV bn) s (bread_post s p bn l)" using assms(2) c l by (intro runs_bread) (simp_all add: bc_avail_def)
  then show ?thesis
  proof (rule runs_mono)
    fix b t assume t: "bread_post s p bn l b t"
    then have io: "io s t" by (simp add: bread_post_def)
    show "bc_ready p t \<and> io s t \<and> p_pid (procs t p) = p_pid (procs s p) \<and> holding_block t p bn b \<and>
      view t = view s \<and> disk t = disk s \<and> refs t = (refs s)(bn := refs s bn + 1) \<and>
      lock_pid t = (lock_pid s)(bn := Some (p_pid (procs s p))) \<and> dtrace t = dtrace s"
      using t io_pid [OF c io] io_ctx [OF c io] by (auto simp: bread_post_def bc_ready_def holding_block_def)
  qed
qed

lemma bc_store:
  assumes "bc_ready p s" "holding_block s p bn b" "length d = BSIZE"
  shows "runs (store_data b d) s (\<lambda>_ t. bc_ready p t \<and> io s t \<and> p_pid (procs t p) = p_pid (procs s p) \<and>
      holding_block t p bn b \<and> view t = (view s)(bn := d) \<and> disk t = disk s \<and> refs t = refs s \<and> lock_pid t = lock_pid s \<and> dtrace t = dtrace s)"
proof -
  obtain l where c: "ctx s p" and l: "bcache_ok s l" using assms(1) by (rule bc_readyE)
  note a = set_data_abs [OF l assms(2,3) refl]
  have "holding_block (s\<lparr>bufs := (bufs s)(b := (bufs s b)\<lparr>b_data := d\<rparr>)\<rparr>) p bn b"
    by (rule holding_block_cong [OF assms(2) a(2) _ a(5,6)]) simp_all
  then show ?thesis using a io_ctx [OF c a(7)] by (auto simp: store_data_def bc_ready_def)
qed

lemma bc_write:
  assumes "bc_ready p s" "holding_block s p bn b"
  shows "runs (bwrite b) s (\<lambda>_ t. bc_ready p t \<and> io s t \<and> p_pid (procs t p) = p_pid (procs s p) \<and> holding_block t p bn b \<and>
      view t = view s \<and> disk t = (disk s)(bn := view s bn) \<and> refs t = refs s \<and> lock_pid t = lock_pid s \<and> dtrace t = disk s # dtrace s)"
proof -
  obtain l where c: "ctx s p" and l: "bcache_ok s l" using assms(1) by (rule bc_readyE)
  show ?thesis
  proof (rule runs_mono [OF runs_bwrite [OF c l assms(2)]])
    fix t assume t: "bwrite_post s bn l t"
    then have io: "io s t" by (simp add: bwrite_post_def)
    have "holding_block t p bn b"
      by (rule holding_block_cong [OF assms(2)]) (use t io_pid [OF c io] in \<open>simp_all add: bwrite_post_def\<close>)
    then show "bc_ready p t \<and> io s t \<and> p_pid (procs t p) = p_pid (procs s p) \<and> holding_block t p bn b \<and>
      view t = view s \<and> disk t = (disk s)(bn := view s bn) \<and> refs t = refs s \<and> lock_pid t = lock_pid s \<and> dtrace t = disk s # dtrace s"
      using t io_pid [OF c io] io_ctx [OF c io] by (auto simp: bwrite_post_def bc_ready_def)
  qed
qed

lemma bc_release:
  assumes "bc_ready p s" "holding_block s p bn b" "refs s bn = 1 \<longrightarrow> view s bn = disk s bn"
  shows "runs (brelse b) s (\<lambda>_ t. bc_ready p t \<and> io s t \<and> p_pid (procs t p) = p_pid (procs s p) \<and> view t = view s \<and>
      disk t = disk s \<and> refs t = (refs s)(bn := refs s bn - 1) \<and> lock_pid t = (lock_pid s)(bn := None) \<and> dtrace t = dtrace s)"
proof -
  obtain l where c: "ctx s p" and l: "bcache_ok s l" using assms(1) by (rule bc_readyE)
  show ?thesis
  proof (rule runs_mono [OF runs_brelse [OF c l assms(2)]])
    show "refs s bn = 1 \<Longrightarrow> view s bn = disk s bn" using assms(3) by simp
    fix t assume t: "brelse_post s bn (if refs s bn = 1 then b # remove1 b l else l) t"
    then have io: "io s t" by (simp add: brelse_post_def)
    show "bc_ready p t \<and> io s t \<and> p_pid (procs t p) = p_pid (procs s p) \<and> view t = view s \<and>
      disk t = disk s \<and> refs t = (refs s)(bn := refs s bn - 1) \<and> lock_pid t = (lock_pid s)(bn := None) \<and> dtrace t = dtrace s"
      using t io_pid [OF c io] io_ctx [OF c io] by (auto simp: brelse_post_def bc_ready_def)
  qed
qed

interpretation bc: block_cache "bread ROOTDEV" store_data bwrite brelse "bc_ready p" view disk refs lock_pid
  "\<lambda>s. p_pid (procs s p)" "\<lambda>s. holding_block s p" bc_avail dtrace io BSIZE for p
proof
  show "bc_ready p s \<Longrightarrow> refs s bn = 0 \<Longrightarrow> view s bn = disk s bn" for s :: "'a disk_state_scheme" and bn
    by (erule bc_readyE) (rule clean_block)
  show "bc_avail s bn \<Longrightarrow> lock_pid s bn = None" for s :: "'a disk_state_scheme" and bn
    by (simp add: bc_avail_def)
qed (rule bc_read bc_store bc_write bc_release io_trans; assumption)+

section \<open>Running code on the cache\<close>

text \<open>The state of the cache as an assertion: \<open>cached p s A t\<close> says that process \<open>p\<close> runs in state \<open>t\<close>, that
  outside the cache \<open>t\<close> is \<open>s\<close> up to wakeups, and that the cache is described by \<open>A\<close>, whose last field names the
  buffers the process holds. One rule per operation.\<close>

record cabs =
  cv :: "u32 \<Rightarrow> u8 list"
  cd :: "u32 \<Rightarrow> u8 list"
  cr :: "u32 \<Rightarrow> nat"
  cl :: "u32 \<Rightarrow> int option"
  ct :: "(u32 \<Rightarrow> u8 list) list"
  ch :: "u32 \<Rightarrow> nat option"

definition cached :: "nat \<Rightarrow> 'z disk_state_scheme \<Rightarrow> cabs \<Rightarrow> 'z disk_state_scheme \<Rightarrow> bool" where
  "cached p s A t \<longleftrightarrow> bc_ready p t \<and> io s t \<and> view t = cv A \<and> disk t = cd A \<and> refs t = cr A \<and> lock_pid t = cl A \<and>
     dtrace t = ct A \<and> (\<forall>c b. ch A c = Some b \<longrightarrow> holding_block t p c b) \<and> p_pid (procs t p) = p_pid (procs s p)"

definition cabs_of :: "'z disk_state_scheme \<Rightarrow> cabs" where
  "cabs_of s = \<lparr>cv = view s, cd = disk s, cr = refs s, cl = lock_pid s, ct = dtrace s, ch = (\<lambda>_. None)\<rparr>"

lemma cached_start: "bc_ready p s \<Longrightarrow> cached p s (cabs_of s) s"
  by (simp add: cached_def cabs_of_def)

definition can_read :: "cabs \<Rightarrow> u32 \<Rightarrow> bool" where
  "can_read A bn \<longleftrightarrow> bn < 2 ^ 31 \<and> cl A bn = None \<and> cr A bn < 2 ^ 32 - 1 \<and> (0 < cr A bn \<or> card {c. 0 < cr A c} < NBUF)"

lemma runs_cached_bread:
  assumes "cached p s A t" "can_read A bn"
    and P: "\<And>b u. cached p s (A\<lparr>cr := (cr A)(bn := cr A bn + 1), cl := (cl A)(bn := Some (p_pid (procs s p))),
      ch := (ch A)(bn := Some b)\<rparr>) u \<Longrightarrow> P b u"
  shows "runs (bread ROOTDEV bn) t P"
proof -
  note a = assms(1) [unfolded cached_def]
  obtain l where c: "ctx t p" and l: "bcache_ok t l" using a by (auto elim: bc_readyE)
  have e: "used t = {c. 0 < cr A c}" using a by (simp add: used_def)
  have "runs (bread ROOTDEV bn) t (bread_post t p bn l)"
    using assms(2) a e by (intro runs_bread [OF c l]) (auto simp: can_read_def)
  then show ?thesis
  proof (rule runs_mono)
    fix b u assume post: "bread_post t p bn l b u"
    note q = post [unfolded bread_post_def]
    have io: "io t u" using q by simp
    have pid: "procs u p = procs t p" by (rule io_pid [OF c io])
    have other: "holding_block u p k i" if k: "ch A k = Some i" "k \<noteq> bn" for k i
    proof -
      have h: "holding_block t p k i" using a k by blast
      then have f: "buf_of t k = Some i" "0 < refs t k" by (simp_all add: holding_block_def)
      have "buf_of u k = Some i" using q f by simp
      moreover have "i \<noteq> b" using calculation q buf_of_other [of u l bn b k] k(2) by auto
      ultimately show ?thesis using h q k(2) pid by (simp add: holding_block_def)
    qed
    have "holding_block u p bn b" using q pid by (simp add: holding_block_def)
    then have "cached p s (A\<lparr>cr := (cr A)(bn := cr A bn + 1), cl := (cl A)(bn := Some (p_pid (procs s p))), ch := (ch A)(bn := Some b)\<rparr>) u"
      using q a pid other io_ctx [OF c io] io_trans [of s t u] by (auto simp: cached_def bc_ready_def)
    then show "P b u" by (rule P)
  qed
qed

lemma cached_data: "cached p s A t \<Longrightarrow> ch A bn = Some b \<Longrightarrow> b_data (bufs t b) = cv A bn \<and> b_blockno (bufs t b) = bn \<and> length (cv A bn) = BSIZE"
  unfolding cached_def using holding_blockD [of t _ p bn b] by (metis bc_readyE)

lemma runs_cached_get_data:
  "cached p s A t \<Longrightarrow> ch A bn = Some b \<Longrightarrow> P (cv A bn) t \<Longrightarrow> runs (get_buf b b_data) t P"
  by (simp add: cached_data)

lemma runs_cached_store:
  assumes "cached p s A t" "ch A bn = Some b" "length d = BSIZE"
    and P: "\<And>u. cached p s (A\<lparr>cv := (cv A)(bn := d)\<rparr>) u \<Longrightarrow> P () u"
  shows "runs (store_data b d) t P"
proof -
  note a = assms(1) [unfolded cached_def]
  obtain l where c: "ctx t p" and l: "bcache_ok t l" using a by (auto elim: bc_readyE)
  have h: "holding_block t p bn b" using a assms(2) by blast
  define u where "u = t\<lparr>bufs := (bufs t)(b := (bufs t b)\<lparr>b_data := d\<rparr>)\<rparr>"
  note e = set_data_abs [OF l h assms(3) u_def]
  have "holding_block u p k i" if "ch A k = Some i" for k i
    by (rule holding_block_cong [of t]) (use a that e in \<open>simp_all add: u_def\<close>)
  then have "cached p s (A\<lparr>cv := (cv A)(bn := d)\<rparr>) u"
    using e a io_ctx [OF c e(7)] io_trans [of s t u] by (auto simp: cached_def bc_ready_def u_def)
  then show ?thesis using P by (simp add: store_data_def u_def)
qed

lemma runs_cached_bwrite:
  assumes "cached p s A t" "ch A bn = Some b"
    and P: "\<And>u. cached p s (A\<lparr>cd := (cd A)(bn := cv A bn), ct := cd A # ct A\<rparr>) u \<Longrightarrow> P () u"
  shows "runs (bwrite b) t P"
proof -
  note a = assms(1) [unfolded cached_def]
  obtain l where c: "ctx t p" and l: "bcache_ok t l" using a by (auto elim: bc_readyE)
  have h: "holding_block t p bn b" using a assms(2) by blast
  show ?thesis
  proof (rule runs_mono [OF runs_bwrite [OF c l h]])
    fix x :: unit and u assume post: "bwrite_post t bn l u"
    note q = post [unfolded bwrite_post_def]
    have io: "io t u" using q by simp
    have pid: "procs u p = procs t p" by (rule io_pid [OF c io])
    have "holding_block u p k i" if "ch A k = Some i" for k i
      by (rule holding_block_cong [of t]) (use a that q pid in simp_all)
    then have "cached p s (A\<lparr>cd := (cd A)(bn := cv A bn), ct := cd A # ct A\<rparr>) u"
      using q a pid io_ctx [OF c io] io_trans [of s t u] by (auto simp: cached_def bc_ready_def)
    then show "P x u" using P by simp
  qed
qed

lemma runs_cached_brelse:
  assumes "cached p s A t" "ch A bn = Some b" "cr A bn = 1 \<Longrightarrow> cv A bn = cd A bn"
    and P: "\<And>u. cached p s (A\<lparr>cr := (cr A)(bn := cr A bn - 1), cl := (cl A)(bn := None), ch := (ch A)(bn := None)\<rparr>) u \<Longrightarrow> P () u"
  shows "runs (brelse b) t P"
proof -
  note a = assms(1) [unfolded cached_def]
  obtain l where c: "ctx t p" and l: "bcache_ok t l" using a by (auto elim: bc_readyE)
  have h: "holding_block t p bn b" using a assms(2) by blast
  show ?thesis
  proof (rule runs_mono [OF runs_brelse [OF c l h]])
    show "refs t bn = 1 \<Longrightarrow> view t bn = disk t bn" using assms(3) a by simp
    fix x :: unit and u assume post: "brelse_post t bn (if refs t bn = 1 then b # remove1 b l else l) u"
    note q = post [unfolded brelse_post_def]
    have io: "io t u" using q by simp
    have pid: "procs u p = procs t p" by (rule io_pid [OF c io])
    have "holding_block u p k i" if k: "ch A k = Some i" "k \<noteq> bn" for k i
    proof -
      have "holding_block t p k i" using a k by blast
      then show ?thesis using k(2) q pid by (simp add: holding_block_def)
    qed
    then have "cached p s (A\<lparr>cr := (cr A)(bn := cr A bn - 1), cl := (cl A)(bn := None), ch := (ch A)(bn := None)\<rparr>) u"
      using q a pid io_ctx [OF c io] io_trans [of s t u] by (auto simp: cached_def bc_ready_def)
    then show "P x u" using P by simp
  qed
qed

lemma cached_pin:
  assumes "cached p s A t" "ch A bn = Some b" "r \<noteq> 0"
  shows "cached p s (A\<lparr>cr := (cr A)(bn := unat r)\<rparr>) (t\<lparr>bufs := (bufs t)(b := (bufs t b)\<lparr>b_refcnt := r\<rparr>)\<rparr>)" (is "cached p s _ ?u")
proof -
  note a = assms(1) [unfolded cached_def]
  obtain l where c: "ctx t p" and l: "bcache_ok t l" using a by (auto elim: bc_readyE)
  have bo: "buf_of t bn = Some b" using a assms(2) by (auto simp: holding_block_def)
  have i: "disk_idle ?u" using bcache_okD(4) [OF l] by (simp add: disk_idle_def)
  note e = set_refcnt_abs [OF l bo assms(3), of ?u]
  have lp: "lock_pid ?u = lock_pid t" by (rule lock_pid_cong [OF e(2)]) (simp_all add: i)
  have r0: "0 < unat r" using assms(3) by (simp add: unat_gt_0)
  have "holding_block ?u p k j" if k: "ch A k = Some j" for k j
  proof -
    have "holding_block t p k j" using a k by blast
    then show ?thesis using e(2,5) lp i r0 by (auto simp: holding_block_def)
  qed
  moreover have "io t ?u" by (simp add: io_def)
  ultimately show ?thesis
    using e i lp a io_ctx [OF c \<open>io t ?u\<close>] io_trans [of s t ?u] by (auto simp: cached_def bc_ready_def dtrace_def)
qed

lemma runs_bpin_raw:
  "hart_ok (hw s) \<Longrightarrow> lock_idle (hw s) LkBcache \<Longrightarrow> runs (bpin b) s P =
     P () (s\<lparr>bufs := (bufs s)(b := (bufs s b)\<lparr>b_refcnt := b_refcnt (bufs s b) + 1\<rparr>)\<rparr>)"
  by (simp add: bpin_def)

lemma cached_refcnt: "cached p s A t \<Longrightarrow> ch A bn = Some b \<Longrightarrow> unat (b_refcnt (bufs t b)) = cr A bn \<and> 0 < cr A bn \<and> bn < 2 ^ 31"
  unfolding cached_def using holding_blockD [of t _ p bn b] by (metis bc_readyE holding_block_def)

lemma runs_cached_bunpin:
  assumes "cached p s A t" "ch A bn = Some b" "1 < cr A bn"
    and P: "\<And>u. cached p s (A\<lparr>cr := (cr A)(bn := cr A bn - 1)\<rparr>) u \<Longrightarrow> P () u"
  shows "runs (bunpin b) t P"
proof -
  let ?r = "b_refcnt (bufs t b) - 1"
  have u: "unat (b_refcnt (bufs t b)) = cr A bn" using cached_refcnt [OF assms(1,2)] by blast
  then have r: "unat ?r = cr A bn - 1" using assms(3) by (subst unat_minus_one) auto
  then have "?r \<noteq> 0" using assms(3) by auto
  from P [OF cached_pin [OF assms(1,2) this, unfolded r]]
  have "P () (t\<lparr>bufs := (bufs t)(b := (bufs t b)\<lparr>b_refcnt := ?r\<rparr>)\<rparr>)" .
  moreover have c: "ctx t p" using assms(1) by (auto simp: cached_def bc_ready_def)
  ultimately show ?thesis using ctx_hart [OF c] by (simp add: bunpin_def)
qed

text \<open>The state outside the cache.\<close>

lemma cachedD:
  assumes "cached p s A t"
  shows "hw t = hw s" "disk_state.more t = disk_state.more s" "ctx t p" "io s t"
  using assms ioD(1,11) [of s t] by (auto simp: cached_def bc_ready_def)

text \<open>The same rules with the change of the abstract state as an operation, for clients that handle several blocks.\<close>

definition a_get :: "u32 \<Rightarrow> nat \<Rightarrow> int \<Rightarrow> cabs \<Rightarrow> cabs" where
  "a_get bn b pid A = A\<lparr>cr := (cr A)(bn := cr A bn + 1), cl := (cl A)(bn := Some pid), ch := (ch A)(bn := Some b)\<rparr>"

definition a_store :: "u32 \<Rightarrow> u8 list \<Rightarrow> cabs \<Rightarrow> cabs" where
  "a_store bn d A = A\<lparr>cv := (cv A)(bn := d)\<rparr>"

definition a_flush :: "u32 \<Rightarrow> cabs \<Rightarrow> cabs" where
  "a_flush bn A = A\<lparr>cd := (cd A)(bn := cv A bn), ct := cd A # ct A\<rparr>"

definition a_put :: "u32 \<Rightarrow> cabs \<Rightarrow> cabs" where
  "a_put bn A = A\<lparr>cr := (cr A)(bn := cr A bn - 1), cl := (cl A)(bn := None), ch := (ch A)(bn := None)\<rparr>"

definition a_unpin :: "u32 \<Rightarrow> cabs \<Rightarrow> cabs" where
  "a_unpin bn A = A\<lparr>cr := (cr A)(bn := cr A bn - 1)\<rparr>"

lemma a_simps [simp]:
  "cv (a_get bn b pid A) = cv A" "cd (a_get bn b pid A) = cd A" "ct (a_get bn b pid A) = ct A"
  "cr (a_get bn b pid A) = (cr A)(bn := cr A bn + 1)" "cl (a_get bn b pid A) = (cl A)(bn := Some pid)" "ch (a_get bn b pid A) = (ch A)(bn := Some b)"
  "cv (a_store bn d A) = (cv A)(bn := d)" "cd (a_store bn d A) = cd A" "ct (a_store bn d A) = ct A"
  "cr (a_store bn d A) = cr A" "cl (a_store bn d A) = cl A" "ch (a_store bn d A) = ch A"
  "cv (a_flush bn A) = cv A" "cd (a_flush bn A) = (cd A)(bn := cv A bn)" "ct (a_flush bn A) = cd A # ct A"
  "cr (a_flush bn A) = cr A" "cl (a_flush bn A) = cl A" "ch (a_flush bn A) = ch A"
  "cv (a_put bn A) = cv A" "cd (a_put bn A) = cd A" "ct (a_put bn A) = ct A"
  "cr (a_put bn A) = (cr A)(bn := cr A bn - 1)" "cl (a_put bn A) = (cl A)(bn := None)" "ch (a_put bn A) = (ch A)(bn := None)"
  "cv (a_unpin bn A) = cv A" "cd (a_unpin bn A) = cd A" "ct (a_unpin bn A) = ct A"
  "cr (a_unpin bn A) = (cr A)(bn := cr A bn - 1)" "cl (a_unpin bn A) = cl A" "ch (a_unpin bn A) = ch A"
  by (simp_all add: a_get_def a_store_def a_flush_def a_put_def a_unpin_def)

lemma cached_cong:
  "cached p s A t \<Longrightarrow> cv B = cv A \<Longrightarrow> cd B = cd A \<Longrightarrow> cr B = cr A \<Longrightarrow> cl B = cl A \<Longrightarrow> ct B = ct A \<Longrightarrow> ch B = ch A \<Longrightarrow>
   cached p s B t"
  by (simp add: cached_def)

lemma runs_a_get:
  "cached p s A t \<Longrightarrow> can_read A bn \<Longrightarrow> (\<And>b u. cached p s (a_get bn b (p_pid (procs s p)) A) u \<Longrightarrow> P b u) \<Longrightarrow> runs (bread ROOTDEV bn) t P"
  unfolding a_get_def by (rule runs_cached_bread)

lemma runs_a_data:
  "cached p s A t \<Longrightarrow> ch A bn = Some b \<Longrightarrow> (length (cv A bn) = BSIZE \<Longrightarrow> P (cv A bn) t) \<Longrightarrow> runs (get_buf b b_data) t P"
  by (simp add: cached_data)

lemma runs_a_store:
  "cached p s A t \<Longrightarrow> ch A bn = Some b \<Longrightarrow> length d = BSIZE \<Longrightarrow> (\<And>u. cached p s (a_store bn d A) u \<Longrightarrow> P () u) \<Longrightarrow> runs (store_data b d) t P"
  unfolding a_store_def by (rule runs_cached_store)

lemma runs_a_flush:
  "cached p s A t \<Longrightarrow> ch A bn = Some b \<Longrightarrow> (\<And>u. cached p s (a_flush bn A) u \<Longrightarrow> P () u) \<Longrightarrow> runs (bwrite b) t P"
  unfolding a_flush_def by (rule runs_cached_bwrite)

lemma runs_a_put:
  "cached p s A t \<Longrightarrow> ch A bn = Some b \<Longrightarrow> (cr A bn = 1 \<Longrightarrow> cv A bn = cd A bn) \<Longrightarrow> (\<And>u. cached p s (a_put bn A) u \<Longrightarrow> P () u) \<Longrightarrow>
   runs (brelse b) t P"
  unfolding a_put_def by (rule runs_cached_brelse)

lemma runs_a_unpin:
  "cached p s A t \<Longrightarrow> ch A bn = Some b \<Longrightarrow> 1 < cr A bn \<Longrightarrow> (\<And>u. cached p s (a_unpin bn A) u \<Longrightarrow> P () u) \<Longrightarrow> runs (bunpin b) t P"
  unfolding a_unpin_def by (rule runs_cached_bunpin)

section \<open>binit\<close>

definition binit_inv :: "'z disk_state_scheme \<Rightarrow> nat \<Rightarrow> 'z disk_state_scheme \<Rightarrow> bool" where
  "binit_inv s k t \<longleftrightarrow> k \<le> NBUF \<and>
     ring (\<lambda>i. b_next (bufs t i)) (\<lambda>i. b_prev (bufs t i)) NBUF (rev [0..<k]) \<and>
     (\<forall>i. \<exists>nx pv. bufs t i = (bufs s i)\<lparr>b_next := nx, b_prev := pv\<rparr>) \<and>
     (\<forall>i < k. sk_locked (slocks t (LkBuf i)) = 0) \<and>
     vdisk t = vdisk s \<and> dimg t = dimg s \<and> blkdev t = blkdev s \<and> dev_avail t = dev_avail s \<and> procs t = procs s"

lemma links_pushed_front:
  assumes "b \<noteq> NBUF"
  shows "(\<lambda>i. b_next (pushed_front b bs i)) = (\<lambda>i. b_next (bs i))(b := b_next (bs NBUF), NBUF := b)"
    "b_next (bs NBUF) \<noteq> b \<Longrightarrow> (\<lambda>i. b_prev (pushed_front b bs i)) = (\<lambda>i. b_prev (bs i))(b := NBUF, b_next (bs NBUF) := b)"
  using assms by (auto simp: pushed_front_def fun_eq_iff)

lemma pushed_front_fields:
  "\<exists>nx pv. pushed_front b bs i = (bs i)\<lparr>b_next := nx, b_prev := pv\<rparr>"
  by (rule exI [of _ "b_next (pushed_front b bs i)"], rule exI [of _ "b_prev (pushed_front b bs i)"], rule buf.equality)
     (simp_all add: pushed_front_def)

lemma binit_inv_step:
  assumes "binit_inv s k t" "k < NBUF" "bufs u = pushed_front k (bufs t)"
    "slocks u = (slocks t)(LkBuf k := x)" "sk_locked x = 0"
    "vdisk u = vdisk t" "dimg u = dimg t" "blkdev u = blkdev t" "dev_avail u = dev_avail t" "procs u = procs t"
  shows "binit_inv s (Suc k) u"
proof -
  note i = assms(1) [unfolded binit_inv_def]
  have r: "ring (\<lambda>i. b_next (bufs t i)) (\<lambda>i. b_prev (bufs t i)) NBUF (rev [0..<k])" using i by blast
  have "b_next (bufs t NBUF) = hd (rev [0..<k] @ [NBUF])"
    by (rule links_first [of "\<lambda>i. b_next (bufs t i)" NBUF]) (use r in \<open>simp add: ring_def\<close>)
  moreover have "hd (rev [0..<k] @ [NBUF]) \<in> set (rev [0..<k] @ [NBUF])" by (rule hd_in_set) simp
  ultimately have "b_next (bufs t NBUF) \<in> set (rev [0..<k] @ [NBUF])" by (simp only:)
  then have n: "b_next (bufs t NBUF) \<noteq> k" using assms(2) by auto
  have "ring (\<lambda>i. b_next (bufs u i)) (\<lambda>i. b_prev (bufs u i)) NBUF (rev [0..<Suc k])"
    using ring_insert [OF r, of k] assms(2) n by (simp add: assms(3) links_pushed_front)
  moreover have "\<exists>nx pv. bufs u j = (bufs s j)\<lparr>b_next := nx, b_prev := pv\<rparr>" for j
  proof -
    obtain n1 p1 n2 p2 where "bufs t j = (bufs s j)\<lparr>b_next := n1, b_prev := p1\<rparr>"
      "pushed_front k (bufs t) j = (bufs t j)\<lparr>b_next := n2, b_prev := p2\<rparr>"
      using i pushed_front_fields by metis
    then show ?thesis unfolding assms(3) by (intro exI [of _ n2] exI [of _ p2]) simp
  qed
  ultimately show ?thesis using i assms by (auto simp: binit_inv_def less_Suc_eq)
qed

lemma runs_binit:
  "runs binit s (\<lambda>_ t. binit_inv s NBUF t)"
proof -
  have start: "binit_inv s 0 (s\<lparr>hw := h, bufs := (bufs s)(NBUF := (bufs s NBUF)\<lparr>b_prev := NBUF, b_next := NBUF\<rparr>)\<rparr>)" for h
  proof -
    have "\<exists>nx pv. ((bufs s)(NBUF := (bufs s NBUF)\<lparr>b_prev := NBUF, b_next := NBUF\<rparr>)) i = (bufs s i)\<lparr>b_next := nx, b_prev := pv\<rparr>" for i
      by (rule exI [of _ "if i = NBUF then NBUF else b_next (bufs s i)"], rule exI [of _ "if i = NBUF then NBUF else b_prev (bufs s i)"]) simp
    then show ?thesis by (simp add: binit_inv_def ring_empty)
  qed
  let ?I = "\<lambda>is t. \<exists>k. is = [k..<NBUF] \<and> binit_inv s k t"
  let ?body = "\<lambda>b. kbind (get_buf NBUF b_next) (\<lambda>first. kthen (set_buf b (\<lambda>x. x\<lparr>b_next := first\<rparr>)) (
    kthen (set_buf b (\<lambda>x. x\<lparr>b_prev := NBUF\<rparr>)) (kthen (initsleeplock (LkBuf b) ''buffer'') (
    kthen (set_buf first (\<lambda>x. x\<lparr>b_prev := b\<rparr>)) (set_buf NBUF (\<lambda>h. h\<lparr>b_next := b\<rparr>))))))"
  have body: "runs (?body k) t (\<lambda>_ u. binit_inv s (Suc k) u)" if "binit_inv s k t" "k < NBUF" for k t
    unfolding runs_kbind runs_kthen runs_disk_access initsleeplock_def initlock_def set_lock_def runs_modify runs_set_slock
    by (rule binit_inv_step [OF that, where x = "(slocks t (LkBuf k))\<lparr>sk_name := ''buffer'', sk_locked := 0, sk_pid := 0\<rparr>"])
       (simp_all add: pushed_front_def set_prev_def set_next_def)
  have loop: "runs (kforall [0..<NBUF] ?body) t (\<lambda>_ u. ?I [] u)" if "binit_inv s 0 t" for t
  proof (rule runs_kforall_inv [where I = ?I])
    show "\<exists>k. [0..<NBUF] = [k..<NBUF] \<and> binit_inv s k t" using that by blast
    fix i "is" t assume "\<exists>k. i # is = [k..<NBUF] \<and> binit_inv s k t"
    then obtain k where k: "i # is = [k..<NBUF]" "binit_inv s k t" by blast
    then have "k < NBUF" "i = k" "is = [Suc k..<NBUF]" using upt_eq_Cons_conv [of k NBUF i "is"] by auto
    note e = this
    show "runs (?body i) t (\<lambda>_ u. \<exists>k. is = [k..<NBUF] \<and> binit_inv s k u)"
      unfolding e(2) by (rule runs_mono [OF body [OF k(2) e(1)]]) (use e(3) in blast)
  qed
  have "runs (kforall [0..<NBUF] ?body) (s\<lparr>hw := h, bufs := (bufs s)(NBUF := (bufs s NBUF)\<lparr>b_prev := NBUF, b_next := NBUF\<rparr>)\<rparr>)
      (\<lambda>_ t. binit_inv s NBUF t)" for h
  proof (rule runs_mono [OF loop [OF start]])
    fix t assume "\<exists>k. [] = [k..<NBUF] \<and> binit_inv s k t"
    then obtain k where k: "[] = [k..<NBUF]" "binit_inv s k t" by blast
    then have "NBUF \<le> k" by (metis upt_eq_Nil_conv le0 order_trans not_less_zero linorder_le_less_linear)
    with k(2) show "binit_inv s NBUF t" by (metis binit_inv_def le_antisym)
  qed
  then show ?thesis by (simp add: binit_def initlock_def set_lock_def del: runs_kbind)
qed

section \<open>Properties\<close>

text \<open>A disk that keeps its contract, and a system whose cache is fresh.\<close>

definition demo_blkdev :: "virtio_blk_req \<Rightarrow> u8 list \<Rightarrow> dimage \<Rightarrow> u8 \<times> u8 list \<times> dimage" where
  "demo_blkdev r data img = (if br_type r = VIRTIO_BLK_T_IN
     then (0, img (br_sector r) @ img (br_sector r + 1), img)
     else (0, data, img(br_sector r := take 512 data, br_sector r + 1 := drop 512 data)))"

definition demo_vdisk :: vdisk where
  "demo_vdisk = \<lparr>v_desc_pa = 0x80110000, v_avail_pa = 0x80111000, v_used_pa = 0x80112000, v_desc = (\<lambda>_. zero_desc),
     v_avail = zero_avail, v_used = zero_used, v_free = (\<lambda>_. 1), v_used_idx = 0,
     v_info = (\<lambda>_. \<lparr>di_b = None, di_status = 0\<rparr>), v_ops = (\<lambda>_. \<lparr>br_type = 0, br_reserved = 0, br_sector = 0\<rparr>)\<rparr>"

definition demo_bufs :: "nat \<Rightarrow> buf" where
  "demo_bufs i = \<lparr>b_valid = 0, b_disk = 0, b_dev = 0, b_blockno = 0, b_refcnt = 0, b_prev = if i = NBUF then 0 else i + 1,
     b_next = if i = NBUF then NBUF - 1 else if i = 0 then NBUF else i - 1, b_data = replicate BSIZE 0\<rparr>"

definition demo_disk :: disk_state where
  "demo_disk = \<lparr>hw = run_hart, mem = demo_mem, sym = boot_symbols, freelist = 0, kernel_pagetable = 0,
     satp = (\<lambda>_. 0), procs = demo_table, nextpid = 3, initproc = Some 0,
     slocks = (\<lambda>_. \<lparr>sk_locked = 0, sk_name = [], sk_pid = 0\<rparr>), bus = (\<lambda>_ _. 0), bus_log = [], panicked = 0, pr_locking = 1,
     vdisk = demo_vdisk, bufs = demo_bufs, dimg = (\<lambda>sec. replicate 512 (ucast sec)), blkdev = demo_blkdev, dev_avail = 0, dhist = []\<rparr>"

lemma blk_ok_demo: "blk_ok demo_blkdev"
  by (auto simp: blk_ok_def demo_blkdev_def VIRTIO_BLK_T_IN_def VIRTIO_BLK_T_OUT_def)

lemma demo_disk_idle: "disk_idle demo_disk"
  by (simp add: disk_idle_def demo_disk_def demo_vdisk_def zero_avail_def zero_used_def blk_ok_demo)

lemma demo_disk_ctx: "ctx demo_disk 0"
  by (simp add: ctx_def demo_disk_def demo_table_def zero_proc_def NPROC_def)

lemma demo_ring: "lru_ring demo_bufs (rev [0..<NBUF])"
proof -
  have n: "[0..<NBUF] = [0,1,2,3,4,5,6,7,8,9,10,11,12,13,14,15,16,17,18,19,20,21,22,23,24,25,26,27,28,29]"
    by (simp add: NBUF_def upt_rec)
  have "ring (\<lambda>i. b_next (demo_bufs i)) (\<lambda>i. b_prev (demo_bufs i)) NBUF (rev [0..<NBUF])"
    unfolding n by (simp add: ring_def demo_bufs_def NBUF_def)
  then show ?thesis by (auto simp: lru_ring_def)
qed

lemma demo_bcache_ok: "bcache_ok demo_disk (rev [0..<NBUF])"
  using demo_ring demo_disk_idle
  by (simp add: bcache_ok_def buf_ok_def holds_block_def demo_disk_def demo_bufs_def ROOTDEV_def)

lemma demo_abs:
  "buf_of demo_disk bn = None" "refs demo_disk bn = 0" "lock_pid demo_disk bn = None" "used demo_disk = {}"
  "view demo_disk bn = disk demo_disk bn"
proof -
  show b: "buf_of demo_disk bn = None" for bn
    by (simp add: buf_of_None holds_block_def demo_disk_def demo_bufs_def ROOTDEV_def)
  show "refs demo_disk bn = 0" for bn by (simp add: refs_def b)
  then show "used demo_disk = {}" by (simp add: used_def)
  show "lock_pid demo_disk bn = None" "view demo_disk bn = disk demo_disk bn" by (simp_all add: lock_pid_def view_def b)
qed

lemma demo_avail: "bn < 2 ^ 31 \<Longrightarrow> bc_avail demo_disk bn"
  by (simp add: bc_avail_def demo_abs NBUF_def)



text \<open>C25: \<open>bread\<close> returns the block. With the cache in order, the block not locked by anyone and either cached
  in use or a buffer to recycle, \<open>bread\<close> returns a buffer locked for the caller that holds the block's current
  contents; no block's contents have changed for any reader, on the disk or in the cache; the links still
  form one ring through all buffers, no block is in two buffers, and no buffer in use has been recycled.\<close>

theorem bread_correct:
  assumes "ctx s p" "bcache_ok s l" "bn < 2 ^ 31" "lock_pid s bn = None" "refs s bn < 2 ^ 32 - 1"
    "0 < refs s bn \<or> card (used s) < NBUF"
  shows "runs (bread ROOTDEV bn) s (\<lambda>b t. bcache_ok t l \<and> buf_of t bn = Some b \<and> b_data (bufs t b) = view s bn \<and>
    lock_pid t = (lock_pid s)(bn := Some (p_pid (procs s p))) \<and> refs t = (refs s)(bn := refs s bn + 1) \<and>
    view t = view s \<and> disk t = disk s \<and> (\<forall>c. 0 < refs s c \<longrightarrow> buf_of t c = buf_of s c) \<and> hw t = hw s)"
proof (rule runs_mono [OF runs_bread [OF assms]])
  fix b t assume t: "bread_post s p bn l b t"
  then have "hw t = hw s" by (intro ioD(1)) (simp add: bread_post_def)
  with t show "bcache_ok t l \<and> buf_of t bn = Some b \<and> b_data (bufs t b) = view s bn \<and>
    lock_pid t = (lock_pid s)(bn := Some (p_pid (procs s p))) \<and> refs t = (refs s)(bn := refs s bn + 1) \<and>
    view t = view s \<and> disk t = disk s \<and> (\<forall>c. 0 < refs s c \<longrightarrow> buf_of t c = buf_of s c) \<and> hw t = hw s"
    by (simp add: bread_post_def)
qed

theorem bread_correct_witness:
  "bcache_ok demo_disk (rev [0..<NBUF]) \<and>
   runs (bread ROOTDEV 1) demo_disk (\<lambda>b t. b_data (bufs t b) = replicate 512 2 @ replicate 512 3)"
proof -
  have "view demo_disk 1 = replicate 512 2 @ replicate 512 3"
    by (simp add: demo_abs(5)) (simp add: disk_def disk_of_def blk_def sector_of_def demo_disk_def)
  then show ?thesis
    using runs_mono [OF bread_correct [OF demo_disk_ctx demo_bcache_ok, of 1],
        of "\<lambda>b t. b_data (bufs t b) = replicate 512 2 @ replicate 512 3"] demo_bcache_ok
    by (simp add: demo_abs NBUF_def)
qed

text \<open>C26: \<open>brelse\<close> keeps the cache in order and its buffers sorted by last use: the lock is given up, one
  reference is dropped, and when it was the last one the buffer moves to the front of the ring and all
  others keep their order. A block changed in the cache only must not lose its last reference.\<close>

theorem brelse_keeps_lru:
  assumes "ctx s p" "bcache_ok s l" "holding_block s p bn b" "refs s bn = 1 \<Longrightarrow> view s bn = disk s bn"
  shows "runs (brelse b) s (\<lambda>_ t. bcache_ok t (if refs s bn = 1 then b # remove1 b l else l) \<and>
    refs t = (refs s)(bn := refs s bn - 1) \<and> lock_pid t = (lock_pid s)(bn := None) \<and> view t = view s \<and> disk t = disk s)"
  by (rule runs_mono [OF runs_brelse [OF assms]]) (simp_all add: brelse_post_def)

theorem brelse_keeps_lru_witness:
  "\<exists>b t. bread ROOTDEV 1 demo_disk = Ok b t \<and> holding_block t 0 1 b \<and> refs t 1 = 1 \<and>
    runs (brelse b) t (\<lambda>_ u. bcache_ok u (b # remove1 b (rev [0..<NBUF])) \<and> refs u 1 = 0)"
proof -
  have "runs (bread ROOTDEV 1) demo_disk (bread_post demo_disk 0 1 (rev [0..<NBUF]))"
    by (rule runs_bread [OF demo_disk_ctx demo_bcache_ok]) (simp_all add: demo_abs NBUF_def)
  then obtain b t where t: "bread ROOTDEV 1 demo_disk = Ok b t" and p: "bread_post demo_disk 0 1 (rev [0..<NBUF]) b t"
    by (auto simp: runs_iff)
  have io: "io demo_disk t" using p by (simp add: bread_post_def)
  have r: "refs t 1 = 1" and h: "holding_block t 0 1 b" and v: "view t 1 = disk t 1" and ok: "bcache_ok t (rev [0..<NBUF])"
    using p io_pid [OF demo_disk_ctx io] by (auto simp: bread_post_def holding_block_def demo_abs)
  have "runs (brelse b) t (\<lambda>_ u. bcache_ok u (b # remove1 b (rev [0..<NBUF])) \<and> refs u 1 = 0)"
    by (rule runs_mono [OF brelse_keeps_lru [OF io_ctx [OF demo_disk_ctx io] ok h v]]) (simp add: r)
  then show ?thesis using t r h by blast
qed

text \<open>C27: what is written is what is read. A process that reads a block, stores other bytes in the buffer,
  writes it and gives it back has changed this block, in the cache and on the disk, and nothing else of the
  cache that others can see.\<close>

theorem block_write_durable:
  assumes "bc_ready p s" "bc_avail s bn" "length d = BSIZE"
  shows "runs (kbind (bread ROOTDEV bn) (\<lambda>b. kthen (store_data b d) (kthen (bwrite b) (brelse b)))) s
    (\<lambda>_ t. bc_ready p t \<and> view t = (view s)(bn := d) \<and> disk t = (disk s)(bn := d) \<and> refs t = refs s \<and> lock_pid t = lock_pid s)"
  by (rule runs_mono [OF bc.write_block_runs [OF assms, unfolded bc.write_block_def]]) simp

theorem block_write_durable_witness:
  "bc_avail demo_disk 7 \<and>
   runs (kbind (bread ROOTDEV 7) (\<lambda>b. kthen (store_data b (replicate 1024 9)) (kthen (bwrite b) (brelse b)))) demo_disk
    (\<lambda>_ t. disk t 7 = replicate 1024 9)"
proof -
  have "bc_ready 0 demo_disk" using demo_disk_ctx demo_bcache_ok by (auto simp: bc_ready_def)
  then show ?thesis
    using runs_mono [OF block_write_durable [OF _ demo_avail [of 7], of 0 "replicate 1024 9"], of "\<lambda>_ t. disk t 7 = replicate 1024 9"]
      demo_avail [of 7] by (simp add: BSIZE_def)
qed

text \<open>C28: \<open>binit\<close> builds the ring. Whatever the links were, it returns with all \<open>NBUF\<close> buffers in one ring, the
  last one first, and their sleep locks free.\<close>

theorem binit_builds_ring:
  "runs binit s (\<lambda>_ t. lru_ring (bufs t) (rev [0..<NBUF]) \<and> list_all (\<lambda>b. sk_locked (slocks t (LkBuf b)) = 0) [0..<NBUF])"
  by (rule runs_mono [OF runs_binit]) (auto simp: binit_inv_def lru_ring_def list_all_iff)

end
