(* ===== verification/Xv6_Bytes.thy ===== *)
theory Xv6_Bytes
  imports Xv6_Prelude
begin

text \<open>
  Structures laid out in blocks of bytes: the log header, superblock, inodes, bitmaps and directory
  entries are read and written in the data of a buffer through C pointers. \<open>slice\<close> is the part of a block
  such a pointer refers to, \<open>splice\<close> an assignment through it; numbers are stored little endian.
\<close>

definition slice :: "nat \<Rightarrow> nat \<Rightarrow> 'a list \<Rightarrow> 'a list" where
  "slice off n d = take n (drop off d)"

definition splice :: "nat \<Rightarrow> 'a list \<Rightarrow> 'a list \<Rightarrow> 'a list" where
  "splice off bs d = take off d @ bs @ drop (off + length bs) d"

lemma length_slice [simp]: "off + n \<le> length d \<Longrightarrow> length (slice off n d) = n"
  by (simp add: slice_def)

lemma length_splice [simp]: "off + length bs \<le> length d \<Longrightarrow> length (splice off bs d) = length d"
  by (simp add: splice_def)

lemma nth_slice [simp]: "i < n \<Longrightarrow> off + n \<le> length d \<Longrightarrow> slice off n d ! i = d ! (off + i)"
  by (simp add: slice_def)

lemma nth_splice:
  "off + length bs \<le> length d \<Longrightarrow> i < length d \<Longrightarrow>
   splice off bs d ! i = (if off \<le> i \<and> i < off + length bs then bs ! (i - off) else d ! i)"
  by (auto simp: splice_def nth_append not_less)

lemma slice_splice_same [simp]:
  "off + length bs \<le> length d \<Longrightarrow> n = length bs \<Longrightarrow> slice off n (splice off bs d) = bs"
  by (rule nth_equalityI) (auto simp: nth_splice)

lemma slice_splice_other [simp]:
  "off + length bs \<le> length d \<Longrightarrow> o2 + n \<le> length d \<Longrightarrow> o2 + n \<le> off \<or> off + length bs \<le> o2 \<Longrightarrow>
   slice o2 n (splice off bs d) = slice o2 n d"
  by (rule nth_equalityI) (auto simp: nth_splice)

lemma splice_slice: "off + n \<le> length d \<Longrightarrow> splice off (slice off n d) d = d"
  by (rule nth_equalityI) (auto simp: nth_splice)

lemma splice_splice [simp]:
  "off + length bs \<le> length d \<Longrightarrow> length cs = length bs \<Longrightarrow> splice off cs (splice off bs d) = splice off cs d"
  by (rule nth_equalityI) (auto simp: nth_splice)

section \<open>Little endian numbers\<close>

definition le_word :: "u8 list \<Rightarrow> 'a::len word" where
  "le_word bs = horner_sum of_bool 2 (map (\<lambda>n. bit (bs ! (n div 8)) (n mod 8)) [0..<8 * length bs])"

definition le_bytes :: "nat \<Rightarrow> 'a::len word \<Rightarrow> u8 list" where
  "le_bytes n v = map (\<lambda>i. ucast (drop_bit (8 * i) v)) [0..<n]"

lemma length_le_bytes [simp]: "length (le_bytes n v) = n"
  by (simp add: le_bytes_def)

lemma bit_le_word:
  "bit (le_word bs :: 'a::len word) n \<longleftrightarrow> n < LENGTH('a) \<and> n < 8 * length bs \<and> bit (bs ! (n div 8)) (n mod 8)"
  by (auto simp: le_word_def bit_horner_sum_bit_word_iff)

lemma le_word_le_bytes [simp]:
  assumes "LENGTH('a) \<le> 8 * k"
  shows "le_word (le_bytes k (v :: 'a::len word)) = v"
proof (rule bit_word_eqI)
  fix n assume "n < LENGTH('a)"
  then show "bit (le_word (le_bytes k v) :: 'a word) n = bit v n"
    using assms by (simp add: bit_le_word le_bytes_def bit_simps less_mult_imp_div_less mult.commute)
qed

definition get16 :: "nat \<Rightarrow> u8 list \<Rightarrow> u16" where
  "get16 off d = le_word (slice off 2 d)"

definition get32 :: "nat \<Rightarrow> u8 list \<Rightarrow> u32" where
  "get32 off d = le_word (slice off 4 d)"

definition get64 :: "nat \<Rightarrow> u8 list \<Rightarrow> u64" where
  "get64 off d = le_word (slice off 8 d)"

definition put16 :: "nat \<Rightarrow> u16 \<Rightarrow> u8 list \<Rightarrow> u8 list" where
  "put16 off v d = splice off (le_bytes 2 v) d"

definition put32 :: "nat \<Rightarrow> u32 \<Rightarrow> u8 list \<Rightarrow> u8 list" where
  "put32 off v d = splice off (le_bytes 4 v) d"

lemma length_put [simp]:
  "off + 2 \<le> length d \<Longrightarrow> length (put16 off w d) = length d" "off + 4 \<le> length d \<Longrightarrow> length (put32 off v d) = length d"
  by (simp_all add: put16_def put32_def)

lemma get_put_same [simp]:
  "off + 2 \<le> length d \<Longrightarrow> get16 off (put16 off w d) = w" "off + 4 \<le> length d \<Longrightarrow> get32 off (put32 off v d) = v"
  by (simp_all add: get16_def put16_def get32_def put32_def)

lemma get32_put32_other [simp]:
  "off + 4 \<le> length d \<Longrightarrow> o2 + 4 \<le> length d \<Longrightarrow> o2 + 4 \<le> off \<or> off + 4 \<le> o2 \<Longrightarrow> get32 o2 (put32 off v d) = get32 o2 d"
  by (simp add: get32_def put32_def)

lemma get32_zero: "off + 4 \<le> n \<Longrightarrow> get32 off (replicate n 0) = 0"
  by (rule bit_word_eqI) (simp add: get32_def bit_le_word slice_def less_mult_imp_div_less)

end
