(* ===== verification/Xv6_Log.thy ===== *)
theory Xv6_Log
  imports Xv6_Bio Xv6_Bytes
begin

text \<open>
  kernel/log.c: the redo log. \<open>struct log\<close> is the record \<open>log\<close>, the header block on disk is read and
  written at its C layout, the number of blocks at offset 0 and the block numbers from offset 4 on.

  Shown: \<open>commit\<close> writes the transaction to the log, then the header, then the home locations, then clears
  the header; a crash between any two disk writes followed by recovery leaves the file system's blocks as
  they were before the transaction or as they are after it, and recovery may itself be interrupted.
\<close>

definition MAXOPBLOCKS :: int where "MAXOPBLOCKS = 10"

definition LOGSIZE :: int where "LOGSIZE = MAXOPBLOCKS * 3"

record superblock =
  sb_magic :: u32
  sb_size :: u32
  sb_nblocks :: u32
  sb_ninodes :: u32
  sb_nlog :: u32
  sb_logstart :: u32
  sb_inodestart :: u32
  sb_bmapstart :: u32

text \<open>\<open>struct logheader\<close> and \<open>struct log\<close>; its spin lock is \<open>LkLog\<close>.\<close>

record logheader =
  lh_n :: int
  lh_block :: "nat \<Rightarrow> int"

record log =
  lg_start :: int
  lg_size :: int
  lg_outstanding :: int
  lg_committing :: int
  lg_dev :: int
  lg_lh :: logheader

record log_state = disk_state +
  lg :: log

definition set_log :: "(log \<Rightarrow> log) \<Rightarrow> (unit, 'z log_state_scheme) M" where
  "set_log f = modify (\<lambda>s. s\<lparr>lg := f (lg s)\<rparr>)"

definition get_log :: "(log \<Rightarrow> 'a) \<Rightarrow> ('a, 'z log_state_scheme) M" where
  "get_log f = gets (\<lambda>s. f (lg s))"

text \<open>\<open>log.lh.block[i]\<close>, an array of \<open>LOGSIZE\<close> entries.\<close>

definition get_lh :: "nat \<Rightarrow> (int, 'z log_state_scheme) M" where
  "get_lh i = (if int i < LOGSIZE then get_log (\<lambda>l. lh_block (lg_lh l) i) else fault ''log.lh.block'')"

definition set_lh :: "nat \<Rightarrow> int \<Rightarrow> (unit, 'z log_state_scheme) M" where
  "set_lh i v = (if int i < LOGSIZE
     then set_log (\<lambda>l. l\<lparr>lg_lh := (lg_lh l)\<lparr>lh_block := (lh_block (lg_lh l))(i := v)\<rparr>\<rparr>) else fault ''log.lh.block'')"

definition set_lh_n :: "int \<Rightarrow> (unit, 'z log_state_scheme) M" where
  "set_lh_n n = set_log (\<lambda>l. l\<lparr>lg_lh := (lg_lh l)\<lparr>lh_n := n\<rparr>\<rparr>)"

section \<open>log.c\<close>

definition install_one :: "bool \<Rightarrow> nat \<Rightarrow> (unit, 'z log_state_scheme) M" where
  "install_one recovering tail =
     kbind (get_log (\<lambda>l. l)) (\<lambda>l.
     kbind (bread (of_int (lg_dev l)) (of_int (lg_start l + int tail + 1))) (\<lambda>lbuf.
     kbind (get_lh tail) (\<lambda>blockno.
     kbind (bread (of_int (lg_dev l)) (of_int blockno)) (\<lambda>dbuf.
     kbind (get_buf lbuf b_data) (\<lambda>data.
     kthen (store_data dbuf data) (
     kthen (bwrite dbuf) (
     kthen (kwhen (\<not> recovering) (bunpin dbuf)) (
     kthen (brelse lbuf)
     (brelse dbuf)))))))))"

definition install_trans :: "bool \<Rightarrow> (unit, 'z log_state_scheme) M" where
  "install_trans recovering =
     kbind (get_log (\<lambda>l. lh_n (lg_lh l))) (\<lambda>n.
     kforall [0..<nat n] (install_one recovering))"

definition read_head :: "(unit, 'z log_state_scheme) M" where
  "read_head =
     kbind (get_log (\<lambda>l. l)) (\<lambda>l.
     kbind (bread (of_int (lg_dev l)) (of_int (lg_start l))) (\<lambda>b.
     kbind (get_buf b b_data) (\<lambda>d.
     let n = sint (get32 0 d) in
     kthen (set_lh_n n) (
     kthen (kforall [0..<nat n] (\<lambda>i. set_lh i (sint (get32 (4 + 4 * i) d))))
     (brelse b)))))"

text \<open>The header block with \<open>hb->n\<close> and \<open>hb->block\<close> assigned.\<close>

definition put_head :: "logheader \<Rightarrow> u8 list \<Rightarrow> u8 list" where
  "put_head h d = fold (\<lambda>i d. put32 (4 + 4 * i) (of_int (lh_block h i)) d) [0..<nat (lh_n h)] (put32 0 (of_int (lh_n h)) d)"

definition write_head :: "(unit, 'z log_state_scheme) M" where
  "write_head =
     kbind (get_log (\<lambda>l. l)) (\<lambda>l.
     kbind (bread (of_int (lg_dev l)) (of_int (lg_start l))) (\<lambda>b.
     if lh_n (lg_lh l) > LOGSIZE then fault ''log.lh.block'' else
     kbind (get_buf b b_data) (\<lambda>d.
     kthen (store_data b (put_head (lg_lh l) d)) (
     kthen (bwrite b)
     (brelse b)))))"

definition recover_from_log :: "(unit, 'z log_state_scheme) M" where
  "recover_from_log =
     kthen read_head (
     kthen (install_trans True) (
     kthen (set_lh_n 0)
     write_head))"

definition initlog :: "int \<Rightarrow> superblock \<Rightarrow> (unit, 'z log_state_scheme) M" where
  "initlog dev sb =
     (if 4 + 4 * nat LOGSIZE \<ge> BSIZE then panic ''initlog: too big logheader'' else
      kthen (initlock LkLog ''log'') (
      kthen (set_log (\<lambda>l. l\<lparr>lg_start := sint (sb_logstart sb), lg_size := sint (sb_nlog sb), lg_dev := dev\<rparr>))
      recover_from_log))"

text \<open>The loop of \<open>begin_op\<close>, entered again with the lock held when the process is woken.\<close>

definition begin_op_loop :: "(unit, 'z log_state_scheme) M" where
  "begin_op_loop =
     kbind (get_log (\<lambda>l. l)) (\<lambda>l.
     if lg_committing l \<noteq> 0 then sleep ChLog LkLog
     else if lh_n (lg_lh l) + (lg_outstanding l + 1) * MAXOPBLOCKS > LOGSIZE then sleep ChLog LkLog
     else
       kthen (set_log (\<lambda>l. l\<lparr>lg_outstanding := lg_outstanding l + 1\<rparr>))
       (release LkLog))"

definition begin_op :: "(unit, 'z log_state_scheme) M" where
  "begin_op = kthen (acquire LkLog) begin_op_loop"

definition write_log_one :: "nat \<Rightarrow> (unit, 'z log_state_scheme) M" where
  "write_log_one tail =
     kbind (get_log (\<lambda>l. l)) (\<lambda>l.
     kbind (bread (of_int (lg_dev l)) (of_int (lg_start l + int tail + 1))) (\<lambda>to_b.
     kbind (get_lh tail) (\<lambda>blockno.
     kbind (bread (of_int (lg_dev l)) (of_int blockno)) (\<lambda>from.
     kbind (get_buf from b_data) (\<lambda>data.
     kthen (store_data to_b data) (
     kthen (bwrite to_b) (
     kthen (brelse from)
     (brelse to_b))))))))"

definition write_log :: "(unit, 'z log_state_scheme) M" where
  "write_log =
     kbind (get_log (\<lambda>l. lh_n (lg_lh l))) (\<lambda>n.
     kforall [0..<nat n] write_log_one)"

definition commit :: "(unit, 'z log_state_scheme) M" where
  "commit =
     kbind (get_log (\<lambda>l. lh_n (lg_lh l))) (\<lambda>n.
     kwhen (n > 0) (
       kthen write_log (
       kthen write_head (
       kthen (install_trans False) (
       kthen (set_lh_n 0)
       write_head)))))"

definition end_op :: "(unit, 'z log_state_scheme) M" where
  "end_op =
     kthen (acquire LkLog) (
     kthen (set_log (\<lambda>l. l\<lparr>lg_outstanding := lg_outstanding l - 1\<rparr>)) (
     kbind (get_log (\<lambda>l. l)) (\<lambda>l.
     if lg_committing l \<noteq> 0 then panic ''log.committing'' else
     let do_commit = (lg_outstanding l = 0) in
     kthen (if do_commit then set_log (\<lambda>l. l\<lparr>lg_committing := 1\<rparr>) else wakeup ChLog) (
     kthen (release LkLog)
     (kwhen do_commit (
       kthen commit (
       kthen (acquire LkLog) (
       kthen (set_log (\<lambda>l. l\<lparr>lg_committing := 0\<rparr>)) (
       kthen (wakeup ChLog)
       (release LkLog))))))))))"

text \<open>The entry of the header for a block: the first one with its number, or the next free one.\<close>

definition log_slot :: "logheader \<Rightarrow> u32 \<Rightarrow> nat" where
  "log_slot h blockno =
     (case find (\<lambda>i. of_int (lh_block h i) = blockno) [0..<nat (lh_n h)] of None \<Rightarrow> nat (lh_n h) | Some i \<Rightarrow> i)"

definition log_write :: "nat \<Rightarrow> (unit, 'z log_state_scheme) M" where
  "log_write b =
     kthen (acquire LkLog) (
     kbind (get_log (\<lambda>l. l)) (\<lambda>l.
     let n = lh_n (lg_lh l) in
     if n \<ge> LOGSIZE \<or> n \<ge> lg_size l - 1 then panic ''too big a transaction'' else
     if lg_outstanding l < 1 then panic ''log_write outside of trans'' else
     kbind (get_buf b b_blockno) (\<lambda>blockno.
     let i = log_slot (lg_lh l) blockno in
     kthen (set_lh i (sint blockno)) (
     kthen (kwhen (int i = n) (
       kthen (bpin b)
       (set_lh_n (n + 1))))
     (release LkLog)))))"

section \<open>Blocks of the log\<close>

lemma block_word:
  assumes "0 \<le> x" "x < 2 ^ 31"
  shows "uint (of_int x :: u32) = x" "(of_int x :: u32) < 2 ^ 31" "sint (of_int x :: u32) = x"
proof -
  show u: "uint (of_int x :: u32) = x" using assms by (simp add: uint_word_of_int_eq take_bit_int_eq_self)
  show "(of_int x :: u32) < 2 ^ 31" using assms u by (simp add: word_less_def)
  have "sint (word_of_int x :: u32) = x" using assms by transfer (simp add: signed_take_bit_int_eq_self)
  then show "sint (of_int x :: u32) = x" by simp
qed

lemma block_word_eq:
  "0 \<le> x \<Longrightarrow> x < 2 ^ 31 \<Longrightarrow> 0 \<le> y \<Longrightarrow> y < 2 ^ 31 \<Longrightarrow> (of_int x :: u32) = of_int y \<longleftrightarrow> x = y"
  by (metis block_word(1))

text \<open>The header block, the \<open>i\<close>-th block of the log body, and the home of the \<open>i\<close>-th logged block.\<close>

definition head_blk :: "log \<Rightarrow> u32" where
  "head_blk l = of_int (lg_start l)"

definition body_blk :: "log \<Rightarrow> nat \<Rightarrow> u32" where
  "body_blk l i = of_int (lg_start l + int i + 1)"

definition home_blk :: "log \<Rightarrow> nat \<Rightarrow> u32" where
  "home_blk l i = of_int (lh_block (lg_lh l) i)"

definition log_area :: "log \<Rightarrow> u32 set" where
  "log_area l = insert (head_blk l) (body_blk l ` {..<nat LOGSIZE})"

text \<open>The log lies on the root device, and the logged blocks are blocks of the disk outside the log.\<close>

definition log_geom :: "log \<Rightarrow> bool" where
  "log_geom l \<longleftrightarrow> lg_dev l = 1 \<and> 0 \<le> lg_start l \<and> lg_start l + LOGSIZE < 2 ^ 31 \<and> 0 \<le> lh_n (lg_lh l) \<and> lh_n (lg_lh l) \<le> LOGSIZE \<and>
     (\<forall>i < nat (lh_n (lg_lh l)). 0 \<le> lh_block (lg_lh l) i \<and> lh_block (lg_lh l) i < 2 ^ 31 \<and> home_blk l i \<notin> log_area l)"

abbreviation log_n :: "log \<Rightarrow> nat" where
  "log_n l \<equiv> nat (lh_n (lg_lh l))"

lemma LOGSIZE_30 [simp]: "LOGSIZE = 30"
  by (simp add: LOGSIZE_def MAXOPBLOCKS_def)

lemma geomD:
  assumes "log_geom l"
  shows "of_int (lg_dev l) = ROOTDEV" "head_blk l < 2 ^ 31" "i < 30 \<Longrightarrow> body_blk l i < 2 ^ 31"
    "i < 30 \<Longrightarrow> body_blk l i \<noteq> head_blk l" "i < 30 \<Longrightarrow> j < 30 \<Longrightarrow> body_blk l i = body_blk l j \<longleftrightarrow> i = j"
    "log_n l \<le> 30" "i < log_n l \<Longrightarrow> home_blk l i < 2 ^ 31" "i < log_n l \<Longrightarrow> home_blk l i \<notin> log_area l"
    "head_blk l \<in> log_area l" "i < 30 \<Longrightarrow> body_blk l i \<in> log_area l"
    "i < log_n l \<Longrightarrow> home_blk l i \<noteq> head_blk l" "i < log_n l \<Longrightarrow> j < 30 \<Longrightarrow> home_blk l i \<noteq> body_blk l j"
proof -
  note g = assms [unfolded log_geom_def, simplified]
  show "of_int (lg_dev l) = ROOTDEV" using g by (simp add: ROOTDEV_def)
  show "log_n l \<le> 30" using g by linarith
  show "head_blk l < 2 ^ 31" unfolding head_blk_def by (rule block_word(2)) (use g in simp_all)
  show "i < 30 \<Longrightarrow> body_blk l i < 2 ^ 31" unfolding body_blk_def by (rule block_word(2)) (use g in simp_all)
  show "i < 30 \<Longrightarrow> body_blk l i \<noteq> head_blk l"
    unfolding body_blk_def head_blk_def using g by (subst block_word_eq) auto
  show "i < 30 \<Longrightarrow> j < 30 \<Longrightarrow> body_blk l i = body_blk l j \<longleftrightarrow> i = j"
    unfolding body_blk_def using g by (subst block_word_eq) auto
  show "i < log_n l \<Longrightarrow> home_blk l i < 2 ^ 31" unfolding home_blk_def by (rule block_word(2)) (use g in auto)
  show h: "i < log_n l \<Longrightarrow> home_blk l i \<notin> log_area l" using g by blast
  show "head_blk l \<in> log_area l" "i < 30 \<Longrightarrow> body_blk l i \<in> log_area l" by (simp_all add: log_area_def)
  with h show "i < log_n l \<Longrightarrow> home_blk l i \<noteq> head_blk l" by auto
  show "i < log_n l \<Longrightarrow> j < 30 \<Longrightarrow> home_blk l i \<noteq> body_blk l j" using h by (auto simp: log_area_def)
qed

lemma cached_lg: "cached p s A t \<Longrightarrow> lg t = lg s"
  using cachedD(2) [of p s A t] by (cases s; cases t) simp

text \<open>The log is not part of the cache.\<close>

lemma lg_abs [simp]:
  "buf_of (t\<lparr>lg := x\<rparr>) = buf_of t" "view (t\<lparr>lg := x\<rparr>) = view t" "refs (t\<lparr>lg := x\<rparr>) = refs t" "lock_pid (t\<lparr>lg := x\<rparr>) = lock_pid t"
  "disk (t\<lparr>lg := x\<rparr>) = disk t" "dtrace (t\<lparr>lg := x\<rparr>) = dtrace t" "ctx (t\<lparr>lg := x\<rparr>) = ctx t"
proof -
  show b: "buf_of (t\<lparr>lg := x\<rparr>) = buf_of t" by (rule ext) (simp add: buf_of_def)
  show d: "disk (t\<lparr>lg := x\<rparr>) = disk t" by (simp add: disk_def)
  show "view (t\<lparr>lg := x\<rparr>) = view t" by (rule ext) (simp add: view_def b d split: option.split)
  show "refs (t\<lparr>lg := x\<rparr>) = refs t" by (rule ext) (simp add: refs_def b split: option.split)
  show "lock_pid (t\<lparr>lg := x\<rparr>) = lock_pid t" by (rule ext) (simp add: lock_pid_def b split: option.split)
  show "dtrace (t\<lparr>lg := x\<rparr>) = dtrace t" by (simp add: dtrace_def)
  show "ctx (t\<lparr>lg := x\<rparr>) = ctx t" by (rule ext) (simp add: ctx_def)
qed

lemma bcache_ok_lg [simp]: "bcache_ok (t\<lparr>lg := x\<rparr>) l = bcache_ok t l"
  by (simp add: bcache_ok_def buf_ok_def disk_idle_def)

lemma io_set_lg: "io s t \<Longrightarrow> io (s\<lparr>lg := x\<rparr>) (t\<lparr>lg := x\<rparr>)"
proof -
  have r: "rest (t\<lparr>lg := x\<rparr>) = (rest t)\<lparr>lg := x\<rparr>" for t :: "'a log_state_scheme" by (cases t) (simp add: rest_def)
  show "io s t \<Longrightarrow> io (s\<lparr>lg := x\<rparr>) (t\<lparr>lg := x\<rparr>)" by (simp add: io_def r)
qed

lemma holding_block_lg [simp]: "holding_block (t\<lparr>lg := x\<rparr>) p c b = holding_block t p c b"
  by (simp add: holding_block_def)

lemma cached_set_lg: "cached p s A t \<Longrightarrow> cached p (s\<lparr>lg := x\<rparr>) A (t\<lparr>lg := x\<rparr>)"
  by (simp add: cached_def bc_ready_def io_set_lg)

section \<open>The steps of a commit on the blocks\<close>

text \<open>No buffer is locked; the buffers of the log are not in use; one buffer is free.\<close>

definition quiet :: "log \<Rightarrow> cabs \<Rightarrow> bool" where
  "quiet l A \<longleftrightarrow> ch A = (\<lambda>_. None) \<and> cl A = (\<lambda>_. None) \<and> (\<forall>bn \<in> log_area l. cr A bn = 0) \<and>
     (\<forall>bn. cr A bn < 2 ^ 32 - 1) \<and> card {c. 0 < cr A c} < NBUF"

text \<open>Block \<open>a\<close> is written with contents \<open>d\<close>.\<close>

definition put_blk :: "u32 \<Rightarrow> u8 list \<Rightarrow> cabs \<Rightarrow> cabs" where
  "put_blk a d A = A\<lparr>cv := (cv A)(a := d), cd := (cd A)(a := d), ct := cd A # ct A\<rparr>"

lemma put_blk_simps [simp]:
  "cv (put_blk a d A) = (cv A)(a := d)" "cd (put_blk a d A) = (cd A)(a := d)" "ct (put_blk a d A) = cd A # ct A"
  "cr (put_blk a d A) = cr A" "cl (put_blk a d A) = cl A" "ch (put_blk a d A) = ch A"
  by (simp_all add: put_blk_def)

lemma quiet_put_blk [simp]: "quiet l (put_blk a d A) = quiet l A"
  by (simp add: quiet_def)

lemma quiet_mono:
  assumes q: "quiet l B" and C: "cl C = cl B" "ch C = ch B" and le: "\<And>bn. cr C bn \<le> cr B bn"
  shows "quiet l C"
proof -
  have "{c. 0 < cr C c} \<subseteq> {c. 0 < cr B c}" using le by (auto intro: less_le_trans)
  then have "card {c. 0 < cr C c} \<le> card {c. 0 < cr B c}" by (intro card_mono) auto
  moreover have "cr C bn < 2 ^ 32 - 1" for bn using q le [of bn] by (auto simp: quiet_def intro: le_less_trans)
  moreover have "cr C bn = 0" if "bn \<in> log_area l" for bn using q le [of bn] that by (simp add: quiet_def)
  ultimately show ?thesis using q C by (simp add: quiet_def)
qed

lemma quiet_head: "quiet l A \<Longrightarrow> log_geom l \<Longrightarrow> can_read A (head_blk l)"
  using geomD(2,9) [of l] by (auto simp: can_read_def quiet_def)

lemma quiet_body: "quiet l A \<Longrightarrow> log_geom l \<Longrightarrow> i < 30 \<Longrightarrow> can_read A (body_blk l i)"
  using geomD(3,10) [of l i] by (auto simp: can_read_def quiet_def)

lemma runs_write_log_one:
  assumes c: "cached p s A t" and g: "log_geom (lg s)" "i < log_n (lg s)" and q: "quiet (lg s) A"
    and pin: "0 < cr A (home_blk (lg s) i)"
    and P: "\<And>u. cached p s (put_blk (body_blk (lg s) i) (cv A (home_blk (lg s) i)) A) u \<Longrightarrow> P () u"
  shows "runs (write_log_one i) t P"
proof -
  let ?a = "body_blk (lg s) i" and ?h = "home_blk (lg s) i"
  note G = geomD [OF g(1)]
  have i: "i < 30" using g(2) G(6) by linarith
  have ne: "?h \<noteq> ?a" "?a \<noteq> ?h" using G(12) [OF g(2) i] by simp_all
  have z: "cr A ?a = 0" "cl A ?h = None" "cl A ?a = None" "ch A = (\<lambda>_. None)" "cr A ?h < 2 ^ 32 - 1" "cl A = (\<lambda>_. None)"
    using q G(10) [OF i] by (simp_all add: quiet_def)
  have r: "can_read A ?a" by (rule quiet_body [OF q g(1) i])
  show ?thesis
    unfolding write_log_one_def get_lh_def get_log_def body_blk_def [symmetric]
    apply (simp add: cached_lg [OF c] G(1) i del: runs_disk_access flip: home_blk_def)
    apply (rule runs_a_get [OF c r])
    apply (simp (no_asm_simp) add: cached_lg del: runs_disk_access flip: home_blk_def)
    apply (rule runs_a_get, assumption)
    subgoal using z ne pin G(7) [OF g(2)] by (simp add: can_read_def)
    apply (rule runs_a_data [where bn = ?h], assumption)
    subgoal by (simp (no_asm_simp))
    apply (rule runs_a_store [where bn = ?a], assumption)
    subgoal by (simp (no_asm) add: ne)
    subgoal by simp
    apply (rule runs_a_flush [where bn = ?a], assumption)
    subgoal by (simp (no_asm) add: ne)
    apply (rule runs_a_put [where bn = ?h], assumption)
    subgoal by (simp (no_asm) add: ne)
    subgoal using pin by (simp add: ne)
    apply (rule runs_a_put [where bn = ?a], assumption)
    subgoal by (simp (no_asm) add: ne)
    subgoal by (simp (no_asm) add: ne)
    apply (rule P, erule cached_cong)
    by (simp_all (no_asm_simp) add: z ne fun_upd_idem fun_upd_twist)
qed

lemma runs_write_head:
  assumes c: "cached p s A t" and g: "log_geom (lg s)" and q: "quiet (lg s) A"
    and P: "\<And>u. cached p s (put_blk (head_blk (lg s)) (put_head (lg_lh (lg s)) (cv A (head_blk (lg s)))) A) u \<Longrightarrow>
      length (cv A (head_blk (lg s))) = BSIZE \<Longrightarrow> P () u"
    and len: "\<And>d. length d = BSIZE \<Longrightarrow> length (put_head (lg_lh (lg s)) d) = BSIZE"
  shows "runs write_head t P"
proof -
  let ?h = "head_blk (lg s)"
  have z: "cr A ?h = 0" "ch A = (\<lambda>_. None)" "cl A = (\<lambda>_. None)"
    using q geomD(9) [OF g] by (simp_all add: quiet_def)
  have n: "\<not> 30 < lh_n (lg_lh (lg s))" using g by (simp add: log_geom_def)
  show ?thesis
    unfolding write_head_def get_log_def head_blk_def [symmetric]
    apply (simp add: cached_lg [OF c] geomD(1) [OF g] n del: runs_disk_access)
    apply (rule runs_a_get [OF c quiet_head [OF q g]])
    apply (rule runs_a_data [where bn = ?h], assumption)
    subgoal by (simp (no_asm_simp))
    apply (rule runs_a_store [where bn = ?h], assumption)
    subgoal by (simp (no_asm_simp))
    subgoal by (simp add: len)
    apply (rule runs_a_flush [where bn = ?h], assumption)
    subgoal by (simp (no_asm_simp))
    apply (rule runs_a_put [where bn = ?h], assumption)
    subgoal by (simp (no_asm_simp))
    subgoal by (simp (no_asm_simp))
    apply (rule P, erule cached_cong)
    by (simp_all add: z fun_upd_idem)
qed

lemma runs_install_one:
  assumes c: "cached p s A t" and g: "log_geom (lg s)" "i < log_n (lg s)" and q: "quiet (lg s) A"
    and pin: "recovering \<Longrightarrow> card {c. 0 < cr A c} + 1 < NBUF" "\<not> recovering \<Longrightarrow> 0 < cr A (home_blk (lg s) i)"
    and clean: "cv A (body_blk (lg s) i) = cd A (body_blk (lg s) i)"
    and P: "\<And>u. cached p s ((if recovering then id else a_unpin (home_blk (lg s) i))
      (put_blk (home_blk (lg s) i) (cv A (body_blk (lg s) i)) A)) u \<Longrightarrow> P () u"
  shows "runs (install_one recovering i) t P"
proof -
  let ?a = "body_blk (lg s) i" and ?h = "home_blk (lg s) i"
  note G = geomD [OF g(1)]
  have i: "i < 30" using g(2) G(6) by linarith
  have ne: "?h \<noteq> ?a" "?a \<noteq> ?h" using G(12) [OF g(2) i] by simp_all
  have z: "cr A ?a = 0" "ch A = (\<lambda>_. None)" "cr A ?h < 2 ^ 32 - 1" "cl A = (\<lambda>_. None)"
    using q G(10) [OF i] by (simp_all add: quiet_def)
  have r: "can_read A ?a" by (rule quiet_body [OF q g(1) i])
  have "card {c. c \<noteq> ?a \<longrightarrow> 0 < cr A c} \<le> Suc (card {c. 0 < cr A c})"
  proof -
    have "{c. c \<noteq> ?a \<longrightarrow> 0 < cr A c} = insert ?a {c. 0 < cr A c}" by auto
    then show ?thesis by (simp add: card_insert_if)
  qed
  then have r2: "can_read (a_get ?a w v A) ?h" for v w
    using z ne pin G(7) [OF g(2)] by (cases recovering) (auto simp: can_read_def)
  show ?thesis
    unfolding install_one_def get_lh_def get_log_def body_blk_def [symmetric]
    apply (simp add: cached_lg [OF c] G(1) i del: runs_disk_access flip: home_blk_def)
    apply (rule runs_a_get [OF c r])
    apply (simp (no_asm_simp) add: cached_lg del: runs_disk_access flip: home_blk_def)
    apply (rule runs_a_get, assumption, rule r2)
    apply (rule runs_a_data [where bn = ?a], assumption)
    subgoal by (simp (no_asm) add: ne)
    apply (rule runs_a_store [where bn = ?h], assumption)
    subgoal by (simp (no_asm_simp))
    subgoal by simp
    apply (rule runs_a_flush [where bn = ?h], assumption)
    subgoal by (simp (no_asm_simp))
    apply (cases recovering; simp (no_asm_simp) add: kwhen_def)
    subgoal
      apply (rule runs_a_put [where bn = ?a], assumption)
      subgoal by (simp (no_asm) add: ne)
      subgoal by (simp (no_asm) add: ne clean)
      apply (rule runs_a_put [where bn = ?h], assumption)
      subgoal by (simp (no_asm) add: ne)
      subgoal by (simp (no_asm) add: ne)
      apply (rule P, erule cached_cong)
      by (simp_all (no_asm_simp) add: z ne fun_upd_idem fun_upd_twist)
    apply (rule runs_a_unpin [where bn = ?h], assumption)
    subgoal by (simp (no_asm_simp))
    subgoal using pin by simp
    apply (rule runs_a_put [where bn = ?a], assumption)
    subgoal by (simp (no_asm) add: ne)
    subgoal by (simp (no_asm) add: ne clean)
    apply (rule runs_a_put [where bn = ?h], assumption)
    subgoal by (simp (no_asm) add: ne)
    subgoal by (simp (no_asm) add: ne)
    apply (rule P, erule cached_cong)
    by (simp_all (no_asm_simp) add: z ne fun_upd_idem fun_upd_twist)
qed

section \<open>Disk contents during a transaction\<close>

lemma fold_upd_other: "(\<And>i. i < m \<Longrightarrow> f i \<noteq> x) \<Longrightarrow> fold (\<lambda>i E. E(f i := g i)) [0..<m] D x = D x"
  by (induction m) auto

lemma fold_upd_inj: "inj_on f {..<m} \<Longrightarrow> i < m \<Longrightarrow> fold (\<lambda>i E. E(f i := g i)) [0..<m] D (f i) = g i"
proof (induction m)
  case (Suc m)
  have "f i = f m \<longleftrightarrow> i = m" using inj_on_eq_iff [OF Suc.prems(1)] Suc.prems(2) by simp
  moreover have "inj_on f {..<m}" using Suc.prems(1) by (rule inj_on_subset) auto
  ultimately show ?case using Suc by (cases "i = m") simp_all
qed simp

text \<open>What recovery makes of the blocks: the blocks named in the header get the contents of the log body.\<close>

definition replay :: "log \<Rightarrow> (u32 \<Rightarrow> u8 list) \<Rightarrow> u32 \<Rightarrow> u8 list" where
  "replay l D = fold (\<lambda>i E. E(get32 (4 + 4 * i) (D (head_blk l)) := D (body_blk l i)))
     [0..<nat (sint (get32 0 (D (head_blk l))))] D"

text \<open>No transaction is in the log, and the other blocks are those of \<open>D0\<close>.\<close>

definition log_clear :: "log \<Rightarrow> (u32 \<Rightarrow> u8 list) \<Rightarrow> (u32 \<Rightarrow> u8 list) \<Rightarrow> bool" where
  "log_clear l D0 D \<longleftrightarrow> get32 0 (D (head_blk l)) = 0 \<and> (\<forall>bn. bn \<notin> log_area l \<longrightarrow> D bn = D0 bn)"

text \<open>The log holds contents \<open>W\<close> for the blocks \<open>hs\<close>; the blocks in neither are those of \<open>D0\<close>.\<close>

definition log_holds :: "log \<Rightarrow> u32 list \<Rightarrow> (u32 \<Rightarrow> u8 list) \<Rightarrow> (u32 \<Rightarrow> u8 list) \<Rightarrow> (u32 \<Rightarrow> u8 list) \<Rightarrow> bool" where
  "log_holds l hs W D0 D \<longleftrightarrow> get32 0 (D (head_blk l)) = of_nat (length hs) \<and>
     (\<forall>i < length hs. get32 (4 + 4 * i) (D (head_blk l)) = hs ! i \<and> D (body_blk l i) = W (hs ! i)) \<and>
     (\<forall>bn. bn \<notin> log_area l \<longrightarrow> bn \<notin> set hs \<longrightarrow> D bn = D0 bn)"

definition homes :: "log \<Rightarrow> u32 list" where
  "homes l = map (home_blk l) [0..<log_n l]"

definition log_list_ok :: "log \<Rightarrow> u32 list \<Rightarrow> bool" where
  "log_list_ok l hs \<longleftrightarrow> length hs \<le> 30 \<and> distinct hs \<and> (\<forall>bn \<in> set hs. bn < 2 ^ 31 \<and> bn \<notin> log_area l)"

definition updated :: "u32 list \<Rightarrow> (u32 \<Rightarrow> u8 list) \<Rightarrow> (u32 \<Rightarrow> u8 list) \<Rightarrow> u32 \<Rightarrow> u8 list" where
  "updated hs W D0 bn = (if bn \<in> set hs then W bn else D0 bn)"

lemma small_sint: "n \<le> 30 \<Longrightarrow> nat (sint (of_nat n :: u32)) = n"
  using block_word(3) [of "int n"] by simp

lemma replay_clear: "log_clear l D0 D \<Longrightarrow> bn \<notin> log_area l \<Longrightarrow> replay l D bn = D0 bn"
  by (simp add: replay_def log_clear_def)

lemma replay_holds:
  assumes "log_holds l hs W D0 D" "log_list_ok l hs" "bn \<notin> log_area l"
  shows "replay l D bn = updated hs W D0 bn"
proof -
  let ?f = "\<lambda>i. get32 (4 + 4 * i) (D (head_blk l))"
  have n: "nat (sint (get32 0 (D (head_blk l)))) = length hs"
    using assms by (simp add: log_holds_def log_list_ok_def small_sint)
  have f: "i < length hs \<Longrightarrow> ?f i = hs ! i" for i using assms by (simp add: log_holds_def)
  have inj: "inj_on ?f {..<length hs}"
    using f assms(2) by (auto simp: inj_on_def log_list_ok_def nth_eq_iff_index_eq)
  show ?thesis
  proof (cases "bn \<in> set hs")
    case True
    then obtain i where i: "i < length hs" "hs ! i = bn" by (metis in_set_conv_nth)
    have "replay l D (?f i) = D (body_blk l i)" unfolding replay_def n by (rule fold_upd_inj [OF inj i(1)])
    then show ?thesis using i f assms(1) True by (simp add: updated_def log_holds_def)
  next
    case False
    have "replay l D bn = D bn" unfolding replay_def n
      by (rule fold_upd_other) (use False f in auto)
    then show ?thesis using False assms by (simp add: updated_def log_holds_def)
  qed
qed

lemma length_put_head_fold:
  "length d = BSIZE \<Longrightarrow> m \<le> 30 \<Longrightarrow> length (fold (\<lambda>i d. put32 (4 + 4 * i) (f i) d) [0..<m] d) = BSIZE"
  by (induction m) (simp_all add: BSIZE_def)

lemma get_put_head_fold0:
  "length d = BSIZE \<Longrightarrow> m \<le> 30 \<Longrightarrow> get32 0 (fold (\<lambda>i d. put32 (4 + 4 * i) (f i) d) [0..<m] d) = get32 0 d"
proof (induction m)
  case (Suc m)
  then have "length (fold (\<lambda>i d. put32 (4 + 4 * i) (f i) d) [0..<m] d) = 1024"
    using length_put_head_fold [of d m f] by (simp add: BSIZE_def)
  then show ?case using Suc by simp
qed simp

lemma get_put_head_fold:
  "length d = BSIZE \<Longrightarrow> m \<le> 30 \<Longrightarrow> i < m \<Longrightarrow> get32 (4 + 4 * i) (fold (\<lambda>i d. put32 (4 + 4 * i) (f i) d) [0..<m] d) = f i"
proof (induction m)
  case (Suc m)
  then have "length (fold (\<lambda>i d. put32 (4 + 4 * i) (f i) d) [0..<m] d) = 1024"
    using length_put_head_fold [of d m f] by (simp add: BSIZE_def)
  then show ?case using Suc by (cases "i = m") simp_all
qed simp

lemma put_head:
  assumes "log_geom l" "length d = BSIZE"
  shows "length (put_head (lg_lh l) d) = BSIZE" "get32 0 (put_head (lg_lh l) d) = of_nat (log_n l)"
    "i < log_n l \<Longrightarrow> get32 (4 + 4 * i) (put_head (lg_lh l) d) = home_blk l i"
proof -
  have n: "log_n l \<le> 30" "0 \<le> lh_n (lg_lh l)" using assms(1) geomD(6) by (simp_all add: log_geom_def)
  have len: "length (put32 0 (of_int (lh_n (lg_lh l))) d) = BSIZE" "4 \<le> length d" using assms(2) by (simp_all add: BSIZE_def)
  show "length (put_head (lg_lh l) d) = BSIZE"
    unfolding put_head_def by (rule length_put_head_fold [OF len(1) n(1)])
  show "get32 0 (put_head (lg_lh l) d) = of_nat (log_n l)"
    unfolding put_head_def using get_put_head_fold0 [OF len(1) n(1)] len(2) n(2) by simp
  show "i < log_n l \<Longrightarrow> get32 (4 + 4 * i) (put_head (lg_lh l) d) = home_blk l i"
    unfolding put_head_def home_blk_def by (rule get_put_head_fold [OF len(1) n(1)])
qed

section \<open>commit\<close>

text \<open>\<open>B\<close> comes from \<open>A\<close> by disk writes; before each of them the disk satisfied \<open>T\<close>.\<close>

definition wrote :: "((u32 \<Rightarrow> u8 list) \<Rightarrow> bool) \<Rightarrow> cabs \<Rightarrow> cabs \<Rightarrow> bool" where
  "wrote T A B \<longleftrightarrow> cl B = cl A \<and> ch B = ch A \<and> (\<exists>tr. ct B = tr @ ct A \<and> (\<forall>D \<in> set tr. T D))"

lemma wrote_refl: "wrote T A A"
  by (simp add: wrote_def)

lemma wrote_put: "wrote T A B \<Longrightarrow> T (cd B) \<Longrightarrow> wrote T A (put_blk a d B)"
  by (auto simp: wrote_def intro: exI [of _ "cd B # _"])

lemma wrote_unpin [simp]: "wrote T A (a_unpin a B) = wrote T A B"
  by (simp add: wrote_def)

lemma wrote_trans: "wrote T A B \<Longrightarrow> wrote T B C \<Longrightarrow> wrote T A C"
  by (auto simp: wrote_def)

lemma wrote_mono: "wrote T A B \<Longrightarrow> (\<And>D. T D \<Longrightarrow> U D) \<Longrightarrow> wrote U A B"
  by (auto simp: wrote_def)

lemma homes_nth: "i < log_n l \<Longrightarrow> homes l ! i = home_blk l i" and length_homes: "length (homes l) = log_n l"
  by (simp_all add: homes_def)

lemma runs_write_log:
  assumes c: "cached p s A t" and g: "log_geom (lg s)" and q: "quiet (lg s) A" and pin: "\<forall>bn \<in> set (homes (lg s)). 0 < cr A bn"
    and d: "log_clear (lg s) D0 (cd A)"
    and P: "\<And>B u. cached p s B u \<Longrightarrow> wrote (log_clear (lg s) D0) A B \<Longrightarrow> cr B = cr A \<Longrightarrow> log_clear (lg s) D0 (cd B) \<Longrightarrow>
      (\<And>bn. bn \<notin> log_area (lg s) \<Longrightarrow> cv B bn = cv A bn) \<Longrightarrow>
      (\<And>i. i < log_n (lg s) \<Longrightarrow> cv B (body_blk (lg s) i) = cv A (home_blk (lg s) i) \<and> cd B (body_blk (lg s) i) = cv A (home_blk (lg s) i)) \<Longrightarrow> P () u"
  shows "runs write_log t P"
proof -
  let ?l = "lg s" and ?n = "log_n (lg s)"
  note G = geomD [OF g]
  define J where "J k B \<longleftrightarrow> wrote (log_clear ?l D0) A B \<and> cr B = cr A \<and> log_clear ?l D0 (cd B) \<and>
      (\<forall>bn. bn \<notin> log_area ?l \<longrightarrow> cv B bn = cv A bn) \<and>
      (\<forall>i < k. cv B (body_blk ?l i) = cv A (home_blk ?l i) \<and> cd B (body_blk ?l i) = cv A (home_blk ?l i))" for k B
  define I where "I is u \<longleftrightarrow> (\<exists>k B. is = [k..<?n] \<and> k \<le> ?n \<and> cached p s B u \<and> J k B)" for "is" u
  have "runs (kforall [0..<?n] write_log_one) t (\<lambda>_ u. I [] u)"
  proof (rule runs_kforall_inv)
    show "I [0..<?n] t" unfolding I_def J_def using c d by (intro exI [of _ 0] exI [of _ A]) (simp add: wrote_refl)
    fix i "is" u assume "I (i # is) u"
    then obtain k B where k: "i # is = [k..<?n]" and B: "cached p s B u" and J: "J k B" by (auto simp: I_def)
    have kn: "k < ?n" "i = k" "is = [Suc k..<?n]" using upt_Cons [OF k] by simp_all
    have k30: "k < 30" using kn(1) G(6) by linarith
    note j = J [unfolded J_def]
    show "runs (write_log_one i) u (\<lambda>_ v. I is v)"
    proof (rule runs_write_log_one [OF B g])
      show "i < ?n" using kn by simp
      show "quiet ?l B" using q j by (simp add: quiet_def wrote_def)
      show "0 < cr B (home_blk ?l i)" using pin j kn by (simp add: homes_def)
      fix v assume v: "cached p s (put_blk (body_blk ?l i) (cv B (home_blk ?l i)) B) v"
      have h: "cv B (home_blk ?l k) = cv A (home_blk ?l k)" using j G(8) [OF kn(1)] by blast
      have a: "body_blk ?l k \<in> log_area ?l" "body_blk ?l k \<noteq> head_blk ?l" using G(4,10) [OF k30] by simp_all
      have b: "i < Suc k \<Longrightarrow> body_blk ?l i = body_blk ?l k \<longleftrightarrow> i = k" for i using G(5) [of i k] k30 by simp
      have "J (Suc k) (put_blk (body_blk ?l k) (cv B (home_blk ?l k)) B)"
        using j a wrote_put [of "log_clear ?l D0" A B] unfolding J_def log_clear_def h by (auto simp: b less_Suc_eq)
      then show "I is v" unfolding I_def using v kn by (intro exI [of _ "Suc k"] exI) auto
    qed
  qed
  then have "runs write_log t (\<lambda>_ u. I [] u)" unfolding write_log_def get_log_def by (simp add: cached_lg [OF c])
  then show ?thesis
  proof (rule runs_mono)
    fix x :: unit and u assume "I [] u"
    then obtain B where "cached p s B u" "J ?n B" unfolding I_def using upt_Nil by blast
    then have "P () u" unfolding J_def by (intro P [of B]) auto
    then show "P x u" by simp
  qed
qed

text \<open>\<open>install_trans\<close> with the log holding \<open>W\<close>: the home blocks get these contents, in commit they are unpinned as well.\<close>

lemma homes_ok:
  assumes "log_geom l" "distinct (homes l)"
  shows "log_list_ok l (homes l)"
  using assms geomD(6-8) [OF assms(1)] by (auto simp: log_list_ok_def homes_def)

lemma log_holds_put:
  assumes "log_holds l hs W D0 D" "log_list_ok l hs" "bn \<in> set hs"
  shows "log_holds l hs W D0 (D(bn := d))"
proof -
  have "bn \<noteq> head_blk l" "\<forall>i < length hs. bn \<noteq> body_blk l i" using assms(2,3) by (auto simp: log_list_ok_def log_area_def)
  then show ?thesis using assms(1,3) by (auto simp: log_holds_def)
qed

lemma runs_install_trans:
  assumes c: "cached p s A t" and g: "log_geom (lg s)" "distinct (homes (lg s))" and q: "quiet (lg s) A"
    and pin: "recovering \<Longrightarrow> card {c. 0 < cr A c} + 1 < NBUF" "\<not> recovering \<Longrightarrow> \<forall>bn \<in> set (homes (lg s)). 0 < cr A bn"
    and d: "log_holds (lg s) (homes (lg s)) W D0 (cd A)"
    and clean: "\<And>i. i < log_n (lg s) \<Longrightarrow> cv A (body_blk (lg s) i) = cd A (body_blk (lg s) i)"
    and P: "\<And>B u. cached p s B u \<Longrightarrow> wrote (log_holds (lg s) (homes (lg s)) W D0) A B \<Longrightarrow> quiet (lg s) B \<Longrightarrow>
      cr B = (\<lambda>bn. if \<not> recovering \<and> bn \<in> set (homes (lg s)) then cr A bn - 1 else cr A bn) \<Longrightarrow>
      log_holds (lg s) (homes (lg s)) W D0 (cd B) \<Longrightarrow>
      (\<And>bn. cd B bn = updated (homes (lg s)) W (cd A) bn \<and> cv B bn = updated (homes (lg s)) W (cv A) bn) \<Longrightarrow> P () u"
  shows "runs (install_trans recovering) t P"
proof -
  let ?l = "lg s" and ?n = "log_n (lg s)" and ?hs = "homes (lg s)"
  note G = geomD [OF g(1)] and ok = homes_ok [OF g]
  define J where "J k B \<longleftrightarrow> wrote (log_holds ?l ?hs W D0) A B \<and> quiet ?l B \<and> {c. 0 < cr B c} \<subseteq> {c. 0 < cr A c} \<and>
      cr B = (\<lambda>bn. if \<not> recovering \<and> bn \<in> set (take k ?hs) then cr A bn - 1 else cr A bn) \<and>
      log_holds ?l ?hs W D0 (cd B) \<and>
      (\<forall>bn. cd B bn = updated (take k ?hs) W (cd A) bn \<and> cv B bn = updated (take k ?hs) W (cv A) bn)" for k B
  define I where "I is u \<longleftrightarrow> (\<exists>k B. is = [k..<?n] \<and> k \<le> ?n \<and> cached p s B u \<and> J k B)" for "is" u
  have "runs (kforall [0..<?n] (install_one recovering)) t (\<lambda>_ u. I [] u)"
  proof (rule runs_kforall_inv)
    show "I [0..<?n] t" unfolding I_def J_def using c d q by (intro exI [of _ 0] exI [of _ A]) (simp add: wrote_refl updated_def)
    fix i "is" u assume "I (i # is) u"
    then obtain k B where k: "i # is = [k..<?n]" and B: "cached p s B u" and J: "J k B" by (auto simp: I_def)
    have kn: "k < ?n" "i = k" "is = [Suc k..<?n]" using upt_Cons [OF k] by simp_all
    have kl: "k < length ?hs" "?hs ! k = home_blk ?l k" using kn(1) by (simp_all add: length_homes homes_nth)
    have k30: "k < 30" using kn(1) G(6) by linarith
    have tk: "take (Suc k) ?hs = take k ?hs @ [home_blk ?l k]" using kl by (simp add: take_Suc_conv_app_nth)
    have fresh: "home_blk ?l k \<notin> set (take k ?hs)" using distinct_take [OF g(2), of "Suc k"] unfolding tk by simp
    note j = J [unfolded J_def]
    have card: "card {c. 0 < cr B c} \<le> card {c. 0 < cr A c}" using j by (intro card_mono) auto
    have body: "body_blk ?l k \<notin> set (take k ?hs)"
      using ok G(10) [OF k30] by (auto simp: log_list_ok_def dest: in_set_takeD)
    show "runs (install_one recovering i) u (\<lambda>_ v. I is v)"
    proof (rule runs_install_one [OF B g(1)])
      show "i < ?n" "quiet ?l B" using kn j by simp_all
      show "recovering \<Longrightarrow> card {c. 0 < cr B c} + 1 < NBUF" using pin(1) card by simp
      show "\<not> recovering \<Longrightarrow> 0 < cr B (home_blk ?l i)" using pin(2) j fresh kl kn(2) nth_mem [OF kl(1)] by simp
      show "cv B (body_blk ?l i) = cd B (body_blk ?l i)" using j clean [OF kn(1)] body kn(2) by (simp add: updated_def)
      fix v assume v: "cached p s ((if recovering then id else a_unpin (home_blk ?l i)) (put_blk (home_blk ?l i) (cv B (body_blk ?l i)) B)) v"
      define C where "C = (if recovering then id else a_unpin (home_blk ?l k)) (put_blk (home_blk ?l k) (cv B (body_blk ?l k)) B)"
      have w: "cv B (body_blk ?l k) = W (home_blk ?l k)"
        using j body d clean [OF kn(1)] kl by (simp add: updated_def log_holds_def)
      have h: "log_holds ?l ?hs W D0 ((cd B)(home_blk ?l k := d))" for d
        by (rule log_holds_put) (use j ok kl nth_mem [OF kl(1)] in simp_all)
      have C: "cd C = (cd B)(home_blk ?l k := W (home_blk ?l k))" "cv C = (cv B)(home_blk ?l k := W (home_blk ?l k))"
        "cr C = (if recovering then cr B else (cr B)(home_blk ?l k := cr B (home_blk ?l k) - 1))" "wrote (log_holds ?l ?hs W D0) A C"
        using w j wrote_put [of "log_holds ?l ?hs W D0" A B] by (simp_all add: C_def)
      have sub: "{c. 0 < cr C c} \<subseteq> {c. 0 < cr B c}" by (auto simp: C(3) split: if_splits)
      have "cl C = cl B" "ch C = ch B" by (simp_all add: C_def)
      moreover have "cr C bn \<le> cr B bn" for bn by (simp add: C(3))
      ultimately have "quiet ?l C" using quiet_mono j by blast
      then have "J (Suc k) C" unfolding J_def tk
        using j sub fresh h by (auto simp: C updated_def)
      then show "I is v" unfolding I_def using v kn by (intro exI [of _ "Suc k"] exI [of _ C]) (auto simp: C_def)
    qed
  qed
  then have "runs (install_trans recovering) t (\<lambda>_ u. I [] u)" unfolding install_trans_def get_log_def by (simp add: cached_lg [OF c])
  then show ?thesis
  proof (rule runs_mono)
    fix x :: unit and u assume "I [] u"
    then obtain B where "cached p s B u" "J ?n B" unfolding I_def using upt_Nil by blast
    then have "P () u" unfolding J_def by (intro P [of B]) (auto simp: length_homes)
    then show "P x u" by simp
  qed
qed

text \<open>The log with the transaction dropped; its place on the disk is the same.\<close>

definition emptied :: "log \<Rightarrow> log" where
  "emptied l = l\<lparr>lg_lh := (lg_lh l)\<lparr>lh_n := 0\<rparr>\<rparr>"

lemma emptied_simps [simp]:
  "head_blk (emptied l) = head_blk l" "body_blk (emptied l) = body_blk l" "log_area (emptied l) = log_area l"
  "quiet (emptied l) = quiet l" "lh_n (lg_lh (emptied l)) = 0" "log_geom l \<Longrightarrow> log_geom (emptied l)"
proof -
  show a: "head_blk (emptied l) = head_blk l" "body_blk (emptied l) = body_blk l"
    by (simp_all add: emptied_def head_blk_def body_blk_def fun_eq_iff)
  then show b: "log_area (emptied l) = log_area l" by (simp add: log_area_def)
  then show "quiet (emptied l) = quiet l" by (simp add: quiet_def fun_eq_iff)
  show "lh_n (lg_lh (emptied l)) = 0" "log_geom l \<Longrightarrow> log_geom (emptied l)" by (simp_all add: emptied_def log_geom_def)
qed

lemma runs_clear_head:
  assumes c: "cached p s A t" and g: "log_geom (lg s)" and q: "quiet (lg s) A"
    and P: "\<And>d u. cached p (s\<lparr>lg := emptied (lg s)\<rparr>) (put_blk (head_blk (lg s)) d A) u \<Longrightarrow> get32 0 d = 0 \<Longrightarrow> P () u"
  shows "runs (kthen (set_lh_n 0) write_head) t P"
proof -
  let ?s = "s\<lparr>lg := emptied (lg s)\<rparr>"
  have c': "cached p ?s A (t\<lparr>lg := emptied (lg s)\<rparr>)" by (rule cached_set_lg [OF c])
  have "runs write_head (t\<lparr>lg := emptied (lg s)\<rparr>) P"
  proof (rule runs_write_head [OF c'])
    show "log_geom (lg ?s)" "quiet (lg ?s) A" using g q by simp_all
    show "\<And>d. length d = BSIZE \<Longrightarrow> length (put_head (lg_lh (lg ?s)) d) = BSIZE" using put_head(1) [of "emptied (lg s)"] g by simp
    fix u assume "cached p ?s (put_blk (head_blk (lg ?s)) (put_head (lg_lh (lg ?s)) (cv A (head_blk (lg ?s)))) A) u"
      "length (cv A (head_blk (lg ?s))) = BSIZE"
    then show "P () u" by (intro P) (use put_head(2) [of "emptied (lg s)"] g in simp_all)
  qed
  then show ?thesis by (simp add: set_lh_n_def set_log_def cached_lg [OF c] emptied_def)
qed

text \<open>What the disk can hold while the transaction that sets the blocks \<open>hs\<close> to \<open>W\<close> commits.\<close>

definition in_commit :: "log \<Rightarrow> u32 list \<Rightarrow> (u32 \<Rightarrow> u8 list) \<Rightarrow> (u32 \<Rightarrow> u8 list) \<Rightarrow> (u32 \<Rightarrow> u8 list) \<Rightarrow> bool" where
  "in_commit l hs W D0 D \<longleftrightarrow> log_clear l D0 D \<or> log_holds l hs W D0 D \<or> log_clear l (updated hs W D0) D"

lemma runs_commit:
  assumes c: "cached p s A t" and g: "log_geom (lg s)" "distinct (homes (lg s))" "0 < log_n (lg s)" and q: "quiet (lg s) A"
    and pin: "\<forall>bn \<in> set (homes (lg s)). 0 < cr A bn" and clear: "get32 0 (cd A (head_blk (lg s))) = 0"
    and P: "\<And>B u. cached p (s\<lparr>lg := emptied (lg s)\<rparr>) B u \<Longrightarrow> wrote (in_commit (lg s) (homes (lg s)) (cv A) (cd A)) A B \<Longrightarrow>
      log_clear (lg s) (updated (homes (lg s)) (cv A) (cd A)) (cd B) \<Longrightarrow> (\<And>bn. bn \<notin> log_area (lg s) \<Longrightarrow> cv B bn = cv A bn) \<Longrightarrow>
      cr B = (\<lambda>bn. if bn \<in> set (homes (lg s)) then cr A bn - 1 else cr A bn) \<Longrightarrow> P () u"
  shows "runs commit t P"
proof -
  let ?l = "lg s" and ?hs = "homes (lg s)" and ?H = "head_blk (lg s)"
  let ?T = "in_commit ?l ?hs (cv A) (cd A)"
  note G = geomD [OF g(1)] and ok = homes_ok [OF g(1,2)]
  have d0: "log_clear ?l (cd A) (cd A)" using clear by (simp add: log_clear_def)
  have outside: "bn \<in> set ?hs \<Longrightarrow> bn \<noteq> ?H" for bn using ok G(9) by (auto simp: log_list_ok_def)
  have last: "runs (kthen (set_lh_n 0) write_head) u P"
    if B: "cached p s B u" "wrote ?T A B" "quiet ?l B" "log_holds ?l ?hs (cv A) (cd A) (cd B)"
      "\<And>bn. bn \<notin> log_area ?l \<Longrightarrow> cd B bn = updated ?hs (cv A) (cd A) bn \<and> cv B bn = cv A bn"
      "cr B = (\<lambda>bn. if bn \<in> set ?hs then cr A bn - 1 else cr A bn)" for B u
  proof (rule runs_clear_head [OF B(1) g(1) B(3)])
    fix d v assume v: "cached p (s\<lparr>lg := emptied ?l\<rparr>) (put_blk ?H d B) v" "get32 0 d = 0"
    have "wrote ?T A (put_blk ?H d B)" by (rule wrote_put [OF B(2)]) (use B(4) in \<open>simp add: in_commit_def\<close>)
    then show "P () v" using v B(5,6) G(9) by (intro P [OF v(1)]) (auto simp: log_clear_def)
  qed
  have install: "runs (install_trans False) u (\<lambda>_ v. runs (kthen (set_lh_n 0) write_head) v P)"
    if B: "cached p s B u" "wrote ?T A B" "quiet ?l B" "cr B = cr A" "log_holds ?l ?hs (cv A) (cd A) (cd B)"
      "\<And>i. i < log_n ?l \<Longrightarrow> cv B (body_blk ?l i) = cd B (body_blk ?l i)"
      "\<And>bn. bn \<notin> log_area ?l \<Longrightarrow> cd B bn = cd A bn \<and> cv B bn = cv A bn" for B u
  proof (rule runs_install_trans [OF B(1) g(1,2) B(3) _ _ B(5,6)])
    fix C v
    assume C: "cached p s C v" "wrote (log_holds ?l ?hs (cv A) (cd A)) B C" "quiet ?l C"
      "cr C = (\<lambda>bn. if \<not> False \<and> bn \<in> set ?hs then cr B bn - 1 else cr B bn)" "log_holds ?l ?hs (cv A) (cd A) (cd C)"
      "\<And>bn. cd C bn = updated ?hs (cv A) (cd B) bn \<and> cv C bn = updated ?hs (cv A) (cv B) bn"
    have "wrote ?T A C" by (rule wrote_trans [OF B(2) wrote_mono [OF C(2)]]) (simp add: in_commit_def)
    then show "runs (kthen (set_lh_n 0) write_head) v P"
      by (rule last [OF C(1) _ C(3) C(5)]) (use B(4,7) C(4,6) in \<open>auto simp: updated_def\<close>)
  qed (use pin B(4) in simp_all)
  have head: "runs write_head u (\<lambda>_ v. runs (install_trans False) v (\<lambda>_ v. runs (kthen (set_lh_n 0) write_head) v P))"
    if B: "cached p s B u" "wrote (log_clear ?l (cd A)) A B" "cr B = cr A" "log_clear ?l (cd A) (cd B)"
      "\<And>bn. bn \<notin> log_area ?l \<Longrightarrow> cv B bn = cv A bn"
      "\<And>i. i < log_n ?l \<Longrightarrow> cv B (body_blk ?l i) = cv A (home_blk ?l i) \<and> cd B (body_blk ?l i) = cv A (home_blk ?l i)" for B u
  proof (rule runs_write_head [OF B(1) g(1)])
    show qB: "quiet ?l B" using q B(2,3) by (simp add: quiet_def wrote_def)
    show "\<And>d. length d = BSIZE \<Longrightarrow> length (put_head (lg_lh ?l) d) = BSIZE" by (rule put_head(1) [OF g(1)])
    fix v let ?C = "put_blk ?H (put_head (lg_lh ?l) (cv B ?H)) B"
    assume v: "cached p s ?C v" and len: "length (cv B ?H) = BSIZE"
    have nh: "body_blk ?l i \<noteq> ?H" if "i < log_n ?l" for i using G(4) [of i] G(6) that by simp
    have "wrote ?T A ?C"
      by (rule wrote_put [OF wrote_mono [OF B(2)]]) (use B(4) in \<open>simp_all add: in_commit_def\<close>)
    moreover have "log_holds ?l ?hs (cv A) (cd A) (cd ?C)"
      using put_head(2,3) [OF g(1) len] B(4,6) G(9) nh by (auto simp: log_holds_def log_clear_def length_homes homes_nth)
    ultimately show "runs (install_trans False) v (\<lambda>_ v. runs (kthen (set_lh_n 0) write_head) v P)"
      using qB B(3-6) G(9) nh by (intro install [OF v]) (auto simp: log_clear_def)
  qed
  have "runs write_log t (\<lambda>_ v. runs write_head v (\<lambda>_ v. runs (install_trans False) v (\<lambda>_ v. runs (kthen (set_lh_n 0) write_head) v P)))"
    by (rule runs_write_log [OF c g(1) q pin d0], elim head) blast+
  then show ?thesis
    using g(3) by (simp add: commit_def get_log_def cached_lg [OF c] kwhen_def)
qed

section \<open>Recovery\<close>

lemma log_clear_holds: "log_clear l D0 D \<longleftrightarrow> log_holds l [] W D0 D"
  by (simp add: log_clear_def log_holds_def)

lemma updated_Nil [simp]: "updated [] W D = D"
  by (simp add: updated_def fun_eq_iff)

text \<open>The log with the header read from \<open>d\<close>.\<close>

definition first_n :: "nat \<Rightarrow> (nat \<Rightarrow> 'a) \<Rightarrow> (nat \<Rightarrow> 'a) \<Rightarrow> nat \<Rightarrow> 'a" where
  "first_n n f g i = (if i < n then f i else g i)"

definition loaded :: "u8 list \<Rightarrow> log \<Rightarrow> log" where
  "loaded d l = (let n = sint (get32 0 d) in l\<lparr>lg_lh := (lg_lh l)\<lparr>lh_n := n,
     lh_block := first_n (nat n) (\<lambda>i. sint (get32 (4 + 4 * i) d)) (lh_block (lg_lh l))\<rparr>\<rparr>)"

lemma runs_set_blocks:
  assumes "n \<le> 30"
  shows "runs (kforall [0..<n] (\<lambda>i. set_lh i (f i))) u P =
    P () (u\<lparr>lg := (lg u)\<lparr>lg_lh := (lg_lh (lg u))\<lparr>lh_block := first_n n f (lh_block (lg_lh (lg u)))\<rparr>\<rparr>\<rparr>)"
proof -
  define S where "S k = u\<lparr>lg := (lg u)\<lparr>lg_lh := (lg_lh (lg u))\<lparr>lh_block := first_n k f (lh_block (lg_lh (lg u)))\<rparr>\<rparr>\<rparr>" for k
  have step: "runs (set_lh k (f k)) (S k) Q = Q () (S (Suc k))" if "k < n" for k Q
  proof -
    have e: "(first_n k f g)(k := f k) = first_n (Suc k) f g" for g
      by (auto simp: fun_eq_iff first_n_def less_Suc_eq)
    show ?thesis using that assms by (simp add: set_lh_def set_log_def S_def e del: fun_upd_apply)
  qed
  have "runs (kforall [0..<n] (\<lambda>i. set_lh i (f i))) (S 0) (\<lambda>_ v. \<exists>k. [] = [k..<n] \<and> k \<le> n \<and> v = S k)"
  proof (rule runs_kforall_inv [where I = "\<lambda>is v. \<exists>k. is = [k..<n] \<and> k \<le> n \<and> v = S k"])
    fix i "is" v assume "\<exists>k. i # is = [k..<n] \<and> k \<le> n \<and> v = S k"
    then obtain k where k: "i # is = [k..<n]" "v = S k" by blast
    from upt_Cons [OF k(1)] show "runs (set_lh i (f i)) v (\<lambda>_ v. \<exists>k. is = [k..<n] \<and> k \<le> n \<and> v = S k)"
      by (auto simp: k(2) step intro: exI [of _ "Suc k"])
  qed auto
  then have "kforall [0..<n] (\<lambda>i. set_lh i (f i)) (S 0) = Ok () (S n)" using upt_Nil by (fastforce simp: runs_iff)
  moreover have "first_n 0 f g = g" for g by (simp add: fun_eq_iff first_n_def)
  then have "S 0 = u" by (simp add: S_def)
  ultimately show ?thesis by (simp add: runs_def S_def)
qed

lemma runs_read_head:
  assumes c: "cached p s A t" and g: "log_geom (emptied (lg s))" and q: "quiet (lg s) A" and clean: "cv A = cd A"
    and n: "nat (sint (get32 0 (cd A (head_blk (lg s))))) \<le> 30"
    and P: "\<And>u. cached p (s\<lparr>lg := loaded (cd A (head_blk (lg s))) (lg s)\<rparr>) A u \<Longrightarrow> P () u"
  shows "runs read_head t P"
proof -
  let ?h = "head_blk (lg s)" and ?l = "loaded (cd A (head_blk (lg s))) (lg s)"
  have dev: "of_int (lg_dev (lg s)) = ROOTDEV" using geomD(1) [OF g] by (simp add: emptied_def)
  have can: "can_read A ?h" using quiet_head [of "emptied (lg s)" A] g q by simp
  have z: "cr A ?h = 0" "ch A = (\<lambda>_. None)" "cl A = (\<lambda>_. None)"
    using q geomD(9) [OF g] by (simp_all add: quiet_def)
  have set_lg: "runs (brelse b) (u\<lparr>lg := ?l\<rparr>) P" if "cached p s (a_get ?h b v A) u" for b u v
    apply (rule runs_a_put [OF cached_set_lg [OF that], where bn = ?h])
    subgoal by simp
    subgoal by (simp add: clean)
    apply (rule P, erule cached_cong)
    by (simp_all (no_asm) add: z fun_upd_idem)
  show ?thesis
    unfolding read_head_def get_log_def head_blk_def [symmetric]
    apply (simp add: cached_lg [OF c] dev del: runs_disk_access)
    apply (rule runs_a_get [OF c can])
    apply (rule runs_a_data [where bn = ?h], assumption)
    subgoal by simp
    apply (simp add: set_lh_n_def set_log_def Let_def clean runs_set_blocks [OF n] cached_lg)
    apply (drule set_lg)
    by (simp add: loaded_def Let_def)
qed

lemma loaded_ok:
  assumes h: "log_holds l hs W D0 D" and ok: "log_list_ok l hs" and g: "log_geom (emptied l)"
  defines "l' \<equiv> loaded (D (head_blk l)) l"
  shows "head_blk l' = head_blk l" "body_blk l' = body_blk l" "log_area l' = log_area l" "log_geom l'" "homes l' = hs" "quiet l' = quiet l"
proof -
  note h = h [unfolded log_holds_def] and ok = ok [unfolded log_list_ok_def]
  show a: "head_blk l' = head_blk l" "body_blk l' = body_blk l" by (simp_all add: l'_def loaded_def head_blk_def body_blk_def Let_def fun_eq_iff)
  then show b: "log_area l' = log_area l" by (simp add: log_area_def)
  then show "quiet l' = quiet l" by (simp add: quiet_def fun_eq_iff)
  have sn: "sint (of_nat (length hs) :: u32) = int (length hs)" using ok block_word(3) [of "int (length hs)"] by simp
  have n: "lh_n (lg_lh l') = int (length hs)" using h sn by (simp add: l'_def loaded_def Let_def)
  have blk: "lh_block (lg_lh l') i = uint (hs ! i)" "home_blk l' i = hs ! i" if "i < length hs" for i
  proof -
    have "hs ! i < 2 ^ 31" using ok that by simp
    then have "0 \<le> uint (hs ! i)" "uint (hs ! i) < 2 ^ 31" by (simp_all add: word_less_def)
    then have "sint (of_int (uint (hs ! i)) :: u32) = uint (hs ! i)" by (rule block_word(3))
    then have "sint (hs ! i) = uint (hs ! i)" by simp
    then show "lh_block (lg_lh l') i = uint (hs ! i)" using h sn that by (simp add: l'_def loaded_def Let_def first_n_def)
    then show "home_blk l' i = hs ! i" by (simp add: home_blk_def)
  qed
  show "homes l' = hs" by (rule nth_equalityI) (simp_all add: homes_def n blk)
  have "uint (hs ! i) < 2 ^ 31" if "i < length hs" for i using ok that nth_mem [OF that] by (simp add: word_less_def)
  moreover have "lg_dev l' = lg_dev l" "lg_start l' = lg_start l" by (simp_all add: l'_def loaded_def Let_def)
  ultimately show "log_geom l'" using g ok by (auto simp: log_geom_def n blk b emptied_def)
qed

lemma runs_recover:
  assumes c: "cached p s A t" and g: "log_geom (emptied (lg s))" and q: "quiet (lg s) A" "card {c. 0 < cr A c} + 1 < NBUF" and clean: "cv A = cd A"
    and h: "log_holds (lg s) hs W D0 (cd A)" and ok: "log_list_ok (lg s) hs"
    and P: "\<And>l B u. cached p (s\<lparr>lg := l\<rparr>) B u \<Longrightarrow> lh_n (lg_lh l) = 0 \<Longrightarrow> wrote (log_holds (lg s) hs W D0) A B \<Longrightarrow> cv B = cd B \<Longrightarrow>
      log_clear (lg s) (updated hs W D0) (cd B) \<Longrightarrow> P () u"
  shows "runs recover_from_log t P"
proof -
  let ?l = "loaded (cd A (head_blk (lg s))) (lg s)"
  note L = loaded_ok [OF h ok g]
  have same: "log_holds ?l = log_holds (lg s)" "log_list_ok ?l = log_list_ok (lg s)"
    by (simp_all add: fun_eq_iff log_holds_def log_list_ok_def L)
  have n: "nat (sint (get32 0 (cd A (head_blk (lg s))))) \<le> 30" using h ok by (simp add: log_holds_def log_list_ok_def small_sint)
  have last: "runs (kthen (set_lh_n 0) write_head) u P"
    if B: "cached p (s\<lparr>lg := ?l\<rparr>) B u" "wrote (log_holds (lg s) hs W D0) A B" "quiet (lg s) B" "log_holds (lg s) hs W D0 (cd B)"
      "cv B = cd B" "\<And>bn. bn \<notin> log_area (lg s) \<Longrightarrow> cd B bn = updated hs W D0 bn" for B u
  proof (rule runs_clear_head [OF B(1)])
    show "log_geom (lg (s\<lparr>lg := ?l\<rparr>))" "quiet (lg (s\<lparr>lg := ?l\<rparr>)) B" using L(4,6) B(3) by simp_all
    fix d v assume v: "cached p (s\<lparr>lg := ?l, lg := emptied (lg (s\<lparr>lg := ?l\<rparr>))\<rparr>) (put_blk (head_blk (lg (s\<lparr>lg := ?l\<rparr>))) d B) v" "get32 0 d = 0"
    have "wrote (log_holds (lg s) hs W D0) A (put_blk (head_blk (lg s)) d B)" by (rule wrote_put [OF B(2,4)])
    then show "P () v" using v B(5,6) geomD(9) [OF L(4)]
      by (intro P [of "emptied ?l" "put_blk (head_blk (lg s)) d B"]) (auto simp: log_clear_def L)
  qed
  have install: "runs (install_trans True) u (\<lambda>_ v. runs (kthen (set_lh_n 0) write_head) v P)"
    if B: "cached p (s\<lparr>lg := ?l\<rparr>) A u" for u
  proof (rule runs_install_trans [OF B, where W = W and ?D0.0 = D0])
    show "log_geom (lg (s\<lparr>lg := ?l\<rparr>))" "quiet (lg (s\<lparr>lg := ?l\<rparr>)) A" using L(4,6) q by simp_all
    show "distinct (homes (lg (s\<lparr>lg := ?l\<rparr>)))" using ok by (simp add: L log_list_ok_def)
    show "card {c. 0 < cr A c} + 1 < NBUF" by (rule q(2))
    show "log_holds (lg (s\<lparr>lg := ?l\<rparr>)) (homes (lg (s\<lparr>lg := ?l\<rparr>))) W D0 (cd A)" using h same(1) by (simp add: L)
    fix C v
    assume "cached p (s\<lparr>lg := ?l\<rparr>) C v" "wrote (log_holds (lg (s\<lparr>lg := ?l\<rparr>)) (homes (lg (s\<lparr>lg := ?l\<rparr>))) W D0) A C"
      "quiet (lg (s\<lparr>lg := ?l\<rparr>)) C" "log_holds (lg (s\<lparr>lg := ?l\<rparr>)) (homes (lg (s\<lparr>lg := ?l\<rparr>))) W D0 (cd C)"
      "\<And>bn. cd C bn = updated (homes (lg (s\<lparr>lg := ?l\<rparr>))) W (cd A) bn \<and> cv C bn = updated (homes (lg (s\<lparr>lg := ?l\<rparr>))) W (cv A) bn"
    note C = this [simplified L same, simplified]
    have "cv C = cd C" using C(5) clean by (simp add: fun_eq_iff)
    moreover have "cd C bn = updated hs W D0 bn" if "bn \<notin> log_area (lg s)" for bn
      using C(5) h that by (auto simp: updated_def log_holds_def L)
    ultimately show "runs (kthen (set_lh_n 0) write_head) v P"
      using C by (intro last [of C]) (simp_all add: L same)
  qed (simp_all add: clean)
  have "runs read_head t (\<lambda>_ u. runs (install_trans True) u (\<lambda>_ v. runs (kthen (set_lh_n 0) write_head) v P))"
    by (rule runs_read_head [OF c g q(1) clean n]) (rule install)
  then show ?thesis by (simp add: recover_from_log_def)
qed

lemma same_place:
  assumes "log_geom l" "lg_dev k = lg_dev l" "lg_start k = lg_start l"
  shows "log_geom (emptied k)" "head_blk k = head_blk l" "log_area k = log_area l" "log_holds k = log_holds l"
    "log_clear k = log_clear l" "log_list_ok k = log_list_ok l"
proof -
  show h: "head_blk k = head_blk l" using assms by (simp add: head_blk_def)
  have b: "body_blk k = body_blk l" using assms by (simp add: body_blk_def fun_eq_iff)
  show a: "log_area k = log_area l" by (simp add: log_area_def h b)
  show "log_holds k = log_holds l" "log_clear k = log_clear l" "log_list_ok k = log_list_ok l"
    by (simp_all add: fun_eq_iff log_holds_def log_clear_def log_list_ok_def h b a)
  show "log_geom (emptied k)" using assms by (simp add: log_geom_def emptied_def)
qed

section \<open>log\_write and the reservation\<close>

lemma log_slot:
  "bn \<in> set (homes l) \<Longrightarrow> log_slot (lg_lh l) bn < log_n l \<and> home_blk l (log_slot (lg_lh l) bn) = bn"
  "bn \<notin> set (homes l) \<Longrightarrow> log_slot (lg_lh l) bn = log_n l"
  by (auto simp: log_slot_def homes_def home_blk_def find_None_iff find_Some_iff split: option.split)

text \<open>The log with block \<open>bn\<close> in the transaction.\<close>

definition log_add :: "u32 \<Rightarrow> log \<Rightarrow> log" where
  "log_add bn l =
     (let h = (lg_lh l)\<lparr>lh_block := (lh_block (lg_lh l))(log_slot (lg_lh l) bn := sint bn)\<rparr>
      in l\<lparr>lg_lh := if bn \<in> set (homes l) then h else h\<lparr>lh_n := lh_n h + 1\<rparr>\<rparr>)"

lemma homes_log_add:
  assumes "0 \<le> lh_n (lg_lh l)"
  shows "homes (log_add bn l) = (if bn \<in> set (homes l) then homes l else homes l @ [bn])"
proof (cases "bn \<in> set (homes l)")
  case True
  then show ?thesis using log_slot(1) [OF True] by (auto simp: log_add_def homes_def home_blk_def)
next
  case False
  have "nat (lh_n (lg_lh l) + 1) = Suc (log_n l)" using assms by simp
  then show ?thesis using False log_slot(2) [OF False] by (simp add: log_add_def homes_def home_blk_def Let_def)
qed

lemma home_blk_outstanding [simp]: "home_blk (l\<lparr>lg_outstanding := x\<rparr>) = home_blk l" "homes (l\<lparr>lg_outstanding := x\<rparr>) = homes l"
proof -
  show "home_blk (l\<lparr>lg_outstanding := x\<rparr>) = home_blk l" by (simp add: home_blk_def fun_eq_iff)
  then show "homes (l\<lparr>lg_outstanding := x\<rparr>) = homes l" by (simp add: homes_def)
qed

lemma log_write_app:
  fixes b :: nat
  assumes h: "hart_ok (hw s)" "lock_idle (hw s) LkLog" "lock_idle (hw s) LkBcache"
    and n: "0 \<le> lh_n (lg_lh (lg s))" "lh_n (lg_lh (lg s)) < LOGSIZE" "lh_n (lg_lh (lg s)) < lg_size (lg s) - 1" "1 \<le> lg_outstanding (lg s)"
  defines "bn \<equiv> b_blockno (bufs s b)"
  shows "log_write b s = Ok () (s\<lparr>lg := log_add bn (lg s), bufs := if bn \<in> set (homes (lg s)) then bufs s
    else (bufs s)(b := (bufs s b)\<lparr>b_refcnt := b_refcnt (bufs s b) + 1\<rparr>)\<rparr>)"
proof (rule runs_eqI)
  show "runs (log_write b) s (\<lambda>x t. x = () \<and> t = s\<lparr>lg := log_add bn (lg s), bufs := if bn \<in> set (homes (lg s)) then bufs s
    else (bufs s)(b := (bufs s b)\<lparr>b_refcnt := b_refcnt (bufs s b) + 1\<rparr>)\<rparr>)"
  proof (cases "bn \<in> set (homes (lg s))")
    case True
    have "int (log_slot (lg_lh (lg s)) bn) \<noteq> lh_n (lg_lh (lg s))" "log_slot (lg_lh (lg s)) bn < 30"
      using log_slot(1) [OF True] n(1,2) by auto
    then show ?thesis using h n True
      by (simp add: log_write_def get_log_def set_lh_def set_log_def kwhen_def log_add_def Let_def flip: bn_def)
  next
    case False
    then show ?thesis using h n log_slot(2) [OF False]
      by (simp add: log_write_def get_log_def set_lh_def set_lh_n_def set_log_def kwhen_def log_add_def Let_def runs_bpin_raw flip: bn_def)
  qed
qed

section \<open>Properties\<close>

definition same_files :: "log \<Rightarrow> (u32 \<Rightarrow> u8 list) \<Rightarrow> (u32 \<Rightarrow> u8 list) \<Rightarrow> bool" where
  "same_files l D E \<longleftrightarrow> (\<forall>bn. bn \<notin> log_area l \<longrightarrow> D bn = E bn)"

text \<open>The blocks with the transaction in effect.\<close>

definition committed :: "'z log_state_scheme \<Rightarrow> u32 \<Rightarrow> u8 list" where
  "committed s = updated (homes (lg s)) (view s) (disk s)"

text \<open>A transaction is ready to commit: its blocks are pinned in the cache, nothing is locked, and the log on the
  disk is empty.\<close>

definition txn_ready :: "nat \<Rightarrow> 'z log_state_scheme \<Rightarrow> bool" where
  "txn_ready p s \<longleftrightarrow> bc_ready p s \<and> log_geom (lg s) \<and> distinct (homes (lg s)) \<and> 0 < log_n (lg s) \<and> quiet (lg s) (cabs_of s) \<and>
     (\<forall>bn \<in> set (homes (lg s)). 0 < refs s bn) \<and> get32 0 (disk s (head_blk (lg s))) = 0"

text \<open>The system after a restart on a disk with contents \<open>D\<close>: the cache is empty, the log is where it was.\<close>

definition rebooted :: "nat \<Rightarrow> log \<Rightarrow> (u32 \<Rightarrow> u8 list) \<Rightarrow> 'z log_state_scheme \<Rightarrow> bool" where
  "rebooted q l D r \<longleftrightarrow> bc_ready q r \<and> disk r = D \<and> view r = disk r \<and> refs r = (\<lambda>_. 0) \<and> lock_pid r = (\<lambda>_. None) \<and>
     lg_dev (lg r) = lg_dev l \<and> lg_start (lg r) = lg_start l"

lemma runs_recover_rebooted:
  assumes r: "rebooted q l D r" and g: "log_geom l" and h: "log_holds l hs W D0 D" and ok: "log_list_ok l hs"
  shows "runs recover_from_log r (\<lambda>_ u. lh_n (lg_lh (lg u)) = 0 \<and> log_clear l (updated hs W D0) (disk u) \<and>
    (\<exists>tr. dtrace u = tr @ dtrace r \<and> (\<forall>E \<in> set tr. log_holds l hs W D0 E)))"
proof -
  note r = r [unfolded rebooted_def] and sp = same_place [OF g, of "lg r"]
  have "runs recover_from_log r (\<lambda>_ u. \<exists>k B. cached q (r\<lparr>lg := k\<rparr>) B u \<and> lh_n (lg_lh k) = 0 \<and> wrote (log_holds l hs W D0) (cabs_of r) B \<and>
      log_clear l (updated hs W D0) (cd B))"
  proof (rule runs_recover [OF cached_start, where hs = hs and W = W and ?D0.0 = D0])
    show "bc_ready q r" "log_geom (emptied (lg r))" using r sp by simp_all
    show "quiet (lg r) (cabs_of r)" using r by (simp add: quiet_def cabs_of_def NBUF_def)
    show "card {c. 0 < cr (cabs_of r) c} + 1 < NBUF" "cv (cabs_of r) = cd (cabs_of r)" using r by (simp_all add: cabs_of_def NBUF_def)
    show "log_holds (lg r) hs W D0 (cd (cabs_of r))" "log_list_ok (lg r) hs" using h ok r sp by (simp_all add: cabs_of_def)
  qed (use r sp in auto)
  then show ?thesis
  proof (rule runs_mono)
    fix x :: unit and u
    assume "\<exists>k B. cached q (r\<lparr>lg := k\<rparr>) B u \<and> lh_n (lg_lh k) = 0 \<and> wrote (log_holds l hs W D0) (cabs_of r) B \<and> log_clear l (updated hs W D0) (cd B)"
    then obtain k B where B: "cached q (r\<lparr>lg := k\<rparr>) B u" "lh_n (lg_lh k) = 0" "wrote (log_holds l hs W D0) (cabs_of r) B"
      "log_clear l (updated hs W D0) (cd B)" by blast
    then show "lh_n (lg_lh (lg u)) = 0 \<and> log_clear l (updated hs W D0) (disk u) \<and>
        (\<exists>tr. dtrace u = tr @ dtrace r \<and> (\<forall>E \<in> set tr. log_holds l hs W D0 E))"
      using cached_lg [OF B(1)] by (auto simp: cached_def wrote_def cabs_of_def)
  qed
qed

lemma recover_in_commit:
  assumes "in_commit l hs W D0 D" "log_geom l" "log_list_ok l hs" "rebooted q l D r"
  shows "runs recover_from_log r (\<lambda>_ u. same_files l (disk u) D0 \<or> same_files l (disk u) (updated hs W D0))"
proof -
  have nil: "log_list_ok l []" by (simp add: log_list_ok_def)
  consider "log_holds l [] W D0 D" | "log_holds l hs W D0 D" | "log_holds l [] W (updated hs W D0) D"
    using assms(1) by (auto simp: in_commit_def log_clear_holds [where W = W])
  then show ?thesis
    by cases (rule runs_mono [OF runs_recover_rebooted [OF assms(4,2)]], assumption, rule nil assms(3), auto simp: log_clear_def same_files_def)+
qed

text \<open>A system with one block, 50, in its transaction, and the same system after a restart.\<close>

definition demo_lg :: log where
  "demo_lg = \<lparr>lg_start = 2, lg_size = 30, lg_outstanding = 0, lg_committing = 1, lg_dev = 1, lg_lh = \<lparr>lh_n = 1, lh_block = (\<lambda>_. 50)\<rparr>\<rparr>"

definition demo_log :: "(nat \<Rightarrow> buf) \<Rightarrow> log_state" where
  "demo_log bs = \<lparr>hw = run_hart, mem = demo_mem, sym = boot_symbols, freelist = 0, kernel_pagetable = 0,
     satp = (\<lambda>_. 0), procs = demo_table, nextpid = 3, initproc = Some 0,
     slocks = (\<lambda>_. \<lparr>sk_locked = 0, sk_name = [], sk_pid = 0\<rparr>), bus = (\<lambda>_ _. 0), bus_log = [], panicked = 0, pr_locking = 1,
     vdisk = demo_vdisk, bufs = bs, dimg = (\<lambda>sec. replicate 512 0), blkdev = demo_blkdev, dev_avail = 0, dhist = [], lg = demo_lg\<rparr>"

definition demo_pinned :: "nat \<Rightarrow> buf" where
  "demo_pinned = demo_bufs(0 := (demo_bufs 0)\<lparr>b_valid := 1, b_dev := 1, b_blockno := 50, b_refcnt := 1, b_data := replicate 1024 7\<rparr>)"

lemma demo_log_ctx: "ctx (demo_log bs) 0"
  using demo_disk_ctx by (simp add: ctx_def demo_log_def demo_disk_def)

lemma demo_log_idle: "disk_idle (demo_log bs)"
  using demo_disk_idle by (simp add: disk_idle_def demo_log_def demo_disk_def)

lemma demo_log_ring: "lru_ring demo_bufs (rev [0..<NBUF])" "lru_ring demo_pinned (rev [0..<NBUF])"
proof -
  show "lru_ring demo_bufs (rev [0..<NBUF])" by (rule demo_ring)
  moreover have "(\<lambda>i. b_next (demo_pinned i)) = (\<lambda>i. b_next (demo_bufs i))" "(\<lambda>i. b_prev (demo_pinned i)) = (\<lambda>i. b_prev (demo_bufs i))"
    by (auto simp: demo_pinned_def)
  ultimately show "lru_ring demo_pinned (rev [0..<NBUF])" by (simp add: lru_ring_def)
qed

lemma demo_log_ok: "bcache_ok (demo_log demo_bufs) (rev [0..<NBUF])" "bcache_ok (demo_log demo_pinned) (rev [0..<NBUF])"
  using demo_log_ring demo_log_idle
  by (simp_all add: bcache_ok_def buf_ok_def holds_block_def demo_log_def demo_bufs_def demo_pinned_def ROOTDEV_def BSIZE_def)

lemma demo_fresh_abs:
  "refs (demo_log demo_bufs) = (\<lambda>_. 0)" "lock_pid (demo_log demo_bufs) = (\<lambda>_. None)" "view (demo_log demo_bufs) = disk (demo_log demo_bufs)"
proof -
  have b: "buf_of (demo_log demo_bufs) bn = None" for bn
    by (simp add: buf_of_None holds_block_def demo_log_def demo_bufs_def ROOTDEV_def)
  show "refs (demo_log demo_bufs) = (\<lambda>_. 0)" "lock_pid (demo_log demo_bufs) = (\<lambda>_. None)" "view (demo_log demo_bufs) = disk (demo_log demo_bufs)"
    by (simp_all add: fun_eq_iff refs_def lock_pid_def view_def b)
qed

lemma demo_pinned_abs:
  "refs (demo_log demo_pinned) = (\<lambda>_. 0)(50 := 1)" "lock_pid (demo_log demo_pinned) = (\<lambda>_. None)"
  "view (demo_log demo_pinned) 50 = replicate 1024 7" "bn < 2 ^ 31 \<Longrightarrow> disk (demo_log demo_pinned) bn = replicate 1024 0"
proof -
  have h: "holds_block (demo_pinned b) bn \<longleftrightarrow> b = 0 \<and> bn = 50" for b bn
    by (auto simp: demo_pinned_def holds_block_def demo_bufs_def ROOTDEV_def)
  have b: "buf_of (demo_log demo_pinned) bn = (if bn = 50 then Some 0 else None)" for bn
  proof -
    have n: "[0..<NBUF] = 0 # [1..<NBUF]" by (simp add: NBUF_def upt_conv_Cons)
    show ?thesis unfolding buf_of_def n by (simp add: demo_log_def h find_None_iff)
  qed
  have z: "b_refcnt (bufs (demo_log demo_pinned) 0) = 1" "b_valid (bufs (demo_log demo_pinned) 0) = 1"
    "b_data (bufs (demo_log demo_pinned) 0) = replicate 1024 7" "sk_locked (slocks (demo_log demo_pinned) lk) = 0" for lk
    by (simp_all add: demo_log_def demo_pinned_def)
  show "refs (demo_log demo_pinned) = (\<lambda>_. 0)(50 := 1)" "lock_pid (demo_log demo_pinned) = (\<lambda>_. None)"
    "view (demo_log demo_pinned) 50 = replicate 1024 7"
    by (simp_all add: fun_eq_iff refs_def lock_pid_def view_def b z)
  show "bn < 2 ^ 31 \<Longrightarrow> disk (demo_log demo_pinned) bn = replicate 1024 0"
    by (simp add: disk_def disk_of_def blk_def demo_log_def replicate_add [symmetric])
qed

lemma demo_geom: "log_geom demo_lg" "homes demo_lg = [50]" "head_blk demo_lg = 2" "50 \<notin> log_area demo_lg"
proof -
  have "body_blk demo_lg i \<noteq> 50" if "i < 30" for i
  proof -
    have "(of_int (2 + int i + 1) :: u32) \<noteq> of_int 50" using that by (subst block_word_eq) auto
    then show ?thesis by (simp add: body_blk_def demo_lg_def)
  qed
  then show a: "50 \<notin> log_area demo_lg" by (auto simp: log_area_def head_blk_def demo_lg_def)
  then show "log_geom demo_lg" by (simp add: log_geom_def demo_lg_def home_blk_def)
  show "homes demo_lg = [50]" "head_blk demo_lg = 2" by (simp_all add: homes_def head_blk_def demo_lg_def home_blk_def)
qed

lemma demo_txn_ready: "txn_ready 0 (demo_log demo_pinned)"
proof -
  have lg: "lg (demo_log bs) = demo_lg" for bs by (simp add: demo_log_def)
  have "{c. 0 < ((\<lambda>_. 0)(50 := 1 :: nat)) (c :: u32)} = {50 :: u32}" by auto
  then have "quiet demo_lg (cabs_of (demo_log demo_pinned))"
    using demo_geom(4) by (auto simp: quiet_def cabs_of_def demo_pinned_abs NBUF_def)
  moreover have "bc_ready 0 (demo_log demo_pinned)" using demo_log_ctx demo_log_ok unfolding bc_ready_def by blast
  moreover have "get32 0 (disk (demo_log demo_pinned) 2) = 0" by (simp add: demo_pinned_abs get32_zero)
  moreover have "log_n demo_lg = 1" by (simp add: demo_lg_def)
  ultimately show ?thesis unfolding txn_ready_def lg by (simp add: demo_geom demo_pinned_abs)
qed

lemma demo_rebooted: "rebooted 0 demo_lg (disk (demo_log demo_bufs)) (demo_log demo_bufs)"
  unfolding rebooted_def bc_ready_def using demo_log_ctx demo_log_ok demo_fresh_abs by (auto simp: demo_log_def)



text \<open>The blocks the header names.\<close>

definition head_list :: "log \<Rightarrow> (u32 \<Rightarrow> u8 list) \<Rightarrow> u32 list" where
  "head_list l D = map (\<lambda>i. get32 (4 + 4 * i) (D (head_blk l))) [0..<nat (sint (get32 0 (D (head_blk l))))]"





lemma begin_op_app:
  assumes h: "hart_ok (hw s)" "lock_idle (hw s) LkLog"
    and n: "lg_committing (lg s) = 0" "lh_n (lg_lh (lg s)) + (lg_outstanding (lg s) + 1) * MAXOPBLOCKS \<le> LOGSIZE"
  shows "begin_op s = Ok () (s\<lparr>lg := (lg s)\<lparr>lg_outstanding := lg_outstanding (lg s) + 1\<rparr>\<rparr>)"
  by (rule runs_eqI) (use assms in \<open>simp add: begin_op_def begin_op_loop_def get_log_def set_log_def\<close>)

lemma log_writes:
  assumes h: "hart_ok (hw s)" "lock_idle (hw s) LkLog" "lock_idle (hw s) LkBcache"
    and n: "0 \<le> lh_n (lg_lh (lg s))" "lh_n (lg_lh (lg s)) + int (length bs) \<le> lg_size (lg s) - 1" "lg_size (lg s) \<le> LOGSIZE" "1 \<le> lg_outstanding (lg s)"
    and d: "distinct (map (\<lambda>b. b_blockno (bufs s b)) bs)" "\<forall>b \<in> set bs. b_blockno (bufs s b) \<notin> set (homes (lg s))"
  shows "runs (kforall bs log_write) s (\<lambda>_ t. hw t = hw s \<and> lg_size (lg t) = lg_size (lg s) \<and>
    lh_n (lg_lh (lg t)) = lh_n (lg_lh (lg s)) + int (length bs))"
  using assms
proof (induction bs arbitrary: s)
  case (Cons b bs)
  let ?bn = "b_blockno (bufs s b)"
  have new: "?bn \<notin> set (homes (lg s))" using Cons.prems(9) by simp
  define t where "t = s\<lparr>lg := log_add ?bn (lg s), bufs := (bufs s)(b := (bufs s b)\<lparr>b_refcnt := b_refcnt (bufs s b) + 1\<rparr>)\<rparr>"
  have w: "log_write b s = Ok () t" using log_write_app [of s b] Cons.prems new by (simp add: t_def)
  have l: "lh_n (lg_lh (lg t)) = lh_n (lg_lh (lg s)) + 1" "lg_size (lg t) = lg_size (lg s)" "lg_outstanding (lg t) = lg_outstanding (lg s)" "hw t = hw s"
    using new by (simp_all add: t_def log_add_def Let_def)
  have hm: "homes (lg t) = homes (lg s) @ [?bn]" using homes_log_add [of "lg s" ?bn] new Cons.prems(4) by (simp add: t_def)
  have bk: "(\<lambda>c. b_blockno (bufs t c)) = (\<lambda>c. b_blockno (bufs s c))" by (simp add: t_def fun_eq_iff)
  have "runs (kforall bs log_write) t (\<lambda>_ u. hw u = hw t \<and> lg_size (lg u) = lg_size (lg t) \<and> lh_n (lg_lh (lg u)) = lh_n (lg_lh (lg t)) + int (length bs))"
    by (rule Cons.IH) (use Cons.prems l hm fun_cong [OF bk] in \<open>auto simp: bk image_iff\<close>)
  then show ?case using w l by (simp add: runs_def [of "log_write b"] algebra_simps)
qed simp



end
