(* ===== verification/Xv6_Printf.thy ===== *)
theory Xv6_Printf
  imports Xv6_Bus
begin

text \<open>
  The polled half of kernel/uart.c, \<open>consputc\<close> of kernel/console.c, kernel/printf.c and \<open>procdump\<close> of
  kernel/proc.c; plic.c. A format string and a string argument are the bytes before the terminating NUL; the
  variable arguments are a list, taken from the front by \<open>va_arg\<close>.

  Shown: \<open>printf\<close> sends exactly the formatted text, and the digits it prints for a number denote that
  number.
\<close>

section \<open>uart.c: registers and polled output\<close>

definition RHR :: u64 where "RHR = 0"
definition THR :: u64 where "THR = 0"
definition IER :: u64 where "IER = 1"
definition IER_RX_ENABLE :: u32 where "IER_RX_ENABLE = 1"
definition IER_TX_ENABLE :: u32 where "IER_TX_ENABLE = 2"
definition FCR :: u64 where "FCR = 2"
definition FCR_FIFO_ENABLE :: u32 where "FCR_FIFO_ENABLE = 1"
definition FCR_FIFO_CLEAR :: u32 where "FCR_FIFO_CLEAR = 6"
definition LCR :: u64 where "LCR = 3"
definition LCR_EIGHT_BITS :: u32 where "LCR_EIGHT_BITS = 3"
definition LCR_BAUD_LATCH :: u32 where "LCR_BAUD_LATCH = 128"
definition LSR :: u64 where "LSR = 5"
definition LSR_TX_IDLE :: u32 where "LSR_TX_IDLE = 32"

text \<open>The registers are one byte wide.\<close>

definition ReadReg :: "u64 \<Rightarrow> (u32, 'z bus_state_scheme) M" where
  "ReadReg reg = kbind (bus_read (UART0 + reg)) (\<lambda>v. ret (v AND 0xff))"

definition WriteReg :: "u64 \<Rightarrow> u32 \<Rightarrow> (unit, 'z bus_state_scheme) M" where
  "WriteReg reg v = bus_write (UART0 + reg) (v AND 0xff)"

definition uartputc_sync :: "int \<Rightarrow> (unit, 'z bus_state_scheme) M" where
  "uartputc_sync c =
     kthen push_off (
     kbind (gets panicked) (\<lambda>pk.
     if pk \<noteq> 0 then block Forever else
     kbind (ReadReg LSR) (\<lambda>v.
     if v AND LSR_TX_IDLE = 0 then block (OnDev (UART0 + LSR)) else
     kthen (WriteReg THR (of_int c))
     pop_off)))"

section \<open>console.c: consputc\<close>

definition BACKSPACE :: int where "BACKSPACE = 0x100"

definition consputc :: "int \<Rightarrow> (unit, 'z bus_state_scheme) M" where
  "consputc c =
     (if c = BACKSPACE
      then kthen (uartputc_sync 8) (kthen (uartputc_sync 32) (uartputc_sync 8))
      else uartputc_sync c)"

section \<open>printf.c\<close>

definition bytes_of :: "string \<Rightarrow> u8 list" where
  "bytes_of s = map of_char s"

definition digits :: "u8 list" where
  "digits = bytes_of ''0123456789abcdef''"

text \<open>The do loop of \<open>printint\<close>: the digits, last one first. A 32-bit number has at most 32 digits in
  any base from 2 on.\<close>

fun printint_loop :: "nat \<Rightarrow> u32 \<Rightarrow> u32 \<Rightarrow> u8 list" where
  "printint_loop 0 x base = []"
| "printint_loop (Suc n) x base =
     digits ! unat (x mod base) # (if x div base \<noteq> 0 then printint_loop n (x div base) base else [])"

definition printint_buf :: "int \<Rightarrow> u32 \<Rightarrow> bool \<Rightarrow> u8 list" where
  "printint_buf xx base sign =
     (let neg = (sign \<and> xx < 0); x = (if neg then of_int (- xx) else of_int xx) :: u32 in
      printint_loop 32 x base @ (if neg then bytes_of ''-'' else []))"

definition printint :: "int \<Rightarrow> u32 \<Rightarrow> bool \<Rightarrow> (unit, 'z bus_state_scheme) M" where
  "printint xx base sign =
     (let buf = printint_buf xx base sign in
      if sign \<and> xx = - (2 ^ 31) then fault ''-xx overflows''
      else if length buf > 16 then fault ''printint buf''
      else kforall (rev buf) (\<lambda>c. consputc (uint c)))"

fun printptr_loop :: "nat \<Rightarrow> u64 \<Rightarrow> (unit, 'z bus_state_scheme) M" where
  "printptr_loop 0 x = ret ()"
| "printptr_loop (Suc n) x =
     kthen (consputc (uint (digits ! unat (drop_bit 60 x)))) (printptr_loop n (push_bit 4 x))"

definition printptr :: "u64 \<Rightarrow> (unit, 'z bus_state_scheme) M" where
  "printptr x = kthen (consputc 48) (kthen (consputc 120) (printptr_loop 16 x))"

text \<open>An argument of \<open>printf\<close>: an \<open>int\<close>, a \<open>uint64\<close>, or a \<open>char *\<close> that may be null. Taking an argument
  that was not passed, or of another type, is undefined.\<close>

datatype parg = PInt int | PPtr u64 | PStr "u8 list option"

fun printf_arg :: "u8 \<Rightarrow> parg list \<Rightarrow> (parg list, 'z bus_state_scheme) M" where
  "printf_arg c args =
     (if c = of_char (CHR ''d'') then (case args of PInt x # as \<Rightarrow> kthen (printint x 10 True) (ret as) | _ \<Rightarrow> fault ''va_arg'')
      else if c = of_char (CHR ''x'') then (case args of PInt x # as \<Rightarrow> kthen (printint x 16 True) (ret as) | _ \<Rightarrow> fault ''va_arg'')
      else if c = of_char (CHR ''p'') then (case args of PPtr x # as \<Rightarrow> kthen (printptr x) (ret as) | _ \<Rightarrow> fault ''va_arg'')
      else if c = of_char (CHR ''s'') then (case args of PStr s # as \<Rightarrow>
          kthen (kforall (case s of None \<Rightarrow> bytes_of ''(null)'' | Some b \<Rightarrow> b) (\<lambda>c. consputc (uint c))) (ret as)
        | _ \<Rightarrow> fault ''va_arg'')
      else if c = of_char (CHR ''%'') then kthen (consputc (uint c)) (ret args)
      else kthen (consputc 37) (kthen (consputc (uint c)) (ret args)))"

fun printf_loop :: "u8 list \<Rightarrow> parg list \<Rightarrow> (unit, 'z bus_state_scheme) M" where
  "printf_loop [] args = ret ()"
| "printf_loop (c # fmt) args =
     (if c \<noteq> of_char (CHR ''%'') then kthen (consputc (uint c)) (printf_loop fmt args)
      else case fmt of [] \<Rightarrow> ret ()
      | d # rest \<Rightarrow> kbind (printf_arg d args) (\<lambda>as. printf_loop rest as))"

definition printf :: "u8 list \<Rightarrow> parg list \<Rightarrow> (unit, 'z bus_state_scheme) M" where
  "printf fmt args =
     kbind (gets pr_locking) (\<lambda>locking.
     kthen (kwhen (locking \<noteq> 0) (acquire LkPr)) (
     kthen (printf_loop fmt args)
     (kwhen (locking \<noteq> 0) (release LkPr))))"

text \<open>\<open>panic\<close> as the function it is; the code that calls it stops with the outcome \<open>Panic\<close>.\<close>

definition panic_fn :: "u8 list \<Rightarrow> (unit, 'z bus_state_scheme) M" where
  "panic_fn msg =
     kthen (modify (\<lambda>s. s\<lparr>pr_locking := 0\<rparr>)) (
     kthen (printf (bytes_of ''panic: '') []) (
     kthen (printf msg []) (
     kthen (printf [10] []) (
     kthen (modify (\<lambda>s. s\<lparr>panicked := 1\<rparr>))
     (block Forever)))))"

definition printfinit :: "(unit, 'z bus_state_scheme) M" where
  "printfinit = kthen (initlock LkPr ''pr'') (modify (\<lambda>s. s\<lparr>pr_locking := 1\<rparr>))"

section \<open>proc.c: procdump\<close>

fun state_name :: "procstate \<Rightarrow> u8 list" where
  "state_name UNUSED = bytes_of ''unused''"
| "state_name USED = bytes_of ''used''"
| "state_name SLEEPING = bytes_of ''sleep ''"
| "state_name RUNNABLE = bytes_of ''runble''"
| "state_name RUNNING = bytes_of ''run   ''"
| "state_name ZOMBIE = bytes_of ''zombie''"

definition procdump :: "(unit, 'z bus_state_scheme) M" where
  "procdump =
     kthen (printf [10] [])
     (kforall [0..<NPROC] (\<lambda>p.
       kbind (get_proc p) (\<lambda>q.
       kwhen (p_state q \<noteq> UNUSED) (
         kthen (printf (bytes_of ''%d %s %s'') [PInt (p_pid q), PStr (Some (state_name (p_state q))),
           PStr (Some (cstr 16 (p_name q)))])
         (printf [10] [])))))"

section \<open>plic.c\<close>

definition UART0_IRQ :: u32 where "UART0_IRQ = 10"
definition VIRTIO0_IRQ :: u32 where "VIRTIO0_IRQ = 1"

definition PLIC_SENABLE :: "nat \<Rightarrow> u64" where
  "PLIC_SENABLE h = PLIC + 0x2080 + of_nat h * 0x100"

definition PLIC_SPRIORITY :: "nat \<Rightarrow> u64" where
  "PLIC_SPRIORITY h = PLIC + 0x201000 + of_nat h * 0x2000"

definition PLIC_SCLAIM :: "nat \<Rightarrow> u64" where
  "PLIC_SCLAIM h = PLIC + 0x201004 + of_nat h * 0x2000"

definition plicinit :: "(unit, 'z bus_state_scheme) M" where
  "plicinit =
     kthen (bus_write (PLIC + ucast UART0_IRQ * 4) 1)
     (bus_write (PLIC + ucast VIRTIO0_IRQ * 4) 1)"

definition plicinithart :: "(unit, 'z bus_state_scheme) M" where
  "plicinithart =
     kbind cpuid (\<lambda>h.
     kthen (bus_write (PLIC_SENABLE h) (push_bit (unat UART0_IRQ) 1 OR push_bit (unat VIRTIO0_IRQ) 1))
     (bus_write (PLIC_SPRIORITY h) 0))"

definition plic_claim :: "(u32, 'z bus_state_scheme) M" where
  "plic_claim = kbind cpuid (\<lambda>h. bus_read (PLIC_SCLAIM h))"

definition plic_complete :: "u32 \<Rightarrow> (unit, 'z bus_state_scheme) M" where
  "plic_complete irq = kbind cpuid (\<lambda>h. bus_write (PLIC_SCLAIM h) irq)"

section \<open>What is sent\<close>

text \<open>The bytes written to the transmit register, in order.\<close>

definition sent_byte :: "bus_access \<Rightarrow> u8 option" where
  "sent_byte a = (case a of BusWrite r v \<Rightarrow> if r = UART0 + THR then Some (ucast v) else None | BusRead r \<Rightarrow> None)"

definition sent :: "'z bus_state_scheme \<Rightarrow> u8 list" where
  "sent s = rev (List.map_filter sent_byte (bus_log s))"

text \<open>The transmitter is always ready, the kernel has not panicked, and the hart is in order.\<close>

definition uart_ready :: "'z bus_state_scheme \<Rightarrow> bool" where
  "uart_ready s \<longleftrightarrow> (\<forall>h. bus s h (UART0 + LSR) AND LSR_TX_IDLE \<noteq> 0) \<and> panicked s = 0 \<and> hart_ok (hw s)"

text \<open>\<open>t\<close> is \<open>s\<close> after the bytes \<open>bs\<close> went out.\<close>

definition printed :: "'z bus_state_scheme \<Rightarrow> u8 list \<Rightarrow> 'z bus_state_scheme \<Rightarrow> bool" where
  "printed s bs t \<longleftrightarrow> t\<lparr>bus_log := bus_log s\<rparr> = s \<and> sent t = sent s @ bs"

lemma printed_refl: "printed s [] s"
  by (simp add: printed_def)

lemma printed_trans: "printed s bs t \<Longrightarrow> printed t cs u \<Longrightarrow> printed s (bs @ cs) u"
proof -
  assume a: "printed s bs t" "printed t cs u"
  then have "u\<lparr>bus_log := bus_log s\<rparr> = (u\<lparr>bus_log := bus_log t\<rparr>)\<lparr>bus_log := bus_log s\<rparr>" by simp
  also have "\<dots> = s" using a by (simp add: printed_def)
  finally show "printed s (bs @ cs) u" using a by (simp add: printed_def)
qed

lemma printedD:
  assumes "printed s bs t"
  shows "bus t = bus s" "panicked t = panicked s" "hw t = hw s" "pr_locking t = pr_locking s" "procs t = procs s"
proof -
  have e: "s = t\<lparr>bus_log := bus_log s\<rparr>" using assms by (simp add: printed_def)
  show "bus t = bus s" "panicked t = panicked s" "hw t = hw s" "pr_locking t = pr_locking s" "procs t = procs s"
    by (subst e, simp)+
qed

lemma uart_ready_printed: "printed s bs t \<Longrightarrow> uart_ready s \<Longrightarrow> uart_ready t"
  using printedD [of s bs t] by (simp add: uart_ready_def)

lemma runs_uartputc_sync:
  assumes "uart_ready s" and P: "\<And>t. printed s [of_int c] t \<Longrightarrow> P () t"
  shows "runs (uartputc_sync c) s P"
proof -
  let ?t = "s\<lparr>bus_log := BusWrite (UART0 + THR) (of_int c AND 255) # BusRead (UART0 + LSR) # bus_log s\<rparr>"
  have c: "ucast (of_int c AND 255 :: u32) = (of_int c :: u8)"
  proof -
    have m: "(255 :: u32) = mask 8" by (simp add: mask_eq_exp_minus_1)
    have "ucast (take_bit 8 (word_of_int c :: u32)) = (word_of_int c :: u8)" by transfer simp
    then show ?thesis unfolding m take_bit_eq_mask [symmetric] by simp
  qed
  have "printed s [of_int c] ?t"
    using c by (simp add: printed_def sent_def sent_byte_def List.map_filter_simps)
  then have "P () ?t" by (rule P)
  moreover have "(bus s h (UART0 + LSR) AND 255) AND LSR_TX_IDLE \<noteq> 0" for h
    using assms(1) by (simp add: uart_ready_def LSR_TX_IDLE_def and.assoc)
  ultimately show ?thesis using assms(1) popped_pushed [of "hw s"]
    by (simp add: uartputc_sync_def ReadReg_def WriteReg_def bus_read_def bus_write_def uart_ready_def)
qed

lemma runs_put_bytes:
  assumes "uart_ready s" and P: "\<And>t. printed s bs t \<Longrightarrow> P () t"
  shows "runs (kforall bs (\<lambda>c. consputc (uint c))) s P"
  using assms
proof (induction bs arbitrary: s P)
  case Nil
  then have "P () s" using printed_refl by blast
  then show ?case by simp
next
  case (Cons c bs)
  have "uint c \<noteq> BACKSPACE" using uint_lt2p [of c] by (simp add: BACKSPACE_def)
  moreover have "runs (uartputc_sync (uint c)) s (\<lambda>_ t. runs (kforall bs (\<lambda>c. consputc (uint c))) t P)"
  proof (rule runs_uartputc_sync [OF Cons.prems(1)])
    fix t assume t: "printed s [of_int (uint c)] t"
    then have t': "printed s [c] t" by simp
    show "runs (kforall bs (\<lambda>c. consputc (uint c))) t P"
      by (rule Cons.IH [OF uart_ready_printed [OF t' Cons.prems(1)]])
         (use printed_trans [OF t'] Cons.prems(2) in fastforce)
  qed
  ultimately show ?case by (simp add: consputc_def)
qed

section \<open>The text of a number\<close>

text \<open>The digits of \<open>n\<close> in base \<open>b\<close>, most significant first.\<close>

fun nat_digits :: "nat \<Rightarrow> nat \<Rightarrow> nat list" where
  "nat_digits b n = (if b < 2 \<or> n < b then [n] else nat_digits b (n div b) @ [n mod b])"

declare nat_digits.simps [simp del]

definition digit_text :: "nat \<Rightarrow> nat \<Rightarrow> u8 list" where
  "digit_text b n = map (\<lambda>d. digits ! d) (nat_digits b n)"

definition int_text :: "nat \<Rightarrow> int \<Rightarrow> u8 list" where
  "int_text b x = (if x < 0 then bytes_of ''-'' else []) @ digit_text b (nat \<bar>x\<bar>)"

text \<open>The digits denote the number, and each is below the base.\<close>

lemma nat_digits_value: "2 \<le> b \<Longrightarrow> foldl (\<lambda>v d. v * b + d) 0 (nat_digits b n) = n"
  by (induction b n rule: nat_digits.induct) (subst nat_digits.simps, auto)

lemma nat_digits_range: "2 \<le> b \<Longrightarrow> d \<in> set (nat_digits b n) \<Longrightarrow> d < b"
proof (induction b n rule: nat_digits.induct)
  case (1 b n)
  have "set (nat_digits b n) = (if n < b then {n} else set (nat_digits b (n div b)) \<union> {n mod b})"
    using 1(2) by (subst nat_digits.simps) simp
  then show ?case using 1 by (auto split: if_splits)
qed

lemma length_nat_digits: "2 \<le> b \<Longrightarrow> n < b ^ Suc k \<Longrightarrow> length (nat_digits b n) \<le> Suc k"
proof (induction k arbitrary: n)
  case 0
  then show ?case by (subst nat_digits.simps) simp
next
  case (Suc k)
  have "n div b < b ^ Suc k" using Suc.prems by (simp add: less_mult_imp_div_less mult.commute)
  then show ?case using Suc.IH [of "n div b"] Suc.prems by (subst nat_digits.simps) auto
qed

lemma printint_loop_digits:
  fixes x base :: u32
  assumes "2 \<le> unat base" "unat x < unat base ^ Suc k" "k < m"
  shows "printint_loop m x base = rev (digit_text (unat base) (unat x))"
  using assms
proof (induction k arbitrary: m x)
  case 0
  then obtain j where m: "m = Suc j" by (cases m) auto
  have "x < base" using 0 by (simp add: word_less_nat_alt)
  moreover have "\<not> x div base \<noteq> 0" using 0 by (simp add: word_unat_eq_iff unat_div)
  ultimately show ?case using 0 by (simp add: m digit_text_def nat_digits.simps unat_mod)
next
  case (Suc k)
  then obtain j where m: "m = Suc j" "k < j" by (cases m) auto
  show ?case
  proof (cases "unat x < unat base")
    case True
    then have "x div base = 0" by (simp add: word_unat_eq_iff unat_div)
    then show ?thesis using True by (simp add: m digit_text_def nat_digits.simps unat_mod)
  next
    case False
    have "unat x div unat base < unat base ^ Suc k" using Suc.prems by (simp add: less_mult_imp_div_less mult.commute)
    then have "printint_loop j (x div base) base = rev (digit_text (unat base) (unat (x div base)))"
      using Suc.IH [of "x div base" j] Suc.prems(1) m by (simp add: unat_div)
    moreover have "x div base \<noteq> 0" using False Suc.prems(1) by (auto simp: word_unat_eq_iff unat_div div_eq_0_iff)
    ultimately show ?thesis using False Suc.prems(1)
      by (simp add: m digit_text_def nat_digits.simps [of "unat base" "unat x"] unat_mod unat_div)
  qed
qed

lemma runs_printint:
  fixes x :: int and base :: u32
  assumes "uart_ready s" and base: "10 \<le> unat base" and x: "- (2 ^ 31) < x" "x < 2 ^ 31"
    and P: "\<And>t. printed s (int_text (unat base) x) t \<Longrightarrow> P () t"
  shows "runs (printint x base True) s P"
proof -
  let ?n = "nat \<bar>x\<bar>"
  have n: "?n < 10 ^ 10" using x by simp
  have pw: "?n < unat base ^ Suc 9" using n power_mono [OF base, of 10] by simp
  have u: "unat (of_int \<bar>x\<bar> :: u32) = ?n" using x by (simp add: unat_eq_nat_uint uint_word_of_int_eq take_bit_int_eq_self)
  have "printint_loop 32 (of_int \<bar>x\<bar>) base = rev (digit_text (unat base) ?n)"
    using printint_loop_digits [of base "of_int \<bar>x\<bar>" 9 32] base pw u by simp
  then have b: "rev (printint_buf x base True) = int_text (unat base) x"
    using x by (cases "x < 0") (simp_all add: printint_buf_def int_text_def Let_def bytes_of_def)
  have "length (digit_text (unat base) ?n) \<le> 10"
    using length_nat_digits [of "unat base" ?n 9] base pw by (simp add: digit_text_def)
  then have "length (int_text (unat base) x) \<le> 11" by (cases "x < 0") (simp_all add: int_text_def bytes_of_def)
  then have "length (printint_buf x base True) \<le> 11" using b by (metis length_rev)
  then show ?thesis using runs_put_bytes [OF assms(1), of "int_text (unat base) x" P] P x
    by (simp add: printint_def Let_def b)
qed

definition ptr_text :: "u64 \<Rightarrow> u8 list" where
  "ptr_text x = bytes_of ''0x'' @ map (\<lambda>i. digits ! (unat x div 16 ^ (15 - i) mod 16)) [0..<16]"

lemma printptr_loop_bytes:
  "printptr_loop n x = kforall (map (\<lambda>i. digits ! unat (drop_bit 60 (push_bit (4 * i) x))) [0..<n]) (\<lambda>c. consputc (uint c))"
proof (induction n arbitrary: x)
  case (Suc n)
  have "[0..<Suc n] = 0 # map Suc [0..<n]" by (simp add: map_Suc_upt upt_conv_Cons)
  moreover have "push_bit (4 * Suc i) x = push_bit (4 * i) (push_bit 4 x)" for i by (simp add: push_bit_push_bit add.commute)
  ultimately show ?case using Suc [of "push_bit 4 x"] by (simp add: comp_def del: upt_Suc mult_Suc_right)
qed simp

lemma nibble: "i < 16 \<Longrightarrow> unat (drop_bit 60 (push_bit (4 * i) (x :: u64))) = unat x div 16 ^ (15 - i) mod 16"
proof -
  assume i: "i < 16"
  have "drop_bit 60 (push_bit (4 * i) x) = take_bit 4 (drop_bit (60 - 4 * i) x)"
    by (rule bit_word_eqI) (use i in \<open>auto simp: bit_simps\<close>)
  moreover have "(2 :: nat) ^ (60 - 4 * i) = 16 ^ (15 - i)"
    using power_mult [of "2 :: nat" 4 "15 - i"] i by (simp add: diff_mult_distrib2)
  moreover have "unat (2 ^ (60 - 4 * i) :: u64) = 2 ^ (60 - 4 * i)"
  proof -
    have "unat (of_nat (2 ^ (60 - 4 * i)) :: u64) = 2 ^ (60 - 4 * i)"
      unfolding unsigned_of_nat of_nat_id by (rule take_bit_nat_eq_self, rule power_strict_increasing) simp_all
    then show ?thesis by simp
  qed
  ultimately show ?thesis by (simp add: take_bit_eq_mod drop_bit_eq_div unat_mod unat_div)
qed

lemma printptr_bytes: "printptr x = kforall (ptr_text x) (\<lambda>c. consputc (uint c))"
proof -
  have m: "map (\<lambda>i. digits ! unat (drop_bit 60 (push_bit (4 * i) x))) [0..<16] = map (\<lambda>i. digits ! (unat x div 16 ^ (15 - i) mod 16)) [0..<16]"
    by (rule map_cong) (simp_all add: nibble)
  show ?thesis unfolding printptr_def printptr_loop_bytes m by (simp add: ptr_text_def bytes_of_def)
qed

lemma runs_printptr:
  "uart_ready s \<Longrightarrow> (\<And>t. printed s (ptr_text x) t \<Longrightarrow> P () t) \<Longrightarrow> runs (printptr x) s P"
  unfolding printptr_bytes by (rule runs_put_bytes)

section \<open>The text of a format\<close>

text \<open>The text for one conversion and the arguments left; \<open>None\<close> where there is no argument of the type.\<close>

fun arg_text :: "u8 \<Rightarrow> parg list \<Rightarrow> (u8 list \<times> parg list) option" where
  "arg_text c args =
     (if c = of_char (CHR ''d'') then (case args of PInt x # as \<Rightarrow> Some (int_text 10 x, as) | _ \<Rightarrow> None)
      else if c = of_char (CHR ''x'') then (case args of PInt x # as \<Rightarrow> Some (int_text 16 x, as) | _ \<Rightarrow> None)
      else if c = of_char (CHR ''p'') then (case args of PPtr x # as \<Rightarrow> Some (ptr_text x, as) | _ \<Rightarrow> None)
      else if c = of_char (CHR ''s'') then (case args of PStr s # as \<Rightarrow>
        Some (case s of None \<Rightarrow> bytes_of ''(null)'' | Some b \<Rightarrow> b, as) | _ \<Rightarrow> None)
      else if c = of_char (CHR ''%'') then Some ([c], args)
      else Some ([of_char (CHR ''%''), c], args))"

fun format_text :: "u8 list \<Rightarrow> parg list \<Rightarrow> u8 list option" where
  "format_text [] args = Some []"
| "format_text [c] args = Some (if c = of_char (CHR ''%'') then [] else [c])"
| "format_text (c # d # fmt) args =
     (if c \<noteq> of_char (CHR ''%'') then map_option (Cons c) (format_text (d # fmt) args)
      else case arg_text d args of None \<Rightarrow> None | Some (txt, as) \<Rightarrow> map_option (append txt) (format_text fmt as))"

definition ints_ok :: "parg list \<Rightarrow> bool" where
  "ints_ok args \<longleftrightarrow> (\<forall>a \<in> set args. case a of PInt x \<Rightarrow> - (2 ^ 31) < x \<and> x < 2 ^ 31 | _ \<Rightarrow> True)"

lemma runs_printf_arg:
  assumes "uart_ready s" "ints_ok args" "arg_text c args = Some (txt, as)"
    and P: "\<And>t. printed s txt t \<Longrightarrow> P as t"
  shows "runs (printf_arg c args) s P"
proof -
  note put = runs_put_bytes [OF assms(1)]
  have one: "runs (consputc (uint c)) s Q" if "\<And>t. printed s [c] t \<Longrightarrow> Q () t" for c :: u8 and Q
    using put [of "[c]" Q] that by simp
  have num: "runs (printint x b True) s (\<lambda>_ t. P as t)" if "args = PInt x # as" "txt = int_text (unat b) x" "10 \<le> unat b" for x b
    using assms(2) that P by (intro runs_printint [OF assms(1)]) (auto simp: ints_ok_def)
  have ptr: "runs (printptr x) s (\<lambda>_ t. P as t)" if "txt = ptr_text x" for x
    by (rule runs_printptr [OF assms(1)]) (use that P in simp)
  have str: "runs (kforall txt (\<lambda>c. consputc (uint c))) s (\<lambda>_ t. P as t)"
    by (rule put) (rule P)
  show ?thesis using assms(3) num [of _ 10] num [of _ 16] ptr str one P
    by (auto split: if_splits list.splits parg.splits)
qed

lemma arg_text_ints: "ints_ok args \<Longrightarrow> arg_text c args = Some (txt, as) \<Longrightarrow> ints_ok as"
  by (auto simp: ints_ok_def split: if_splits list.splits parg.splits)

lemma runs_printf_loop:
  assumes "uart_ready s" "ints_ok args" "format_text fmt args = Some res" and P: "\<And>t. printed s res t \<Longrightarrow> P () t"
  shows "runs (printf_loop fmt args) s P"
  using assms
proof (induction fmt args arbitrary: s res P rule: format_text.induct)
  case (1 args)
  then have "P () s" using printed_refl by (metis format_text.simps(1) option.inject)
  then show ?case by simp
next
  case (2 c args)
  then show ?case using runs_put_bytes [of s "[c]" P] printed_refl [of s] by (auto split: if_splits)
next
  case (3 c d fmt args)
  show ?case
  proof (cases "c = of_char (CHR ''%'')")
    case False
    then obtain rest where r: "format_text (d # fmt) args = Some rest" "res = c # rest" using 3(5) by auto
    have "runs (kforall [c] (\<lambda>c. consputc (uint c))) s (\<lambda>_ t. runs (printf_loop (d # fmt) args) t P)"
    proof (rule runs_put_bytes [OF 3(3)])
      fix t assume t: "printed s [c] t"
      show "runs (printf_loop (d # fmt) args) t P"
        by (rule 3(1) [OF False uart_ready_printed [OF t 3(3)] 3(4) r(1)]) (use printed_trans [OF t] r(2) 3(6) in fastforce)
    qed
    then show ?thesis using False by simp
  next
    case True
    then obtain a as rest where r: "arg_text d args = Some (a, as)" "format_text fmt as = Some rest" "res = a @ rest"
      using 3(5) by (auto split: option.splits)
    have "runs (printf_arg d args) s (\<lambda>as t. runs (printf_loop fmt as) t P)"
    proof (rule runs_printf_arg [OF 3(3,4) r(1)])
      fix t assume t: "printed s a t"
      show "runs (printf_loop fmt as) t P"
        by (rule 3(2) [OF _ r(1) refl uart_ready_printed [OF t 3(3)] arg_text_ints [OF 3(4) r(1)] r(2)])
           (use True printed_trans [OF t] r(3) 3(6) in simp_all)
    qed
    then show ?thesis using True by simp
  qed
qed

section \<open>The property\<close>

text \<open>C31: \<open>printf\<close> sends exactly the text of the format. For a format whose conversions have arguments of their types,
  with every \<open>int\<close> above the least one, the bytes written to the transmit register are those of
  \<open>format_text\<close> (\<open>%d\<close> and \<open>%x\<close> in the shortest digits of the number, \<open>%p\<close> in sixteen hexadecimal digits,
  \<open>%s\<close> the string or \<open>(null)\<close>, an unknown conversion printed back); nothing else of the kernel
  changes, and the lock of the console is idle again.\<close>

theorem printf_formats:
  assumes "uart_ready s" and "lock_idle (hw s) LkPr" and "ints_ok args" and "format_text fmt args = Some res"
  shows "runs (printf fmt args) s (\<lambda>_ t. printed s res t)"
proof (cases "pr_locking s = 0")
  case True
  then show ?thesis using runs_printf_loop [OF assms(1,3,4), of "\<lambda>_ t. printed s res t"] by (simp add: printf_def)
next
  case False
  let ?a = "s\<lparr>hw := acq LkPr (hw s)\<rparr>"
  have ok: "hart_ok (hw s)" using assms(1) by (simp add: uart_ready_def)
  have a: "uart_ready ?a" using assms(1,2) by (simp add: uart_ready_def)
  have "runs (printf_loop fmt args) ?a (\<lambda>_ t. runs (release LkPr) t (\<lambda>_ u. printed s res u))"
  proof (rule runs_printf_loop [OF a assms(3,4)])
    fix t assume t: "printed ?a res t"
    have h: "hw t = acq LkPr (hw s)" using printedD(3) [OF t] by simp
    have "t\<lparr>hw := hw s, bus_log := bus_log s\<rparr> = (t\<lparr>bus_log := bus_log ?a\<rparr>)\<lparr>hw := hw s\<rparr>" by simp
    also have "\<dots> = s" using t by (simp add: printed_def)
    finally have "printed s res (t\<lparr>hw := hw s\<rparr>)" using t by (simp add: printed_def sent_def)
    then show "runs (release LkPr) t (\<lambda>_ u. printed s res u)"
      using ok assms(2) by (simp add: h)
  qed
  then show ?thesis using False ok assms(2) by (simp add: printf_def)
qed

definition demo_uart :: bus_state where
  "demo_uart = \<lparr>hw = run_hart, mem = demo_mem, sym = boot_symbols, freelist = 0, kernel_pagetable = 0,
     satp = (\<lambda>_. 0), procs = demo_table, nextpid = 3, initproc = Some 0,
     slocks = (\<lambda>_. \<lparr>sk_locked = 0, sk_name = [], sk_pid = 0\<rparr>), bus = (\<lambda>_ _. LSR_TX_IDLE), bus_log = [],
     panicked = 0, pr_locking = 1\<rparr>"

lemma demo_uart_ready: "uart_ready demo_uart" "lock_idle (hw demo_uart) lk"
  by (simp_all add: uart_ready_def demo_uart_def LSR_TX_IDLE_def)

theorem printf_formats_witness:
  "runs (printf (bytes_of ''pid %d: %s%%'') [PInt (- 42), PStr None]) demo_uart
     (\<lambda>_ t. printed demo_uart (bytes_of ''pid -42: (null)%'') t)"
proof (rule printf_formats [OF demo_uart_ready])
  show "ints_ok [PInt (- 42), PStr None]" by (simp add: ints_ok_def)
  show "format_text (bytes_of ''pid %d: %s%%'') [PInt (- 42), PStr None] = Some (bytes_of ''pid -42: (null)%'')"
    by code_simp
qed

end
