(* ===== verification/Xv6_Fs.thy ===== *)
theory Xv6_Fs
  imports Xv6_Log Xv6_Printf
begin

text \<open>
  kernel/fs.c: blocks, inodes, file contents, directories and path names. The inode table is indexed;
  a pointer to an inode is its index, a null pointer \<open>None\<close>. Structures on the disk are read and written
  at their offsets in the data of a buffer: a \<open>struct dinode\<close> has 64 bytes, a \<open>struct dirent\<close> 16. A C string is
  the list of its bytes before the NUL.
\<close>

section \<open>fs.h, stat.h, file.h, param.h\<close>

definition ROOTINO :: u32 where "ROOTINO = 1"
definition FSMAGIC :: u32 where "FSMAGIC = 0x10203040"
definition NDIRECT :: nat where "NDIRECT = 12"
definition NINDIRECT :: nat where "NINDIRECT = BSIZE div 4"
definition MAXFILE :: nat where "MAXFILE = NDIRECT + NINDIRECT"
definition DIRSIZ :: nat where "DIRSIZ = 14"
definition BPB :: nat where "BPB = BSIZE * 8"
definition NINODE :: nat where "NINODE = 50"
definition T_DIR :: u16 where "T_DIR = 1"
definition T_FILE :: u16 where "T_FILE = 2"
definition T_DEVICE :: u16 where "T_DEVICE = 3"

text \<open>\<open>struct dinode\<close>: the offsets of its members.\<close>

definition DI_SIZE :: nat where "DI_SIZE = 64"
definition DI_type :: nat where "DI_type = 0"
definition DI_major :: nat where "DI_major = 2"
definition DI_minor :: nat where "DI_minor = 4"
definition DI_nlink :: nat where "DI_nlink = 6"
definition DI_size :: nat where "DI_size = 8"
definition DI_addrs :: "nat \<Rightarrow> nat" where "DI_addrs i = 12 + 4 * i"

definition IPB :: nat where "IPB = BSIZE div DI_SIZE"

definition IBLOCK :: "u32 \<Rightarrow> superblock \<Rightarrow> u32" where
  "IBLOCK i sb = i div of_nat IPB + sb_inodestart sb"

definition BBLOCK :: "u32 \<Rightarrow> superblock \<Rightarrow> u32" where
  "BBLOCK b sb = b div of_nat BPB + sb_bmapstart sb"

text \<open>\<open>struct inode\<close>; its sleep lock is the entry \<open>LkInode i\<close> of \<open>slocks\<close>.\<close>

record inode =
  i_dev :: u32
  i_inum :: u32
  i_ref :: int
  i_valid :: int
  i_type :: u16
  i_major :: u16
  i_minor :: u16
  i_nlink :: u16
  i_size :: u32
  i_addrs :: "nat \<Rightarrow> u32"

record stat =
  st_dev :: u32
  st_ino :: u32
  st_type :: u16
  st_nlink :: u16
  st_size :: u64

record fs_state = log_state +
  fs_sb :: superblock
  inodes :: "nat \<Rightarrow> inode"

definition set_inode :: "nat \<Rightarrow> (inode \<Rightarrow> inode) \<Rightarrow> (unit, 'z fs_state_scheme) M" where
  "set_inode ip f = modify (\<lambda>s. s\<lparr>inodes := (inodes s)(ip := f (inodes s ip))\<rparr>)"

definition get_inode :: "nat \<Rightarrow> (inode \<Rightarrow> 'a) \<Rightarrow> ('a, 'z fs_state_scheme) M" where
  "get_inode ip f = gets (\<lambda>s. f (inodes s ip))"

definition get_sb :: "(superblock \<Rightarrow> 'a) \<Rightarrow> ('a, 'z fs_state_scheme) M" where
  "get_sb f = gets (\<lambda>s. f (fs_sb s))"

section \<open>Blocks\<close>

definition sb_of :: "u8 list \<Rightarrow> superblock" where
  "sb_of d = \<lparr>sb_magic = get32 0 d, sb_size = get32 4 d, sb_nblocks = get32 8 d, sb_ninodes = get32 12 d,
     sb_nlog = get32 16 d, sb_logstart = get32 20 d, sb_inodestart = get32 24 d, sb_bmapstart = get32 28 d\<rparr>"

definition readsb :: "int \<Rightarrow> (unit, 'z fs_state_scheme) M" where
  "readsb dev =
     kbind (bread (of_int dev) 1) (\<lambda>bp.
     kbind (get_buf bp b_data) (\<lambda>d.
     kthen (modify (\<lambda>s. s\<lparr>fs_sb := sb_of d\<rparr>))
     (brelse bp)))"

definition fsinit :: "int \<Rightarrow> (unit, 'z fs_state_scheme) M" where
  "fsinit dev =
     kthen (readsb dev) (
     kbind (get_sb (\<lambda>sb. sb)) (\<lambda>sb.
     if sb_magic sb \<noteq> FSMAGIC then panic ''invalid file system'' else initlog dev sb))"

definition bzero :: "u32 \<Rightarrow> u32 \<Rightarrow> (unit, 'z fs_state_scheme) M" where
  "bzero dev bno =
     kbind (bread dev bno) (\<lambda>bp.
     kthen (store_data bp (replicate BSIZE 0)) (
     kthen (log_write bp)
     (brelse bp)))"

text \<open>The first clear bit among the first \<open>n\<close> of a bitmap block.\<close>

definition bit_of :: "u8 list \<Rightarrow> nat \<Rightarrow> bool" where
  "bit_of d bi = (d ! (bi div 8) AND push_bit (bi mod 8) 1 \<noteq> 0)"

definition free_bit :: "u8 list \<Rightarrow> nat \<Rightarrow> nat option" where
  "free_bit d n = find (\<lambda>bi. \<not> bit_of d bi) [0..<n]"

definition balloc_body :: "u32 \<Rightarrow> u32 \<Rightarrow> (u32 + u32, 'z fs_state_scheme) M" where
  "balloc_body dev b =
     kbind (get_sb (\<lambda>sb. sb)) (\<lambda>sb.
     if b \<ge> sb_size sb then
       kthen (printf (bytes_of ''balloc: out of blocks'' @ [10]) []) (ret (Inr 0))
     else
       kbind (bread dev (BBLOCK b sb)) (\<lambda>bp.
       kbind (get_buf bp b_data) (\<lambda>d.
       case free_bit d (min BPB (unat (sb_size sb) - unat b)) of
         Some bi \<Rightarrow>
           kthen (store_data bp (d[bi div 8 := d ! (bi div 8) OR push_bit (bi mod 8) 1])) (
           kthen (log_write bp) (
           kthen (brelse bp) (
           kthen (bzero dev (b + of_nat bi))
           (ret (Inr (b + of_nat bi))))))
       | None \<Rightarrow> kthen (brelse bp) (ret (Inl (b + of_nat BPB))))))"

text \<open>There are fewer than \<open>2 ^ 32\<close> blocks, so at most \<open>2 ^ 19\<close> bitmap blocks.\<close>

definition balloc :: "u32 \<Rightarrow> (u32, 'z fs_state_scheme) M" where
  "balloc dev = kloop (2 ^ 19 + 1) (balloc_body dev) 0"

definition bfree :: "u32 \<Rightarrow> u32 \<Rightarrow> (unit, 'z fs_state_scheme) M" where
  "bfree dev b =
     kbind (get_sb (\<lambda>sb. sb)) (\<lambda>sb.
     kbind (bread dev (BBLOCK b sb)) (\<lambda>bp.
     kbind (get_buf bp b_data) (\<lambda>d.
     let bi = unat b mod BPB in
     if \<not> bit_of d bi then panic ''freeing free block'' else
     kthen (store_data bp (d[bi div 8 := d ! (bi div 8) AND NOT (push_bit (bi mod 8) 1)])) (
     kthen (log_write bp)
     (brelse bp)))))"

section \<open>Inodes\<close>

definition iinit :: "(unit, 'z fs_state_scheme) M" where
  "iinit =
     kthen (initlock LkItable ''itable'')
     (kforall [0..<NINODE] (\<lambda>i. initsleeplock (LkInode i) ''inode''))"

text \<open>The scan of the table: the entry for the inode, else the first empty one.\<close>

definition iget_find :: "(nat \<Rightarrow> inode) \<Rightarrow> u32 \<Rightarrow> u32 \<Rightarrow> nat option" where
  "iget_find tab dev inum = find (\<lambda>i. i_ref (tab i) > 0 \<and> i_dev (tab i) = dev \<and> i_inum (tab i) = inum) [0..<NINODE]"

definition iget_empty :: "(nat \<Rightarrow> inode) \<Rightarrow> nat option" where
  "iget_empty tab = find (\<lambda>i. i_ref (tab i) = 0) [0..<NINODE]"

definition iget :: "u32 \<Rightarrow> u32 \<Rightarrow> (nat, 'z fs_state_scheme) M" where
  "iget dev inum =
     kthen (acquire LkItable) (
     kbind (gets inodes) (\<lambda>tab.
     case iget_find tab dev inum of
       Some ip \<Rightarrow>
         kthen (set_inode ip (\<lambda>i. i\<lparr>i_ref := i_ref i + 1\<rparr>)) (
         kthen (release LkItable)
         (ret ip))
     | None \<Rightarrow>
         (case iget_empty tab of
           None \<Rightarrow> panic ''iget: no inodes''
         | Some ip \<Rightarrow>
             kthen (set_inode ip (\<lambda>i. i\<lparr>i_dev := dev, i_inum := inum, i_ref := 1, i_valid := 0\<rparr>)) (
             kthen (release LkItable)
             (ret ip)))))"

definition ialloc :: "u32 \<Rightarrow> u16 \<Rightarrow> (nat option, 'z fs_state_scheme) M" where
  "ialloc dev type =
     kbind (get_sb (\<lambda>sb. sb)) (\<lambda>sb.
     kbind (kfor [1..<unat (sb_ninodes sb)] (\<lambda>inum.
       kbind (bread dev (IBLOCK (of_nat inum) sb)) (\<lambda>bp.
       kbind (get_buf bp b_data) (\<lambda>d.
       let off = DI_SIZE * (inum mod IPB) in
       if get16 (off + DI_type) d = 0 then
         kthen (store_data bp (put16 (off + DI_type) type (splice off (replicate DI_SIZE 0) d))) (
         kthen (log_write bp) (
         kthen (brelse bp) (
         kbind (iget dev (of_nat inum)) (\<lambda>ip.
         ret (Some ip)))))
       else kthen (brelse bp) (ret None)))))
     (\<lambda>r. case r of
       Some ip \<Rightarrow> ret (Some ip)
     | None \<Rightarrow> kthen (printf (bytes_of ''ialloc: no inodes'' @ [10]) []) (ret None)))"

text \<open>The assignments to \<open>dip\<close> in \<open>iupdate\<close> and those from \<open>dip\<close> in \<open>ilock\<close>.\<close>

definition put_dinode :: "nat \<Rightarrow> inode \<Rightarrow> u8 list \<Rightarrow> u8 list" where
  "put_dinode off i d =
     splice (off + DI_addrs 0) (concat (map (\<lambda>k. le_bytes 4 (i_addrs i k)) [0..<NDIRECT + 1]))
       (put32 (off + DI_size) (i_size i) (put16 (off + DI_nlink) (i_nlink i) (put16 (off + DI_minor) (i_minor i)
         (put16 (off + DI_major) (i_major i) (put16 (off + DI_type) (i_type i) d)))))"

definition get_dinode :: "nat \<Rightarrow> u8 list \<Rightarrow> inode \<Rightarrow> inode" where
  "get_dinode off d i = i\<lparr>i_type := get16 (off + DI_type) d, i_major := get16 (off + DI_major) d,
     i_minor := get16 (off + DI_minor) d, i_nlink := get16 (off + DI_nlink) d, i_size := get32 (off + DI_size) d,
     i_addrs := (\<lambda>k. if k \<le> NDIRECT then get32 (off + DI_addrs k) d else i_addrs i k)\<rparr>"

definition iupdate :: "nat \<Rightarrow> (unit, 'z fs_state_scheme) M" where
  "iupdate ip =
     kbind (get_inode ip (\<lambda>i. i)) (\<lambda>i.
     kbind (get_sb (\<lambda>sb. sb)) (\<lambda>sb.
     kbind (bread (i_dev i) (IBLOCK (i_inum i) sb)) (\<lambda>bp.
     kbind (get_buf bp b_data) (\<lambda>d.
     kthen (store_data bp (put_dinode (DI_SIZE * (unat (i_inum i) mod IPB)) i d)) (
     kthen (log_write bp)
     (brelse bp))))))"

definition idup :: "nat \<Rightarrow> (nat, 'z fs_state_scheme) M" where
  "idup ip =
     kthen (acquire LkItable) (
     kthen (set_inode ip (\<lambda>i. i\<lparr>i_ref := i_ref i + 1\<rparr>)) (
     kthen (release LkItable)
     (ret ip)))"

definition ilock :: "nat \<Rightarrow> (unit, 'z fs_state_scheme) M" where
  "ilock ip =
     kbind (get_inode ip i_ref) (\<lambda>r.
     if r < 1 then panic ''ilock'' else
     kthen (acquiresleep (LkInode ip)) (
     kbind (get_inode ip (\<lambda>i. i)) (\<lambda>i.
     kwhen (i_valid i = 0) (
       kbind (get_sb (\<lambda>sb. sb)) (\<lambda>sb.
       kbind (bread (i_dev i) (IBLOCK (i_inum i) sb)) (\<lambda>bp.
       kbind (get_buf bp b_data) (\<lambda>d.
       kthen (set_inode ip (get_dinode (DI_SIZE * (unat (i_inum i) mod IPB)) d)) (
       kthen (brelse bp) (
       kthen (set_inode ip (\<lambda>i. i\<lparr>i_valid := 1\<rparr>)) (
       kbind (get_inode ip i_type) (\<lambda>ty.
       kwhen (ty = 0) (panic ''ilock: no type''))))))))))))"

definition iunlock :: "nat \<Rightarrow> (unit, 'z fs_state_scheme) M" where
  "iunlock ip =
     kbind (holdingsleep (LkInode ip)) (\<lambda>h.
     kbind (get_inode ip i_ref) (\<lambda>r.
     if \<not> h \<or> r < 1 then panic ''iunlock'' else releasesleep (LkInode ip)))"

section \<open>Inode content\<close>

definition balloc_direct :: "nat \<Rightarrow> nat \<Rightarrow> (u32, 'z fs_state_scheme) M" where
  "balloc_direct ip k =
     kbind (get_inode ip (\<lambda>i. i)) (\<lambda>i.
     if i_addrs i k \<noteq> 0 then ret (i_addrs i k) else
     kbind (balloc (i_dev i)) (\<lambda>addr.
     if addr = 0 then ret 0 else
     kthen (set_inode ip (\<lambda>i. i\<lparr>i_addrs := (i_addrs i)(k := addr)\<rparr>))
     (ret addr)))"

definition bmap :: "nat \<Rightarrow> u32 \<Rightarrow> (u32, 'z fs_state_scheme) M" where
  "bmap ip bn =
     (if unat bn < NDIRECT then balloc_direct ip (unat bn)
      else
        let bn = unat (bn - of_nat NDIRECT) in
        if bn < NINDIRECT then
          kbind (balloc_direct ip NDIRECT) (\<lambda>addr.
          if addr = 0 then ret 0 else
          kbind (get_inode ip i_dev) (\<lambda>dev.
          kbind (bread dev addr) (\<lambda>bp.
          kbind (get_buf bp b_data) (\<lambda>a.
          kbind (if get32 (4 * bn) a \<noteq> 0 then ret (get32 (4 * bn) a) else
            kbind (balloc dev) (\<lambda>addr.
            kthen (kwhen (addr \<noteq> 0) (
              kbind (get_buf bp b_data) (\<lambda>a.
              kthen (store_data bp (put32 (4 * bn) addr a))
              (log_write bp))))
            (ret addr))) (\<lambda>addr.
          kthen (brelse bp)
          (ret addr))))))
        else panic ''bmap: out of range'')"

definition itrunc :: "nat \<Rightarrow> (unit, 'z fs_state_scheme) M" where
  "itrunc ip =
     kthen (kforall [0..<NDIRECT] (\<lambda>k.
       kbind (get_inode ip (\<lambda>i. i)) (\<lambda>i.
       kwhen (i_addrs i k \<noteq> 0) (
         kthen (bfree (i_dev i) (i_addrs i k))
         (set_inode ip (\<lambda>i. i\<lparr>i_addrs := (i_addrs i)(k := 0)\<rparr>)))))) (
     kthen (
       kbind (get_inode ip (\<lambda>i. i)) (\<lambda>i.
       kwhen (i_addrs i NDIRECT \<noteq> 0) (
         kbind (bread (i_dev i) (i_addrs i NDIRECT)) (\<lambda>bp.
         kthen (kforall [0..<NINDIRECT] (\<lambda>j.
           kbind (get_buf bp b_data) (\<lambda>a.
           kwhen (get32 (4 * j) a \<noteq> 0) (bfree (i_dev i) (get32 (4 * j) a))))) (
         kthen (brelse bp) (
         kthen (bfree (i_dev i) (i_addrs i NDIRECT))
         (set_inode ip (\<lambda>i. i\<lparr>i_addrs := (i_addrs i)(NDIRECT := 0)\<rparr>)))))))) (
     kthen (set_inode ip (\<lambda>i. i\<lparr>i_size := 0\<rparr>))
     (iupdate ip)))"

definition iput :: "nat \<Rightarrow> (unit, 'z fs_state_scheme) M" where
  "iput ip =
     kthen (acquire LkItable) (
     kbind (get_inode ip (\<lambda>i. i)) (\<lambda>i.
     kthen (kwhen (i_ref i = 1 \<and> i_valid i \<noteq> 0 \<and> i_nlink i = 0) (
       kthen (acquiresleep (LkInode ip)) (
       kthen (release LkItable) (
       kthen (itrunc ip) (
       kthen (set_inode ip (\<lambda>i. i\<lparr>i_type := 0\<rparr>)) (
       kthen (iupdate ip) (
       kthen (set_inode ip (\<lambda>i. i\<lparr>i_valid := 0\<rparr>)) (
       kthen (releasesleep (LkInode ip))
       (acquire LkItable))))))))) (
     kthen (set_inode ip (\<lambda>i. i\<lparr>i_ref := i_ref i - 1\<rparr>))
     (release LkItable))))"

definition iunlockput :: "nat \<Rightarrow> (unit, 'z fs_state_scheme) M" where
  "iunlockput ip = kthen (iunlock ip) (iput ip)"

definition stati :: "nat \<Rightarrow> (stat, 'z fs_state_scheme) M" where
  "stati ip = get_inode ip (\<lambda>i. \<lparr>st_dev = i_dev i, st_ino = i_inum i, st_type = i_type i, st_nlink = i_nlink i,
     st_size = ucast (i_size i)\<rparr>)"

text \<open>
  The pointers \<open>dst\<close> and \<open>src\<close> advance with the bytes copied. \<open>readi\<close> also gives the bytes it copied, for
  the callers that read into an object of their own.
\<close>

definition dst_add :: "copy_dst \<Rightarrow> u32 \<Rightarrow> copy_dst" where
  "dst_add dst m = (case dst of UserDst va \<Rightarrow> UserDst (va + ucast m) | MemDst a \<Rightarrow> MemDst (a + ucast m) | ObjDst \<Rightarrow> ObjDst)"

definition src_add :: "copy_src \<Rightarrow> u32 \<Rightarrow> copy_src" where
  "src_add src m =
     (case src of UserSrc va \<Rightarrow> UserSrc (va + ucast m) | MemSrc a \<Rightarrow> MemSrc (a + ucast m) | ObjSrc bs \<Rightarrow> ObjSrc (drop (unat m) bs))"

definition io_chunk :: "u32 \<Rightarrow> u32 \<Rightarrow> u32 \<Rightarrow> u32" where
  "io_chunk n tot off = min (n - tot) (of_nat BSIZE - off mod of_nat BSIZE)"

definition readi_body ::
  "nat \<Rightarrow> u32 \<Rightarrow> u32 \<times> u32 \<times> copy_dst \<times> u8 list \<Rightarrow> ((u32 \<times> u32 \<times> copy_dst \<times> u8 list) + (u32 \<times> u8 list), 'z fs_state_scheme) M"
where
  "readi_body ip n = (\<lambda>(tot, off, dst, acc).
     if \<not> tot < n then ret (Inr (tot, acc)) else
     kbind (bmap ip (off div of_nat BSIZE)) (\<lambda>addr.
     if addr = 0 then ret (Inr (tot, acc)) else
     kbind (get_inode ip i_dev) (\<lambda>dev.
     kbind (bread dev addr) (\<lambda>bp.
     kbind (get_buf bp b_data) (\<lambda>d.
     let m = io_chunk n tot off; bs = slice (unat (off mod of_nat BSIZE)) (unat m) d in
     kbind (either_copyout dst bs) (\<lambda>r.
     if r = -1 then kthen (brelse bp) (ret (Inr (-1, acc))) else
     kthen (brelse bp)
     (ret (Inl (tot + m, off + m, dst_add dst m, acc @ bs)))))))))"

definition readi :: "nat \<Rightarrow> copy_dst \<Rightarrow> u32 \<Rightarrow> u32 \<Rightarrow> (int \<times> u8 list, 'z fs_state_scheme) M" where
  "readi ip dst off n =
     kbind (get_inode ip i_size) (\<lambda>size.
     if off > size \<or> off + n < off then ret (0, [])
     else
       let n = (if off + n > size then size - off else n) in
       kbind (kloop (unat n + 1) (readi_body ip n) (0, off, dst, [])) (\<lambda>(tot, bs).
       ret (sint tot, bs)))"

definition writei_body ::
  "nat \<Rightarrow> u32 \<Rightarrow> u32 \<times> u32 \<times> copy_src \<Rightarrow> ((u32 \<times> u32 \<times> copy_src) + (u32 \<times> u32), 'z fs_state_scheme) M"
where
  "writei_body ip n = (\<lambda>(tot, off, src).
     if \<not> tot < n then ret (Inr (tot, off)) else
     kbind (bmap ip (off div of_nat BSIZE)) (\<lambda>addr.
     if addr = 0 then ret (Inr (tot, off)) else
     kbind (get_inode ip i_dev) (\<lambda>dev.
     kbind (bread dev addr) (\<lambda>bp.
     let m = io_chunk n tot off in
     kbind (either_copyin src (unat m)) (\<lambda>(r, bs).
     kbind (get_buf bp b_data) (\<lambda>d.
     kthen (store_data bp (splice (unat (off mod of_nat BSIZE)) bs d)) (
     if r = -1 then kthen (brelse bp) (ret (Inr (tot, off))) else
     kthen (log_write bp) (
     kthen (brelse bp)
     (ret (Inl (tot + m, off + m, src_add src m)))))))))))"

definition writei :: "nat \<Rightarrow> copy_src \<Rightarrow> u32 \<Rightarrow> u32 \<Rightarrow> (int, 'z fs_state_scheme) M" where
  "writei ip src off n =
     kbind (get_inode ip i_size) (\<lambda>size.
     if off > size \<or> off + n < off then ret (-1)
     else if unat (off + n) > MAXFILE * BSIZE then ret (-1)
     else
       kbind (kloop (unat n + 1) (writei_body ip n) (0, off, src)) (\<lambda>(tot, off).
       kbind (get_inode ip i_size) (\<lambda>size.
       kthen (kwhen (off > size) (set_inode ip (\<lambda>i. i\<lparr>i_size := off\<rparr>))) (
       kthen (iupdate ip)
       (ret (sint tot))))))"

section \<open>Directories\<close>

definition DE_SIZE :: u32 where "DE_SIZE = 16"

definition namecmp :: "(nat \<Rightarrow> u8) \<Rightarrow> (nat \<Rightarrow> u8) \<Rightarrow> int" where
  "namecmp s t = strncmp s t (of_nat DIRSIZ)"

definition de_inum :: "u8 list \<Rightarrow> u16" where "de_inum de = get16 0 de"
definition de_name :: "u8 list \<Rightarrow> nat \<Rightarrow> u8" where "de_name de = (\<lambda>i. de ! (2 + i))"

definition dirlookup_body :: "nat \<Rightarrow> (nat \<Rightarrow> u8) \<Rightarrow> u32 \<Rightarrow> (u32 + (nat \<times> u32) option, 'z fs_state_scheme) M" where
  "dirlookup_body dp name off =
     kbind (get_inode dp i_size) (\<lambda>size.
     if \<not> off < size then ret (Inr None) else
     kbind (readi dp ObjDst off DE_SIZE) (\<lambda>(r, de).
     if r \<noteq> uint DE_SIZE then panic ''dirlookup read''
     else if de_inum de = 0 then ret (Inl (off + DE_SIZE))
     else if namecmp name (de_name de) = 0 then
       kbind (get_inode dp i_dev) (\<lambda>dev.
       kbind (iget dev (ucast (de_inum de))) (\<lambda>ip.
       ret (Inr (Some (ip, off)))))
     else ret (Inl (off + DE_SIZE))))"

text \<open>The inode found, and the offset for \<open>poff\<close>.\<close>

definition dirlookup :: "nat \<Rightarrow> (nat \<Rightarrow> u8) \<Rightarrow> ((nat \<times> u32) option, 'z fs_state_scheme) M" where
  "dirlookup dp name =
     kbind (get_inode dp (\<lambda>i. i)) (\<lambda>i.
     if i_type i \<noteq> T_DIR then panic ''dirlookup not DIR''
     else kloop (unat (i_size i) div 16 + 2) (dirlookup_body dp name) 0)"

definition dirlink_body :: "nat \<Rightarrow> u32 \<Rightarrow> (u32 + u32, 'z fs_state_scheme) M" where
  "dirlink_body dp off =
     kbind (get_inode dp i_size) (\<lambda>size.
     if \<not> off < size then ret (Inr off) else
     kbind (readi dp ObjDst off DE_SIZE) (\<lambda>(r, de).
     if r \<noteq> uint DE_SIZE then panic ''dirlink read''
     else if de_inum de = 0 then ret (Inr off)
     else ret (Inl (off + DE_SIZE))))"

definition dirlink :: "nat \<Rightarrow> (nat \<Rightarrow> u8) \<Rightarrow> u32 \<Rightarrow> (int, 'z fs_state_scheme) M" where
  "dirlink dp name inum =
     kbind (dirlookup dp name) (\<lambda>r.
     case r of
       Some (ip, _) \<Rightarrow> kthen (iput ip) (ret (-1))
     | None \<Rightarrow>
         kbind (get_inode dp i_size) (\<lambda>size.
         kbind (kloop (unat size div 16 + 2) (dirlink_body dp) 0) (\<lambda>off.
         let de = le_bytes 2 (ucast inum :: u16) @ map (strncpy (\<lambda>_. 0) name (of_nat DIRSIZ)) [0..<DIRSIZ] in
         kbind (writei dp (ObjSrc de) off DE_SIZE) (\<lambda>r.
         ret (if r \<noteq> uint DE_SIZE then -1 else 0)))))"

section \<open>Paths\<close>

definition SLASH :: u8 where "SLASH = 47"

definition skip_slashes :: "u8 list \<Rightarrow> u8 list" where
  "skip_slashes = dropWhile (\<lambda>c. c = SLASH)"

text \<open>\<open>name\<close> is the caller's array: the bytes after the terminating NUL stay.\<close>

definition skipelem :: "u8 list \<Rightarrow> (nat \<Rightarrow> u8) \<Rightarrow> (u8 list \<times> (nat \<Rightarrow> u8)) option" where
  "skipelem pth name =
     (let s = skip_slashes pth in
      if s = [] then None else
      let elem = takeWhile (\<lambda>c. c \<noteq> SLASH) s; pth = dropWhile (\<lambda>c. c \<noteq> SLASH) s; len = length elem in
      Some (skip_slashes pth,
        if len \<ge> DIRSIZ then (\<lambda>i. if i < DIRSIZ then elem ! i else name i)
        else (\<lambda>i. if i < len then elem ! i else if i = len then 0 else name i)))"

definition namex_body ::
  "bool \<Rightarrow> u8 list \<times> (nat \<Rightarrow> u8) \<times> nat \<Rightarrow>
   ((u8 list \<times> (nat \<Rightarrow> u8) \<times> nat) + (nat option \<times> (nat \<Rightarrow> u8)), 'z fs_state_scheme) M"
where
  "namex_body nameiparent = (\<lambda>(pth, name, ip).
     case skipelem pth name of
       None \<Rightarrow>
         if nameiparent then kthen (iput ip) (ret (Inr (None, name)))
         else ret (Inr (Some ip, name))
     | Some (pth, name) \<Rightarrow>
         kthen (ilock ip) (
         kbind (get_inode ip i_type) (\<lambda>ty.
         if ty \<noteq> T_DIR then kthen (iunlockput ip) (ret (Inr (None, name)))
         else if nameiparent \<and> pth = [] then kthen (iunlock ip) (ret (Inr (Some ip, name)))
         else
           kbind (dirlookup ip name) (\<lambda>next.
           case next of
             None \<Rightarrow> kthen (iunlockput ip) (ret (Inr (None, name)))
           | Some (next, _) \<Rightarrow> kthen (iunlockput ip) (ret (Inl (pth, name, next)))))))"

definition namex :: "u8 list \<Rightarrow> bool \<Rightarrow> (nat \<Rightarrow> u8) \<Rightarrow> (nat option \<times> (nat \<Rightarrow> u8), 'z fs_state_scheme) M" where
  "namex pth nameiparent name =
     kbind (if pth \<noteq> [] \<and> hd pth = SLASH then iget ROOTDEV ROOTINO
       else
         kbind curproc (\<lambda>p.
         kbind (get_proc p) (\<lambda>q.
         case p_cwd q of None \<Rightarrow> fault ''null cwd'' | Some ip \<Rightarrow> idup ip))) (\<lambda>ip.
     kloop (length pth + 1) (namex_body nameiparent) (pth, name, ip))"

definition namei :: "u8 list \<Rightarrow> (nat option, 'z fs_state_scheme) M" where
  "namei pth = kbind (namex pth False (\<lambda>_. 0)) (\<lambda>(ip, _). ret ip)"

definition nameiparent :: "u8 list \<Rightarrow> (nat option \<times> (nat \<Rightarrow> u8), 'z fs_state_scheme) M" where
  "nameiparent pth = namex pth True (\<lambda>_. 0)"

section \<open>The contents of a file\<close>

text \<open>The block that holds the \<open>k\<close>-th block of a file, through the indirect block from \<open>NDIRECT\<close> on, and the bytes
  of the file, given the contents \<open>V\<close> of all blocks.\<close>

definition addr_of :: "inode \<Rightarrow> (u32 \<Rightarrow> u8 list) \<Rightarrow> nat \<Rightarrow> u32" where
  "addr_of i V k = (if k < NDIRECT then i_addrs i k else get32 (4 * (k - NDIRECT)) (V (i_addrs i NDIRECT)))"

definition file_blocks :: "inode \<Rightarrow> nat" where
  "file_blocks i = (unat (i_size i) + (BSIZE - 1)) div BSIZE"

definition contents :: "inode \<Rightarrow> (u32 \<Rightarrow> u8 list) \<Rightarrow> u8 list" where
  "contents i V = take (unat (i_size i)) (concat (map (\<lambda>k. V (addr_of i V k)) [0..<file_blocks i]))"

text \<open>The file has no holes, and its blocks can be read.\<close>

definition file_mapped :: "inode \<Rightarrow> cabs \<Rightarrow> bool" where
  "file_mapped i A \<longleftrightarrow> i_dev i = ROOTDEV \<and> file_blocks i \<le> MAXFILE \<and>
     (\<forall>k < file_blocks i. addr_of i (cv A) k \<noteq> 0 \<and> can_read A (addr_of i (cv A) k)) \<and>
     (NDIRECT < file_blocks i \<longrightarrow> i_addrs i NDIRECT \<noteq> 0 \<and> can_read A (i_addrs i NDIRECT))"

text \<open>Nothing is held.\<close>

definition none_held :: "cabs \<Rightarrow> bool" where
  "none_held A \<longleftrightarrow> ch A = (\<lambda>_. None)"

lemma none_held_cabs_of [simp]: "none_held (cabs_of s)"
  by (simp add: none_held_def cabs_of_def)

lemma runs_get_inode [simp]: "runs (get_inode ip f) s P = P (f (inodes s ip)) s"
  by (simp add: get_inode_def)

lemma cached_inodes: "cached p s A t \<Longrightarrow> inodes t = inodes s"
proof -
  assume "cached p s A t"
  then have "disk_state.more t = disk_state.more s" by (rule cachedD)
  then have "log_state.more t = log_state.more s" by (cases s; cases t) simp
  then show ?thesis by (cases s; cases t) simp
qed

lemma cached_len: "cached p s A t \<Longrightarrow> bn < 2 ^ 31 \<Longrightarrow> length (cv A bn) = BSIZE"
proof -
  assume a: "cached p s A t" "bn < 2 ^ 31"
  then obtain l where l: "bcache_ok t l" by (auto simp: cached_def elim: bc_readyE)
  have d: "length (disk t bn) = BSIZE" using a(2) bcache_okD(3) [OF l] by (simp add: disk_def disk_of_def blk_def BSIZE_def)
  have "length (view t bn) = BSIZE"
    using d bcache_okD(2) [OF l] buf_of_Some [OF l, of bn] by (auto simp: view_def buf_ok_def Let_def split: option.split)
  then show ?thesis using a(1) by (simp add: cached_def)
qed

lemma cached_clean: "cached p s A t \<Longrightarrow> cr A bn = 0 \<Longrightarrow> cv A bn = cd A bn"
  using clean_block [of t _ bn] by (auto simp: cached_def elim!: bc_readyE)

text \<open>A block that is read and released leaves the cache as it was.\<close>

lemma runs_put_back:
  assumes "cached p s A t" "can_read A bn" "none_held A" "cached p s (a_get bn b (p_pid (procs s p)) A) u"
    and P: "\<And>v. cached p s A v \<Longrightarrow> P () v"
  shows "runs (brelse b) u P"
proof (rule runs_a_put [OF assms(4), where bn = bn])
  fix v assume v: "cached p s (a_put bn (a_get bn b (p_pid (procs s p)) A)) v"
  have "cl A bn = None" "ch A bn = None" using assms(2,3) by (simp_all add: can_read_def none_held_def)
  then have "cached p s A v" by (intro cached_cong [OF v]) (auto simp: fun_eq_iff)
  then show "P () v" by (rule P)
qed (use cached_clean [OF assms(1), of bn] in auto)

lemma take_drop_concat:
  assumes "\<And>x. x \<in> set xs \<Longrightarrow> length x = B" "k < length xs" "i + m \<le> B"
  shows "take m (drop (k * B + i) (concat xs)) = take m (drop i (xs ! k))"
  using assms
proof (induction xs arbitrary: k)
  case (Cons x xs)
  then show ?case by (cases k) (simp_all add: add.assoc)
qed simp

lemma runs_direct_mapped:
  "i_addrs (inodes t ip) k \<noteq> 0 \<Longrightarrow> runs (balloc_direct ip k) t P = P (i_addrs (inodes t ip) k) t"
  by (simp add: balloc_direct_def)

lemma runs_bmap_mapped:
  assumes c: "cached p s A t" and m: "file_mapped (inodes s ip) A" "none_held A" and k: "k < file_blocks (inodes s ip)"
    and P: "\<And>u. cached p s A u \<Longrightarrow> P (addr_of (inodes s ip) (cv A) k) u"
  shows "runs (bmap ip (of_nat k)) t P"
proof -
  let ?i = "inodes s ip"
  have t: "inodes t = inodes s" by (rule cached_inodes [OF c])
  have k': "k < MAXFILE" using k m(1) by (simp add: file_mapped_def)
  then have u: "unat (of_nat k :: u32) = k" by (simp add: unsigned_of_nat take_bit_nat_eq_self MAXFILE_def NDIRECT_def NINDIRECT_def BSIZE_def)
  have a: "addr_of ?i (cv A) k \<noteq> 0" using k m(1) by (simp add: file_mapped_def)
  show ?thesis
  proof (cases "k < NDIRECT")
    case True
    then show ?thesis using P [OF c] a by (simp add: bmap_def u addr_of_def runs_direct_mapped t)
  next
    case False
    let ?x = "i_addrs ?i NDIRECT"
    have x: "?x \<noteq> 0" "can_read A ?x" "i_dev ?i = ROOTDEV" using m(1) k False by (auto simp: file_mapped_def)
    have w: "unat (of_nat k - of_nat NDIRECT :: u32) = k - NDIRECT"
      using False u by (subst unat_sub) (auto simp: word_le_nat_alt NDIRECT_def)
    have lt: "k - NDIRECT < NINDIRECT" using k' False by (simp add: MAXFILE_def)
    have e: "get32 (4 * (k - NDIRECT)) (cv A ?x) = addr_of ?i (cv A) k" using False by (simp add: addr_of_def)
    have "runs (bread ROOTDEV ?x) t (\<lambda>b u. runs (get_buf b b_data) u (\<lambda>d v. d = cv A ?x \<and> v = u) \<and>
      runs (brelse b) u (\<lambda>_ v. P (addr_of ?i (cv A) k) v))"
    proof (rule runs_a_get [OF c x(2)])
      fix b u assume u: "cached p s (a_get ?x b (p_pid (procs s p)) A) u"
      have "runs (get_buf b b_data) u (\<lambda>d v. d = cv A ?x \<and> v = u)" by (rule runs_a_data [OF u, where bn = ?x]) simp_all
      moreover have "runs (brelse b) u (\<lambda>_ v. P (addr_of ?i (cv A) k) v)" by (rule runs_put_back [OF c x(2) m(2) u]) (rule P)
      ultimately show "runs (get_buf b b_data) u (\<lambda>d v. d = cv A ?x \<and> v = u) \<and> runs (brelse b) u (\<lambda>_ v. P (addr_of ?i (cv A) k) v)" ..
    qed
    then show ?thesis using False lt x a
      by (simp add: bmap_def u w runs_direct_mapped t e Let_def) (erule runs_mono, simp add: e)
  qed
qed

lemma length_contents:
  assumes "cached p s A t" "file_mapped i A"
  shows "length (contents i (cv A)) = unat (i_size i)"
    "k < file_blocks i \<Longrightarrow> j + m \<le> BSIZE \<Longrightarrow> k * BSIZE + j + m \<le> unat (i_size i) \<Longrightarrow>
      slice (k * BSIZE + j) m (contents i (cv A)) = slice j m (cv A (addr_of i (cv A) k))"
proof -
  let ?bs = "map (\<lambda>k. cv A (addr_of i (cv A) k)) [0..<file_blocks i]"
  have l: "length x = BSIZE" if "x \<in> set ?bs" for x
    using that assms(2) cached_len [OF assms(1)] by (auto simp: file_mapped_def can_read_def)
  have "length (concat ?bs) = sum_list (map (\<lambda>_. BSIZE) ?bs)"
    unfolding length_concat by (rule arg_cong [of _ _ sum_list], rule map_cong [OF refl l])
  also have "\<dots> = file_blocks i * BSIZE" by (simp add: comp_def sum_list_triv)
  finally have "unat (i_size i) \<le> length (concat ?bs)" by (simp add: file_blocks_def BSIZE_def)
  then show "length (contents i (cv A)) = unat (i_size i)" by (simp add: contents_def)
  assume a: "k < file_blocks i" "j + m \<le> BSIZE" "k * BSIZE + j + m \<le> unat (i_size i)"
  have "slice (k * BSIZE + j) m (contents i (cv A)) = take m (drop (k * BSIZE + j) (concat ?bs))"
    using a(3) by (simp add: slice_def contents_def drop_take min_def)
  also have "\<dots> = slice j m (?bs ! k)" unfolding slice_def by (rule take_drop_concat [OF l]) (use a in simp_all)
  finally show "slice (k * BSIZE + j) m (contents i (cv A)) = slice j m (cv A (addr_of i (cv A) k))" using a(1) by simp
qed

lemma sint_small: "unat (x :: u32) < 2 ^ 31 \<Longrightarrow> sint x = int (unat x)"
proof -
  assume x: "unat x < 2 ^ 31"
  have "uint x = int (unat x)" by simp
  moreover have "int (unat x) < 2 ^ 31" using x by (metis of_nat_less_iff of_nat_numeral of_nat_power)
  ultimately have "0 \<le> uint x" "uint x < 2 ^ 31" by (simp_all only: of_nat_0_le_iff)
  from block_word(3) [OF this] have "sint x = uint x" by (simp only: of_int_uint ucast_id)
  then show ?thesis by simp
qed

lemma unat_of_nat_u32: "k < 2 ^ 32 \<Longrightarrow> unat (of_nat k :: u32) = k"
  by (simp add: unsigned_of_nat take_bit_nat_eq_self)

lemma slice_add: "slice o1 (a + b) d = slice o1 a d @ slice (o1 + a) b d"
  by (simp add: slice_def take_add add.commute)

lemma unat_io:
  fixes n tot off :: u32
  assumes "tot \<le> n"
  shows "unat (io_chunk n tot off) = min (unat n - unat tot) (BSIZE - unat off mod BSIZE)"
    "off div of_nat BSIZE = of_nat (unat off div BSIZE)" "unat (off mod of_nat BSIZE) = unat off mod BSIZE"
proof -
  show m: "unat (off mod of_nat BSIZE) = unat off mod BSIZE" by (simp add: unat_mod BSIZE_def)
  show "off div of_nat BSIZE = of_nat (unat off div BSIZE)"
    using unat_u32 [of off] by (simp add: word_unat_eq_iff unat_div BSIZE_def unsigned_of_nat take_bit_nat_eq_self)
  have "off mod of_nat BSIZE \<le> of_nat BSIZE" using m by (simp add: word_le_nat_alt BSIZE_def)
  then have "unat (of_nat BSIZE - off mod of_nat BSIZE) = BSIZE - unat off mod BSIZE"
    using m by (subst unat_sub) (simp_all add: BSIZE_def)
  moreover have "unat (n - tot) = unat n - unat tot" using assms by (rule unat_sub)
  ultimately show "unat (io_chunk n tot off) = min (unat n - unat tot) (BSIZE - unat off mod BSIZE)"
    by (simp add: io_chunk_def min_def word_le_nat_alt)
qed

text \<open>One turn of the loop of \<open>readi\<close>, into a kernel object.\<close>

lemma runs_readi_body:
  fixes n tot off :: u32
  assumes c: "cached p s A t" and m: "file_mapped (inodes s ip) A" "none_held A"
    and lt: "tot < n" "unat off + (unat n - unat tot) \<le> unat (i_size (inodes s ip))"
    and P: "\<And>u. cached p s A u \<Longrightarrow> P (Inl (tot + io_chunk n tot off, off + io_chunk n tot off, ObjDst,
      acc @ slice (unat off) (unat (io_chunk n tot off)) (contents (inodes s ip) (cv A)))) u"
  shows "runs (readi_body ip n (tot, off, ObjDst, acc)) t P"
proof -
  let ?i = "inodes s ip" and ?m = "io_chunk n tot off" and ?k = "unat off div BSIZE" and ?j = "unat off mod BSIZE"
  note w = unat_io [of tot n off]
  let ?a = "addr_of ?i (cv A) ?k"
  have lt': "unat tot < unat n" using lt(1) by (simp add: word_less_nat_alt)
  then have "unat off < unat (i_size ?i)" using lt(2) by linarith
  then have k: "?k < file_blocks ?i" by (simp add: file_blocks_def BSIZE_def)
  have um: "unat ?m \<le> unat n - unat tot" "?j + unat ?m \<le> BSIZE" using w(1) lt(1) by (simp_all add: BSIZE_def)
  have sl: "slice (unat (off mod of_nat BSIZE)) (unat ?m) (cv A ?a) = slice (unat off) (unat ?m) (contents ?i (cv A))"
    using length_contents(2) [OF c m(1) k um(2)] um(1) lt(2) w(3) lt(1) by simp
  have a: "?a \<noteq> 0" "can_read A ?a" "i_dev ?i = ROOTDEV" using m(1) k by (auto simp: file_mapped_def)
  have tail: "runs (readi_body ip n (tot, off, ObjDst, acc)) t P = runs (bmap ip (of_nat ?k)) t (\<lambda>addr u.
      runs (if addr = 0 then ret (Inr (tot, acc)) else
     kbind (get_inode ip i_dev) (\<lambda>dev. kbind (bread dev addr) (\<lambda>bp. kbind (get_buf bp b_data) (\<lambda>d.
     let bs = slice (unat (off mod of_nat BSIZE)) (unat ?m) d in
     kbind (either_copyout ObjDst bs) (\<lambda>r.
     if r = -1 then kthen (brelse bp) (ret (Inr (-1, acc))) else
     kthen (brelse bp) (ret (Inl (tot + ?m, off + ?m, dst_add ObjDst ?m, acc @ bs)))))))) u P)"
    unfolding readi_body_def using lt(1) w(2) by (simp add: Let_def)
  show ?thesis unfolding tail
  proof (rule runs_bmap_mapped [OF c m k])
    fix u assume u: "cached p s A u"
    have "runs (bread ROOTDEV ?a) u (\<lambda>bp v. runs (kbind (get_buf bp b_data) (\<lambda>d.
     let bs = slice (unat (off mod of_nat BSIZE)) (unat ?m) d in
     kbind (either_copyout ObjDst bs) (\<lambda>r.
     if r = -1 then kthen (brelse bp) (ret (Inr (-1, acc))) else
     kthen (brelse bp) (ret (Inl (tot + ?m, off + ?m, dst_add ObjDst ?m, acc @ bs)))))) v P)"
    proof (rule runs_a_get [OF u a(2)])
      fix b v assume v: "cached p s (a_get ?a b (p_pid (procs s p)) A) v"
      have "b_data (bufs v b) = cv A ?a" using cached_data [OF v, of ?a b] by simp
      moreover have "hart_ok (hw v)" using ctx_hart(1) [OF cachedD(3) [OF v]] .
      moreover have "runs (brelse b) v (\<lambda>_. P (Inl (tot + ?m, off + ?m, ObjDst, acc @ slice (unat off) (unat ?m) (contents ?i (cv A)))))"
        by (rule runs_put_back [OF u a(2) m(2) v]) (rule P)
      ultimately show "runs (kbind (get_buf b b_data) (\<lambda>d.
         let bs = slice (unat (off mod of_nat BSIZE)) (unat ?m) d in
         kbind (either_copyout ObjDst bs) (\<lambda>r.
         if r = -1 then kthen (brelse b) (ret (Inr (-1, acc))) else
         kthen (brelse b) (ret (Inl (tot + ?m, off + ?m, dst_add ObjDst ?m, acc @ bs)))))) v P"
        by (simp add: either_copyout_def dst_add_def sl)
    qed
    then show "runs (if ?a = 0 then ret (Inr (tot, acc)) else
     kbind (get_inode ip i_dev) (\<lambda>dev. kbind (bread dev ?a) (\<lambda>bp. kbind (get_buf bp b_data) (\<lambda>d.
     let bs = slice (unat (off mod of_nat BSIZE)) (unat ?m) d in
     kbind (either_copyout ObjDst bs) (\<lambda>r.
     if r = -1 then kthen (brelse bp) (ret (Inr (-1, acc))) else
     kthen (brelse bp) (ret (Inl (tot + ?m, off + ?m, dst_add ObjDst ?m, acc @ bs)))))))) u P"
      using a cached_inodes [OF u] by (simp only: if_False runs_kbind runs_get_inode)
  qed
qed

lemma runs_readi:
  assumes c: "cached p s A t" and m: "file_mapped (inodes s ip) A" "none_held A"
    and off: "unat off + unat n < 2 ^ 32" "unat (i_size (inodes s ip)) < 2 ^ 31"
    and P: "\<And>u bs. bs = slice (unat off) (unat n) (contents (inodes s ip) (cv A)) \<Longrightarrow> cached p s A u \<Longrightarrow> P (int (length bs), bs) u"
  shows "runs (readi ip ObjDst off n) t P"
proof -
  let ?i = "inodes s ip" and ?C = "contents (inodes s ip) (cv A)"
  have len: "length ?C = unat (i_size ?i)" by (rule length_contents(1) [OF c m(1)])
  have t: "inodes t = inodes s" by (rule cached_inodes [OF c])
  have ov: "\<not> off + n < off" using off(1) by (simp add: word_less_nat_alt unat_add_lem [THEN iffD1])
  show ?thesis
  proof (cases "off > i_size ?i")
    case True
    then have "slice (unat off) (unat n) ?C = []" using len by (simp add: slice_def word_less_nat_alt)
    then show ?thesis using True P [OF refl c] by (simp add: readi_def t)
  next
    case False
    define n' where "n' = (if off + n > i_size ?i then i_size ?i - off else n)"
    have un: "unat n' = min (unat n) (unat (i_size ?i) - unat off)"
      using False off(1) by (auto simp: n'_def word_less_nat_alt unat_add_lem [THEN iffD1] unat_sub word_le_nat_alt)
    have sl: "slice (unat off) (unat n) ?C = slice (unat off) (unat n') ?C" using len un by (simp add: slice_def min_def)
    have le: "unat off + unat n' \<le> unat (i_size ?i)" using un False by (simp add: word_less_nat_alt)
    let ?Q = "\<lambda>(tot, bs) u. runs (ret (sint tot, bs)) u P"
    have "runs (kloop (unat n' + 1) (readi_body ip n') (0, off, ObjDst, [])) t ?Q"
    proof (rule runs_kloop_inv [where I = "\<lambda>(tot, off', dst, acc) u. cached p s A u \<and> dst = ObjDst \<and> tot \<le> n' \<and>
        unat off' = unat off + unat tot \<and> acc = slice (unat off) (unat tot) ?C" and measure_of = "\<lambda>(tot, _). unat n' - unat tot"], goal_cases)
      case 1 then show ?case using c by (simp add: slice_def)
    next
      case 2 then show ?case by simp
    next
      case (3 l u)
      obtain tot off' dst acc where l: "l = (tot, off', dst, acc)" by (cases l)
      have i: "cached p s A u" "dst = ObjDst" "tot \<le> n'" "unat off' = unat off + unat tot"
        "acc = slice (unat off) (unat tot) ?C" using 3 unfolding l by simp_all
      show ?case
      proof (cases "tot < n'")
        case False
        then have e: "tot = n'" using i(3) by simp
        have "length (slice (unat off) (unat n') ?C) = unat n'" using le len by simp
        moreover have "sint n' = int (unat n')" using le off(2) by (intro sint_small) simp
        ultimately have "P (sint n', slice (unat off) (unat n') ?C) u" using P [OF refl i(1)] unfolding sl by simp
        then show ?thesis unfolding l i(2,5) e by (simp add: readi_body_def)
      next
        case True
        let ?m = "io_chunk n' tot off'"
        have um: "unat ?m \<le> unat n' - unat tot" "0 < unat ?m" using unat_io(1) [of tot n' off'] True
          by (simp_all add: word_less_nat_alt word_le_nat_alt BSIZE_def)
        have tn: "unat tot < unat n'" using True by (simp add: word_less_nat_alt)
        have st: "unat (tot + ?m) = unat tot + unat ?m" "unat (off' + ?m) = unat off' + unat ?m"
          using um(1) tn le off(2) i(4) by (auto simp: unat_plus_if')
        show ?thesis unfolding l i(2)
        proof (rule runs_readi_body [OF i(1) m True])
          show "unat off' + (unat n' - unat tot) \<le> unat (i_size ?i)" using i(4) le tn by linarith
          fix v assume v: "cached p s A v"
          have "slice (unat off) (unat (tot + ?m)) ?C = acc @ slice (unat off') (unat ?m) ?C"
            unfolding st(1) slice_add i(4,5) ..
          moreover have "tot + ?m \<le> n'" using st(1) um(1) tn by (simp add: word_le_nat_alt)
          moreover have "unat n' - unat (tot + ?m) < unat n' - unat tot" using st(1) um tn by linarith
          ultimately show "case Inl (tot + ?m, off' + ?m, ObjDst, acc @ slice (unat off') (unat ?m) ?C) of
              Inl l' \<Rightarrow> (case l' of (tot, off', dst, acc) \<Rightarrow> \<lambda>u. cached p s A u \<and> dst = ObjDst \<and> tot \<le> n' \<and>
                unat off' = unat off + unat tot \<and> acc = slice (unat off) (unat tot) ?C) v \<and>
                (case l' of (tot, _) \<Rightarrow> unat n' - unat tot) < (case (tot, off', ObjDst, acc) of (tot, _) \<Rightarrow> unat n' - unat tot)
            | Inr b \<Rightarrow> ?Q b v"
            using v st i(4) by simp
        qed
      qed
    qed
    then show ?thesis using False ov unfolding readi_def runs_kbind runs_get_inode t
      by (simp only: simp_thms if_False Let_def runs_kbind case_prod_unfold n'_def [symmetric])
  qed
qed

section \<open>The inode table\<close>

text \<open>Every inode is in the table at most once, references are counted from 0, and an entry out of use has none.\<close>

definition itable_ok :: "(nat \<Rightarrow> inode) \<Rightarrow> bool" where
  "itable_ok tab \<longleftrightarrow> (\<forall>i < NINODE. 0 \<le> i_ref (tab i)) \<and>
     (\<forall>i < NINODE. \<forall>j < NINODE. 0 < i_ref (tab i) \<and> 0 < i_ref (tab j) \<and> i_dev (tab i) = i_dev (tab j) \<and>
       i_inum (tab i) = i_inum (tab j) \<longrightarrow> i = j)"

definition iget_slot :: "(nat \<Rightarrow> inode) \<Rightarrow> u32 \<Rightarrow> u32 \<Rightarrow> nat option" where
  "iget_slot tab dev inum = (case iget_find tab dev inum of None \<Rightarrow> iget_empty tab | Some ip \<Rightarrow> Some ip)"

definition igot :: "(nat \<Rightarrow> inode) \<Rightarrow> u32 \<Rightarrow> u32 \<Rightarrow> nat \<Rightarrow> inode" where
  "igot tab dev inum ip =
     (if iget_find tab dev inum = None then (tab ip)\<lparr>i_dev := dev, i_inum := inum, i_ref := 1, i_valid := 0\<rparr>
      else (tab ip)\<lparr>i_ref := i_ref (tab ip) + 1\<rparr>)"

lemma iget_app:
  assumes "hart_ok (hw s)" "lock_idle (hw s) LkItable"
  shows "iget_slot (inodes s) dev inum = Some ip \<Longrightarrow>
      iget dev inum s = Ok ip (s\<lparr>inodes := (inodes s)(ip := igot (inodes s) dev inum ip)\<rparr>)"
    "iget_slot (inodes s) dev inum = None \<Longrightarrow> iget dev inum s = Panic ''iget: no inodes''"
proof -
  assume a: "iget_slot (inodes s) dev inum = Some ip"
  let ?t = "s\<lparr>inodes := (inodes s)(ip := igot (inodes s) dev inum ip)\<rparr>"
  show "iget dev inum s = Ok ip ?t"
  proof (rule runs_eqI, cases "iget_find (inodes s) dev inum")
    case None
    then have "iget_empty (inodes s) = Some ip" using a by (simp add: iget_slot_def)
    then show "runs (iget dev inum) s (\<lambda>x t. x = ip \<and> t = ?t)"
      using None assms by (simp add: iget_def set_inode_def igot_def)
  next
    case (Some j)
    then have "j = ip" using a by (simp add: iget_slot_def)
    then show "runs (iget dev inum) s (\<lambda>x t. x = ip \<and> t = ?t)"
      using Some assms by (simp add: iget_def set_inode_def igot_def)
  qed
next
  assume a: "iget_slot (inodes s) dev inum = None"
  then have "iget_find (inodes s) dev inum = None" "iget_empty (inodes s) = None"
    by (simp_all add: iget_slot_def split: option.splits)
  then show "iget dev inum s = Panic ''iget: no inodes''" using assms by (simp add: iget_def acquire_app)
qed

lemma iget_slot_range:
  assumes "iget_slot tab dev inum = Some ip"
  shows "ip < NINODE"
    "iget_find tab dev inum = None \<and> i_ref (tab ip) = 0 \<or>
     iget_find tab dev inum = Some ip \<and> 0 < i_ref (tab ip) \<and> i_dev (tab ip) = dev \<and> i_inum (tab ip) = inum"
  using assms by (auto simp: iget_slot_def iget_find_def iget_empty_def dest!: find_SomeD split: option.splits)

lemma igot_ok:
  assumes "itable_ok tab" "iget_slot tab dev inum = Some ip"
  shows "itable_ok (tab(ip := igot tab dev inum ip))"
    "i_dev (igot tab dev inum ip) = dev" "i_inum (igot tab dev inum ip) = inum" "i_ref (igot tab dev inum ip) = i_ref (tab ip) + 1"
proof -
  note r = iget_slot_range [OF assms(2)]
  show f: "i_dev (igot tab dev inum ip) = dev" "i_inum (igot tab dev inum ip) = inum" "i_ref (igot tab dev inum ip) = i_ref (tab ip) + 1"
    using r(2) by (auto simp: igot_def)
  have uniq: "j = ip" if "j < NINODE" "0 < i_ref (tab j)" "i_dev (tab j) = dev" "i_inum (tab j) = inum" for j
    using r that assms(1) by (auto simp: itable_ok_def iget_find_def find_None_iff)
  have pos: "0 \<le> i_ref (tab j)" if "j < NINODE" for j using assms(1) that by (simp add: itable_ok_def)
  have inj: "i = j" if "i < NINODE" "j < NINODE" "0 < i_ref (tab i)" "0 < i_ref (tab j)" "i_dev (tab i) = i_dev (tab j)"
    "i_inum (tab i) = i_inum (tab j)" for i j using assms(1) that unfolding itable_ok_def by blast
  show "itable_ok (tab(ip := igot tab dev inum ip))"
    unfolding itable_ok_def
  proof (intro conjI allI impI)
    show "0 \<le> i_ref ((tab(ip := igot tab dev inum ip)) j)" if "j < NINODE" for j
      using pos [OF that] f(3) by (cases "j = ip") simp_all
    show "i = j" if "i < NINODE" "j < NINODE" "0 < i_ref ((tab(ip := igot tab dev inum ip)) i) \<and> 0 < i_ref ((tab(ip := igot tab dev inum ip)) j) \<and>
      i_dev ((tab(ip := igot tab dev inum ip)) i) = i_dev ((tab(ip := igot tab dev inum ip)) j) \<and>
      i_inum ((tab(ip := igot tab dev inum ip)) i) = i_inum ((tab(ip := igot tab dev inum ip)) j)" for i j
      using that inj uniq f by (metis fun_upd_apply)
  qed
qed

section \<open>Directories: looking up a name\<close>

text \<open>The \<open>k\<close>-th entry of a directory with contents \<open>d\<close>, and the first entry in use with a name.\<close>

definition dirent :: "u8 list \<Rightarrow> nat \<Rightarrow> u8 list" where
  "dirent d k = slice (16 * k) 16 d"

definition dir_find :: "u8 list \<Rightarrow> u8 list \<Rightarrow> nat option" where
  "dir_find d nm = find (\<lambda>k. de_inum (dirent d k) \<noteq> 0 \<and> cstr DIRSIZ (de_name (dirent d k)) = nm) [0..<length d div 16]"

lemma namecmp_eq: "namecmp a b = 0 \<longleftrightarrow> cstr DIRSIZ a = cstr DIRSIZ b"
  by (simp add: namecmp_def strncmp_0_iff DIRSIZ_def)

lemma find_from:
  assumes "\<And>j. j < k \<Longrightarrow> \<not> Q j" "k < n" "Q k"
  shows "find Q [0..<n] = Some k"
  using assms by (auto simp: find_Some_iff intro!: exI [of _ k])

text \<open>What \<open>dirlookup\<close> leaves: the cache as it was, and one reference more to the inode it found.\<close>

definition looked_up :: "nat \<Rightarrow> 'z fs_state_scheme \<Rightarrow> cabs \<Rightarrow> nat \<Rightarrow> u8 list \<Rightarrow> (nat \<times> u32) option \<Rightarrow> 'z fs_state_scheme \<Rightarrow> bool" where
  "looked_up p s A dp nm r t \<longleftrightarrow> (\<exists>u. cached p s A u \<and> (let d = contents (inodes s dp) (cv A) in
     case dir_find d nm of None \<Rightarrow> r = None \<and> t = u
     | Some k \<Rightarrow> let inum = ucast (de_inum (dirent d k)) in
        \<exists>ip. iget_slot (inodes s) ROOTDEV inum = Some ip \<and> r = Some (ip, of_nat (16 * k)) \<and>
          t = u\<lparr>inodes := (inodes s)(ip := igot (inodes s) ROOTDEV inum ip)\<rparr>))"

lemma runs_dirlookup_body:
  assumes c: "cached p s A t" and m: "file_mapped (inodes s dp) A" "none_held A"
    and sz: "unat (i_size (inodes s dp)) < 2 ^ 31" "16 dvd unat (i_size (inodes s dp))"
    and sl: "\<And>inum. iget_slot (inodes s) ROOTDEV inum \<noteq> None"
    and k: "16 * k < unat (i_size (inodes s dp))" "\<And>j. j < k \<Longrightarrow> \<not> (de_inum (dirent d j) \<noteq> 0 \<and> cstr DIRSIZ (de_name (dirent d j)) = cstr DIRSIZ nm)"
    and d: "d = contents (inodes s dp) (cv A)"
  shows "runs (dirlookup_body dp nm (of_nat (16 * k))) t (\<lambda>r u. case r of
     Inl l \<Rightarrow> l = of_nat (16 * Suc k) \<and> cached p s A u \<and> \<not> (de_inum (dirent d k) \<noteq> 0 \<and> cstr DIRSIZ (de_name (dirent d k)) = cstr DIRSIZ nm)
   | Inr x \<Rightarrow> looked_up p s A dp (cstr DIRSIZ nm) x u)"
proof -
  let ?i = "inodes s dp"
  have t: "inodes t = inodes s" by (rule cached_inodes [OF c])
  have dev: "i_dev ?i = ROOTDEV" using m(1) by (simp add: file_mapped_def)
  have len: "length d = unat (i_size ?i)" unfolding d by (rule length_contents(1) [OF c m(1)])
  have uk: "unat (of_nat (16 * k) :: u32) = 16 * k" by (rule unat_of_nat_u32) (use k(1) sz(1) in simp)
  have k16: "16 * k + 16 \<le> unat (i_size ?i)" using k(1) sz(2) by (auto elim!: dvdE)
  have e: "slice (unat (of_nat (16 * k) :: u32)) (unat DE_SIZE) d = dirent d k" by (simp only: uk) (simp add: dirent_def DE_SIZE_def)
  have le: "length (dirent d k) = 16" using len k16 by (simp add: dirent_def)
  have lt: "(of_nat (16 * k) :: u32) < i_size ?i" using uk k(1) by (simp only: word_less_nat_alt)
  have step: "(of_nat (16 * k) :: u32) + DE_SIZE = of_nat (16 * Suc k)" by (simp add: DE_SIZE_def)
  let ?Q = "\<lambda>r u. case r of
     Inl l \<Rightarrow> l = of_nat (16 * Suc k) \<and> cached p s A u \<and> \<not> (de_inum (dirent d k) \<noteq> 0 \<and> cstr DIRSIZ (de_name (dirent d k)) = cstr DIRSIZ nm)
   | Inr x \<Rightarrow> looked_up p s A dp (cstr DIRSIZ nm) x u"
  have "runs (readi dp ObjDst (of_nat (16 * k)) DE_SIZE) t (\<lambda>(r, de) u. runs (
     if r \<noteq> uint DE_SIZE then panic ''dirlookup read''
     else if de_inum de = 0 then ret (Inl (of_nat (16 * k) + DE_SIZE))
     else if namecmp nm (de_name de) = 0 then
       kbind (get_inode dp i_dev) (\<lambda>dev. kbind (iget dev (ucast (de_inum de))) (\<lambda>ip. ret (Inr (Some (ip, of_nat (16 * k))))))
     else ret (Inl (of_nat (16 * k) + DE_SIZE))) u ?Q)"
  proof (rule runs_readi [OF c m])
    show "unat (of_nat (16 * k) :: u32) + unat DE_SIZE < 2 ^ 32" using uk k16 sz(1) by (simp add: DE_SIZE_def)
    show "unat (i_size ?i) < 2 ^ 31" by (rule sz)
    fix u bs assume bs: "bs = slice (unat (of_nat (16 * k) :: u32)) (unat DE_SIZE) (contents ?i (cv A))" and u: "cached p s A u"
    have bs: "bs = dirent d k" using bs e d by simp
    have iu: "inodes u = inodes s" by (rule cached_inodes [OF u])
    let ?hit = "de_inum (dirent d k) \<noteq> 0 \<and> cstr DIRSIZ (de_name (dirent d k)) = cstr DIRSIZ nm"
    show "(case (int (length bs), bs) of (r, de) \<Rightarrow> \<lambda>u. runs (
       if r \<noteq> uint DE_SIZE then panic ''dirlookup read''
       else if de_inum de = 0 then ret (Inl (of_nat (16 * k) + DE_SIZE))
       else if namecmp nm (de_name de) = 0 then
         kbind (get_inode dp i_dev) (\<lambda>dev. kbind (iget dev (ucast (de_inum de))) (\<lambda>ip. ret (Inr (Some (ip, of_nat (16 * k))))))
       else ret (Inl (of_nat (16 * k) + DE_SIZE))) u ?Q) u"
    proof (cases ?hit)
      case False
      have "int (length bs) = uint DE_SIZE" using bs le by (simp add: DE_SIZE_def)
      then show ?thesis using False u step unfolding bs by (auto simp: namecmp_eq)
    next
      case True
      let ?n = "ucast (de_inum (dirent d k)) :: u32"
      obtain ip where ip: "iget_slot (inodes s) ROOTDEV ?n = Some ip" using sl [of ?n] by blast
      have "dir_find d (cstr DIRSIZ nm) = Some k" unfolding dir_find_def
        by (rule find_from) (use k(2) True len k16 in auto)
      then have "looked_up p s A dp (cstr DIRSIZ nm) (Some (ip, of_nat (16 * k))) (u\<lparr>inodes := (inodes s)(ip := igot (inodes s) ROOTDEV ?n ip)\<rparr>)"
        unfolding looked_up_def d [symmetric] using u ip by (auto simp: Let_def)
      moreover have "iget ROOTDEV ?n u = Ok ip (u\<lparr>inodes := (inodes s)(ip := igot (inodes s) ROOTDEV ?n ip)\<rparr>)"
        using iget_app(1) [of u ROOTDEV ?n ip] ctx_hart(1,2) [OF cachedD(3) [OF u]] ip iu by simp
      moreover have "int (length bs) = uint DE_SIZE" using bs le by (simp add: DE_SIZE_def)
      ultimately show ?thesis using True dev unfolding bs by (simp add: namecmp_eq iu runs_app)
    qed
  qed
  then show ?thesis unfolding dirlookup_body_def using lt t by (simp only: runs_kbind runs_get_inode simp_thms if_False case_prod_unfold)
qed

lemma runs_dirlookup:
  assumes c: "cached p s A t" and m: "file_mapped (inodes s dp) A" "none_held A"
    and sz: "unat (i_size (inodes s dp)) < 2 ^ 31" "16 dvd unat (i_size (inodes s dp))" "i_type (inodes s dp) = T_DIR"
    and sl: "\<And>inum. iget_slot (inodes s) ROOTDEV inum \<noteq> None"
  shows "runs (dirlookup dp nm) t (\<lambda>r u. looked_up p s A dp (cstr DIRSIZ nm) r u)"
proof -
  let ?i = "inodes s dp" and ?d = "contents (inodes s dp) (cv A)"
  let ?miss = "\<lambda>j. \<not> (de_inum (dirent ?d j) \<noteq> 0 \<and> cstr DIRSIZ (de_name (dirent ?d j)) = cstr DIRSIZ nm)"
  have t: "inodes t = inodes s" by (rule cached_inodes [OF c])
  have len: "length ?d = unat (i_size ?i)" by (rule length_contents(1) [OF c m(1)])
  have "runs (kloop (unat (i_size ?i) div 16 + 2) (dirlookup_body dp nm) 0) t (\<lambda>r u. looked_up p s A dp (cstr DIRSIZ nm) r u)"
  proof (rule runs_kloop_inv [where I = "\<lambda>l u. cached p s A u \<and> (\<exists>k. l = of_nat (16 * k) \<and> 16 * k \<le> unat (i_size ?i) \<and> (\<forall>j < k. ?miss j))"
        and measure_of = "\<lambda>l. unat (i_size ?i) div 16 + 1 - unat l div 16"], goal_cases)
    case 1 then show ?case using c by (auto intro!: exI [of _ 0])
  next
    case 2 then show ?case by simp
  next
    case (3 l u)
    then obtain k where u: "cached p s A u" and k: "l = of_nat (16 * k)" "16 * k \<le> unat (i_size ?i)" "\<And>j. j < k \<Longrightarrow> ?miss j" by blast
    have iu: "inodes u = inodes s" by (rule cached_inodes [OF u])
    have ul: "unat l = 16 * k" unfolding k(1) by (rule unat_of_nat_u32) (use k(2) sz(1) in simp)
    show ?case
    proof (cases "16 * k < unat (i_size ?i)")
      case True
      then have k16: "16 * Suc k \<le> unat (i_size ?i)" using sz(2) by (auto elim!: dvdE)
      have "unat (of_nat (16 * Suc k) :: u32) = 16 * Suc k" by (rule unat_of_nat_u32) (use k16 sz(1) in simp)
      then have less: "unat (i_size ?i) div 16 + 1 - unat (of_nat (16 * Suc k) :: u32) div 16 < unat (i_size ?i) div 16 + 1 - unat l div 16"
        using k16 ul by simp
      show ?thesis unfolding k(1)
      proof (rule runs_mono [OF runs_dirlookup_body [OF u m sz(1,2) sl True k(3) refl]], assumption)
        fix r :: "u32 + (nat \<times> u32) option" and v
        assume r: "case r of Inl l \<Rightarrow> l = of_nat (16 * Suc k) \<and> cached p s A v \<and> ?miss k | Inr x \<Rightarrow> looked_up p s A dp (cstr DIRSIZ nm) x v"
        show "case r of Inl l' \<Rightarrow> (cached p s A v \<and> (\<exists>k. l' = of_nat (16 * k) \<and> 16 * k \<le> unat (i_size ?i) \<and> (\<forall>j < k. ?miss j))) \<and>
            unat (i_size ?i) div 16 + 1 - unat l' div 16 < unat (i_size ?i) div 16 + 1 - unat (of_nat (16 * k) :: u32) div 16
          | Inr x \<Rightarrow> looked_up p s A dp (cstr DIRSIZ nm) x v"
        proof (cases r)
          case (Inl l')
          have "\<forall>j < Suc k. ?miss j" using r k(3) unfolding Inl by (auto simp: less_Suc_eq)
          then show ?thesis using r k16 less unfolding Inl k(1) by (auto simp del: of_nat_mult intro!: exI [of _ "Suc k"])
        qed (use r in simp)
      qed
    next
      case False
      then have "dir_find ?d (cstr DIRSIZ nm) = None" using k(2,3) len by (auto simp: dir_find_def find_None_iff)
      then have "looked_up p s A dp (cstr DIRSIZ nm) None u" using u by (auto simp: looked_up_def)
      moreover have "\<not> l < i_size ?i" using False ul by (simp add: word_less_nat_alt)
      ultimately show ?thesis by (simp add: dirlookup_body_def iu)
    qed
  qed
  then show ?thesis unfolding dirlookup_def using sz(3) t by (simp only: runs_kbind runs_get_inode simp_thms if_False)
qed

section \<open>Properties\<close>

text \<open>A process reads a file: the cache is in order, nothing is locked by it, and the file has no holes.\<close>

definition reading :: "nat \<Rightarrow> 'z fs_state_scheme \<Rightarrow> nat \<Rightarrow> bool" where
  "reading p s ip \<longleftrightarrow> bc_ready p s \<and> file_mapped (inodes s ip) (cabs_of s) \<and> unat (i_size (inodes s ip)) < 2 ^ 31"

definition file_of :: "'z fs_state_scheme \<Rightarrow> nat \<Rightarrow> u8 list" where
  "file_of s ip = contents (inodes s ip) (view s)"

text \<open>A system whose root directory, inode 1 in block 60, has the entries \<open>.\<close>, \<open>..\<close> and \<open>init\<close>, the last for inode 7. Its bitmap,
  in block 45, marks the first 46 blocks; the inodes are in block 32; an operation is under way.\<close>

definition demo_entry :: "u8 \<Rightarrow> u8 list \<Rightarrow> u8 list" where
  "demo_entry inum nm = [inum, 0] @ nm @ replicate (14 - length nm) 0"

definition demo_dir :: "u8 list" where
  "demo_dir = demo_entry 1 [46] @ demo_entry 1 [46, 46] @ demo_entry 7 [105, 110, 105, 116]"

definition demo_name :: "nat \<Rightarrow> u8" where
  "demo_name i = (if i < 4 then [105, 110, 105, 116] ! i else 0)"

definition demo_inodes :: "nat \<Rightarrow> inode" where
  "demo_inodes i = (if i = 0
     then \<lparr>i_dev = 1, i_inum = 1, i_ref = 1, i_valid = 1, i_type = T_DIR, i_major = 0, i_minor = 0, i_nlink = 1, i_size = 48, i_addrs = (\<lambda>_. 60)\<rparr>
     else \<lparr>i_dev = 0, i_inum = 0, i_ref = 0, i_valid = 0, i_type = 0, i_major = 0, i_minor = 0, i_nlink = 0, i_size = 0, i_addrs = (\<lambda>_. 0)\<rparr>)"

definition demo_dinode :: "u8 \<Rightarrow> u8 \<Rightarrow> u8 \<Rightarrow> u8 list" where
  "demo_dinode ty sz a = [ty, 0, 0, 0, 0, 0, 1, 0, sz, 0, 0, 0] @ concat (replicate 13 [a, 0, 0, 0])"

lemma length_demo_dinode: "length (demo_dinode ty sz a) = 64"
proof -
  have "length (concat (replicate n [a, 0, 0, 0])) = 4 * n" for n :: nat by (induction n) simp_all
  then show ?thesis by (simp add: demo_dinode_def)
qed

definition demo_fs :: fs_state where
  "demo_fs = \<lparr>hw = run_hart, mem = demo_mem, sym = boot_symbols, freelist = 0, kernel_pagetable = 0,
     satp = (\<lambda>_. 0), procs = demo_table, nextpid = 3, initproc = Some 0,
     slocks = (\<lambda>_. \<lparr>sk_locked = 0, sk_name = [], sk_pid = 0\<rparr>), bus = (\<lambda>_ _. 0), bus_log = [], panicked = 0, pr_locking = 1,
     vdisk = demo_vdisk, bufs = demo_bufs, dimg = (\<lambda>sec. if sec = 120 then demo_dir @ replicate 464 0
       else if sec = 90 then replicate 5 255 @ 63 # replicate 506 0
       else if sec = 64 then replicate 64 0 @ demo_dinode 1 48 60 @ replicate 320 0 @ demo_dinode 2 0 0 else replicate 512 0),
     blkdev = demo_blkdev, dev_avail = 0, dhist = [], lg = demo_lg\<lparr>lg_outstanding := 1, lg_lh := \<lparr>lh_n = 0, lh_block = (\<lambda>_. 0)\<rparr>\<rparr>,
     fs_sb = \<lparr>sb_magic = FSMAGIC, sb_size = 2000, sb_nblocks = 1954, sb_ninodes = 200, sb_nlog = 30, sb_logstart = 2, sb_inodestart = 32, sb_bmapstart = 45\<rparr>,
     inodes = demo_inodes\<rparr>"

lemma demo_fs_bc: "bc_ready 0 demo_fs"
proof -
  have "ctx demo_fs 0" using demo_disk_ctx by (simp add: ctx_def demo_fs_def demo_disk_def)
  moreover have "disk_idle demo_fs" using demo_disk_idle by (simp add: disk_idle_def demo_fs_def demo_disk_def)
  then have "bcache_ok demo_fs (rev [0..<NBUF])" using demo_ring
    by (simp add: bcache_ok_def buf_ok_def holds_block_def demo_fs_def demo_bufs_def ROOTDEV_def BSIZE_def demo_dir_def demo_entry_def
        length_demo_dinode)
  ultimately show ?thesis unfolding bc_ready_def by blast
qed

lemma demo_fs_abs:
  "refs demo_fs = (\<lambda>_. 0)" "lock_pid demo_fs = (\<lambda>_. None)" "view demo_fs = disk demo_fs" "inodes demo_fs = demo_inodes"
  "disk demo_fs 60 = demo_dir @ replicate 976 0"
proof -
  have b: "buf_of demo_fs bn = None" for bn
    by (simp add: buf_of_None holds_block_def demo_fs_def demo_bufs_def ROOTDEV_def)
  show "refs demo_fs = (\<lambda>_. 0)" "lock_pid demo_fs = (\<lambda>_. None)" "view demo_fs = disk demo_fs"
    by (simp_all add: fun_eq_iff refs_def lock_pid_def view_def b)
  show "inodes demo_fs = demo_inodes" by (simp add: demo_fs_def)
  show "disk demo_fs 60 = demo_dir @ replicate 976 0"
    by (simp add: disk_def disk_of_def blk_def sector_of_def BSIZE_def demo_fs_def replicate_add [symmetric])
qed

lemma demo_fs_file: "file_of demo_fs 0 = demo_dir"
  by (simp add: file_of_def contents_def file_blocks_def addr_of_def demo_fs_abs demo_inodes_def BSIZE_def NDIRECT_def)
     (simp add: demo_dir_def demo_entry_def)

lemma demo_fs_reading: "reading 0 demo_fs 0"
  using demo_fs_bc
  by (simp add: reading_def file_mapped_def file_blocks_def addr_of_def demo_fs_abs demo_inodes_def BSIZE_def NDIRECT_def cabs_of_def can_read_def
      ROOTDEV_def MAXFILE_def NINDIRECT_def NBUF_def)



text \<open>C12: \<open>dirlookup\<close> finds a name. In a directory of whole entries it finds the first entry in use with the name, compared as the
  C string in at most \<open>DIRSIZ\<close> bytes, and gives its offset and an inode of the table that stands for the inode number
  of the entry, with one reference more; when there is no such entry it gives none and the table stays. The contents
  of the blocks stay, and the table keeps its invariant, at most one entry in use per inode number.\<close>

theorem dirlookup_correct:
  assumes "reading p s dp" and "i_type (inodes s dp) = T_DIR" and "16 dvd unat (i_size (inodes s dp))"
    and "itable_ok (inodes s)" and "i < NINODE" and "i_ref (inodes s i) = 0"
  shows "runs (dirlookup dp nm) s (\<lambda>r t. view t = view s \<and> disk t = disk s \<and> itable_ok (inodes t) \<and>
    (case dir_find (file_of s dp) (cstr DIRSIZ nm) of None \<Rightarrow> r = None \<and> inodes t = inodes s
     | Some k \<Rightarrow> \<exists>ip < NINODE. r = Some (ip, of_nat (16 * k)) \<and> i_dev (inodes t ip) = ROOTDEV \<and>
         i_inum (inodes t ip) = ucast (de_inum (dirent (file_of s dp) k)) \<and> i_ref (inodes t ip) = i_ref (inodes s ip) + 1 \<and>
         (\<forall>j. j \<noteq> ip \<longrightarrow> inodes t j = inodes s j)))"
proof -
  note r = assms(1) [unfolded reading_def]
  have c: "cached p s (cabs_of s) s" using r by (intro cached_start) simp
  have f: "contents (inodes s dp) (cv (cabs_of s)) = file_of s dp" by (simp add: file_of_def cabs_of_def)
  have "iget_empty (inodes s) \<noteq> None" using assms(5,6) by (auto simp: iget_empty_def find_None_iff simp del: not_None_eq)
  then have sl: "iget_slot (inodes s) ROOTDEV inum \<noteq> None" for inum by (simp add: iget_slot_def split: option.split)
  have "runs (dirlookup dp nm) s (\<lambda>r t. looked_up p s (cabs_of s) dp (cstr DIRSIZ nm) r t)"
    by (rule runs_dirlookup [OF c]) (use r assms sl in simp_all)
  then show ?thesis
  proof (rule runs_mono)
    fix x t assume "looked_up p s (cabs_of s) dp (cstr DIRSIZ nm) x t"
    then obtain u where u: "cached p s (cabs_of s) u" and l: "case dir_find (file_of s dp) (cstr DIRSIZ nm) of None \<Rightarrow> x = None \<and> t = u
     | Some k \<Rightarrow> let inum = ucast (de_inum (dirent (file_of s dp) k)) in
        \<exists>ip. iget_slot (inodes s) ROOTDEV inum = Some ip \<and> x = Some (ip, of_nat (16 * k)) \<and>
          t = u\<lparr>inodes := (inodes s)(ip := igot (inodes s) ROOTDEV inum ip)\<rparr>" unfolding looked_up_def f by (auto simp: Let_def)
    have vu: "view u = view s" "disk u = disk s" using u by (simp_all add: cached_def cabs_of_def)
    have vi: "view (u\<lparr>inodes := y\<rparr>) = view u" "disk (u\<lparr>inodes := y\<rparr>) = disk u" for y
      by (simp_all add: view_def [abs_def] disk_def buf_of_def cong: option.case_cong if_cong)
    show "view t = view s \<and> disk t = disk s \<and> itable_ok (inodes t) \<and>
    (case dir_find (file_of s dp) (cstr DIRSIZ nm) of None \<Rightarrow> x = None \<and> inodes t = inodes s
     | Some k \<Rightarrow> \<exists>ip < NINODE. x = Some (ip, of_nat (16 * k)) \<and> i_dev (inodes t ip) = ROOTDEV \<and>
         i_inum (inodes t ip) = ucast (de_inum (dirent (file_of s dp) k)) \<and> i_ref (inodes t ip) = i_ref (inodes s ip) + 1 \<and>
         (\<forall>j. j \<noteq> ip \<longrightarrow> inodes t j = inodes s j))"
    proof (cases "dir_find (file_of s dp) (cstr DIRSIZ nm)")
      case None
      then show ?thesis using l vu assms(4) cached_inodes [OF u] by simp
    next
      case (Some k)
      let ?n = "ucast (de_inum (dirent (file_of s dp) k)) :: u32"
      obtain ip where ip: "iget_slot (inodes s) ROOTDEV ?n = Some ip" "x = Some (ip, of_nat (16 * k))"
        and t: "t = u\<lparr>inodes := (inodes s)(ip := igot (inodes s) ROOTDEV ?n ip)\<rparr>" using l Some by (auto simp: Let_def)
      have it: "inodes t = (inodes s)(ip := igot (inodes s) ROOTDEV ?n ip)" using t by simp
      show ?thesis unfolding it Some ip(2) using igot_ok [OF assms(4) ip(1)] iget_slot_range(1) [OF ip(1)] vu
        by (simp add: t vi)
    qed
  qed
qed

theorem dirlookup_correct_witness:
  "reading 0 demo_fs 0 \<and> runs (dirlookup 0 demo_name) demo_fs (\<lambda>r t. \<exists>ip. r = Some (ip, 32) \<and> i_inum (inodes t ip) = 7)"
proof -
  have f: "dir_find demo_dir (cstr DIRSIZ demo_name) = Some 2" "de_inum (dirent demo_dir 2) = 7" by code_simp+
  have "itable_ok demo_inodes" by (auto simp: itable_ok_def demo_inodes_def)
  then have "runs (dirlookup 0 demo_name) demo_fs (\<lambda>r t. \<exists>ip. r = Some (ip, 32) \<and> i_inum (inodes t ip) = 7)"
    by (intro runs_mono [OF dirlookup_correct [OF demo_fs_reading, of 1 demo_name]])
       (auto simp: demo_fs_abs demo_fs_file f demo_inodes_def NINODE_def)
  then show ?thesis using demo_fs_reading by blast
qed

end
