(* ===== verification/Xv6_Balloc.thy ===== *)
theory Xv6_Balloc
  imports Xv6_Fs
begin

text \<open>
  Updates of blocks within a transaction, and block allocation (\<open>balloc\<close> of kernel/fs.c) on top of them. Shown: \<open>balloc\<close> hands out
  the first block whose bit in the bitmap is clear, marks it, and zeroes it, all of it in the transaction.
\<close>

section \<open>A block changed in a transaction\<close>

text \<open>The log has room for \<open>k\<close> more blocks, an operation is under way, and the blocks of the transaction are pinned.\<close>

definition log_room :: "nat \<Rightarrow> log \<Rightarrow> cabs \<Rightarrow> bool" where
  "log_room k l A \<longleftrightarrow> 0 \<le> lh_n (lg_lh l) \<and> lh_n (lg_lh l) + int k \<le> LOGSIZE \<and> lh_n (lg_lh l) + int k \<le> lg_size l - 1 \<and>
     1 \<le> lg_outstanding l \<and> (\<forall>bn \<in> set (homes l). 0 < cr A bn)"

lemma runs_a_log:
  assumes c: "cached p s A t" and b: "ch A bn = Some b" and l: "log_room (Suc k) (lg s) A" and r: "cr A bn < 2 ^ 32 - 1"
    and P: "\<And>u. cached p (s\<lparr>lg := log_add bn (lg s)\<rparr>) (A\<lparr>cr := (cr A)(bn := cr A bn + of_bool (bn \<notin> set (homes (lg s))))\<rparr>) u \<Longrightarrow> P () u"
  shows "runs (log_write b) t P"
proof -
  have lt: "lg t = lg s" by (rule cached_lg [OF c])
  have bb: "b_blockno (bufs t b) = bn" using cached_data [OF c b] by simp
  note h = ctx_hart [OF cachedD(3) [OF c]]
  have app: "log_write b t = Ok () (t\<lparr>lg := log_add bn (lg s), bufs := if bn \<in> set (homes (lg s)) then bufs t
    else (bufs t)(b := (bufs t b)\<lparr>b_refcnt := b_refcnt (bufs t b) + 1\<rparr>)\<rparr>)"
    using log_write_app [OF h(1) h(2) h(2), of b] l unfolding bb lt log_room_def by simp
  show ?thesis
  proof (cases "bn \<in> set (homes (lg s))")
    case True
    have "cached p (s\<lparr>lg := log_add bn (lg s)\<rparr>) A (t\<lparr>lg := log_add bn (lg s)\<rparr>)" by (rule cached_set_lg [OF c])
    then have "P () (t\<lparr>lg := log_add bn (lg s)\<rparr>)" using True by (intro P) simp
    then show ?thesis using app True by (simp add: runs_def)
  next
    case False
    let ?r = "b_refcnt (bufs t b) + 1"
    have u: "unat (b_refcnt (bufs t b)) = cr A bn" using cached_refcnt [OF c b] by simp
    then have ur: "unat ?r = cr A bn + 1" using r by (simp add: unat_plus_if')
    then have "?r \<noteq> 0" by auto
    note pin = cached_set_lg [OF cached_pin [OF c b this], of "log_add bn (lg s)"]
    have e: "t\<lparr>bufs := (bufs t)(b := (bufs t b)\<lparr>b_refcnt := ?r\<rparr>), lg := log_add bn (lg s)\<rparr> =
      t\<lparr>lg := log_add bn (lg s), bufs := (bufs t)(b := (bufs t b)\<lparr>b_refcnt := ?r\<rparr>)\<rparr>" by (rule log_state.equality) simp_all
    have "P () (t\<lparr>lg := log_add bn (lg s), bufs := (bufs t)(b := (bufs t b)\<lparr>b_refcnt := ?r\<rparr>)\<rparr>)"
      using False pin unfolding ur e by (intro P) simp
    then show ?thesis using app False by (simp add: runs_def)
  qed
qed

text \<open>The cache after the contents of a block were replaced in the transaction.\<close>

definition a_upd :: "u32 \<Rightarrow> u8 list \<Rightarrow> bool \<Rightarrow> cabs \<Rightarrow> cabs" where
  "a_upd bn d new A = A\<lparr>cv := (cv A)(bn := d), cr := (cr A)(bn := cr A bn + of_bool new)\<rparr>"

lemma a_upd_simps [simp]:
  "cv (a_upd bn d new A) = (cv A)(bn := d)" "cd (a_upd bn d new A) = cd A" "ct (a_upd bn d new A) = ct A"
  "cr (a_upd bn d new A) = (cr A)(bn := cr A bn + of_bool new)" "cl (a_upd bn d new A) = cl A" "ch (a_upd bn d new A) = ch A"
  "none_held (a_upd bn d new A) = none_held A"
  by (simp_all add: a_upd_def none_held_def)

lemma runs_logged_store:
  assumes c: "cached p s A t" and rd: "can_read A bn" and n: "none_held A" and l: "log_room (Suc k) (lg s) A"
    and cr: "cr A bn + 1 < 2 ^ 32 - 1" and d: "length d = BSIZE"
    and g: "cached p s (a_get bn b (p_pid (procs s p)) A) u"
    and P: "\<And>v. cached p (s\<lparr>lg := log_add bn (lg s)\<rparr>) (a_upd bn d (bn \<notin> set (homes (lg s))) A) v \<Longrightarrow> P () v"
  shows "runs (kthen (store_data b d) (kthen (log_write b) (brelse b))) u P"
proof -
  let ?G = "a_get bn b (p_pid (procs s p)) A" and ?l = "log_add bn (lg s)"
  let ?new = "bn \<notin> set (homes (lg s))"
  have "runs (store_data b d) u (\<lambda>_ v. runs (log_write b) v (\<lambda>_ w. runs (brelse b) w P))"
  proof (rule runs_a_store [OF g, where bn = bn])
    fix v assume v: "cached p s (a_store bn d ?G) v"
    show "runs (log_write b) v (\<lambda>_ w. runs (brelse b) w P)"
    proof (rule runs_a_log [OF v, where bn = bn and k = k])
      show "log_room (Suc k) (lg s) (a_store bn d ?G)" using l by (auto simp: log_room_def)
      fix w
      let ?B = "(a_store bn d ?G)\<lparr>cr := (cr (a_store bn d ?G))(bn := cr (a_store bn d ?G) bn + of_bool ?new)\<rparr>"
      assume w: "cached p (s\<lparr>lg := ?l\<rparr>) ?B w"
      have pinned: "cr ?B bn \<noteq> 1" using l by (auto simp: log_room_def)
      show "runs (brelse b) w P"
      proof (rule runs_a_put [OF w, where bn = bn])
        fix x assume x: "cached p (s\<lparr>lg := ?l\<rparr>) (a_put bn ?B) x"
        have "cl A bn = None" "ch A bn = None" using rd n by (simp_all add: can_read_def none_held_def)
        then have "cached p (s\<lparr>lg := ?l\<rparr>) (a_upd bn d ?new A) x"
          by (intro cached_cong [OF x]) (auto simp: fun_eq_iff)
        then show "P () x" by (rule P)
      qed (use pinned in simp_all)
    qed (use cr in simp_all)
  qed (use d in simp_all)
  then show ?thesis by (simp only: runs_kthen)
qed

lemma runs_bzero:
  assumes c: "cached p s A t" and rd: "can_read A bn" and n: "none_held A" and l: "log_room (Suc k) (lg s) A" and cr: "cr A bn + 1 < 2 ^ 32 - 1"
    and P: "\<And>v. cached p (s\<lparr>lg := log_add bn (lg s)\<rparr>) (a_upd bn (replicate BSIZE 0) (bn \<notin> set (homes (lg s))) A) v \<Longrightarrow> P () v"
  shows "runs (bzero ROOTDEV bn) t P"
proof -
  have "runs (bread ROOTDEV bn) t (\<lambda>b u. runs (kthen (store_data b (replicate BSIZE 0)) (kthen (log_write b) (brelse b))) u P)"
    by (rule runs_a_get [OF c rd]) (rule runs_logged_store [OF c rd n l cr], simp, assumption, rule P)
  then show ?thesis by (simp only: bzero_def runs_kbind)
qed

text \<open>What the log and the pins look like after an update.\<close>

lemma log_room_upd:
  assumes "log_room (Suc k) l A"
  shows "log_room k (log_add bn l) (a_upd bn d (bn \<notin> set (homes l)) A)"
proof -
  have n: "0 \<le> lh_n (lg_lh l)" using assms by (simp add: log_room_def)
  have f: "lh_n (lg_lh (log_add bn l)) = lh_n (lg_lh l) + of_bool (bn \<notin> set (homes l))" "lg_size (log_add bn l) = lg_size l"
    "lg_outstanding (log_add bn l) = lg_outstanding l" by (simp_all add: log_add_def Let_def)
  show ?thesis using assms homes_log_add [OF n, of bn] unfolding log_room_def f by (auto simp: of_bool_def)
qed

section \<open>The bitmap\<close>

definition allocated :: "(u32 \<Rightarrow> u8 list) \<Rightarrow> superblock \<Rightarrow> nat \<Rightarrow> bool" where
  "allocated V sb c = bit_of (V (BBLOCK (of_nat c) sb)) (c mod BPB)"

lemma bit_of_bit: "i mod 8 = j \<Longrightarrow> bit_of d i = bit (d ! (i div 8)) j"
proof -
  assume j: "i mod 8 = j"
  have "push_bit j (1 :: u8) = 2 ^ j" by (simp add: push_bit_eq_mult)
  then show ?thesis using j by (simp add: bit_of_def and_exp_eq_0_iff_not_bit)
qed

definition set_bit_of :: "u8 list \<Rightarrow> nat \<Rightarrow> u8 list" where
  "set_bit_of d bi = d[bi div 8 := d ! (bi div 8) OR push_bit (bi mod 8) 1]"

lemma length_set_bit_of [simp]: "length (set_bit_of d bi) = length d"
  by (simp add: set_bit_of_def)

lemma bit_of_set:
  assumes "bi < 8 * length d" "j < 8 * length d"
  shows "bit_of (set_bit_of d bi) j = (j = bi \<or> bit_of d j)"
proof -
  have d: "bi div 8 < length d" using assms(1) by (simp add: less_mult_imp_div_less mult.commute)
  have m: "j mod 8 < 8" by simp
  have e: "j = bi \<longleftrightarrow> j div 8 = bi div 8 \<and> j mod 8 = bi mod 8" by (metis div_mult_mod_eq)
  show ?thesis
  proof (cases "j div 8 = bi div 8")
    case True
    then show ?thesis using d m e by (simp add: bit_of_bit set_bit_of_def bit_simps) auto
  next
    case False
    then show ?thesis using d e by (simp add: bit_of_bit set_bit_of_def)
  qed
qed

lemma BPB_pos: "BPB = 8192"
  by (simp add: BPB_def BSIZE_def)

lemma BBLOCK_div:
  assumes "c < 2 ^ 32"
  shows "BBLOCK (of_nat c) sb = of_nat (c div BPB) + sb_bmapstart sb"
proof -
  have "(of_nat c :: u32) div of_nat BPB = of_nat (c div BPB)"
    using assms by (simp add: word_unat_eq_iff unat_div BPB_pos unsigned_of_nat take_bit_nat_eq_self)
  then show ?thesis by (simp add: BBLOCK_def)
qed

lemma BBLOCK_eq:
  assumes "c < 2 ^ 32" "c' < 2 ^ 32"
  shows "BBLOCK (of_nat c) sb = BBLOCK (of_nat c') sb \<longleftrightarrow> c div BPB = c' div BPB"
proof -
  have "unat (of_nat (x div BPB) :: u32) = x div BPB" if "x < 2 ^ 32" for x
    by (rule unat_of_nat_u32) (use that in \<open>simp add: BPB_pos\<close>)
  then have "(of_nat (c div BPB) :: u32) = of_nat (c' div BPB) \<longleftrightarrow> c div BPB = c' div BPB" using assms by (metis)
  then show ?thesis unfolding BBLOCK_div [OF assms(1)] BBLOCK_div [OF assms(2)] by simp
qed

text \<open>The bitmap after a bit was set.\<close>

lemma allocated_set:
  assumes "b < 2 ^ 32" "c < 2 ^ 32" "length (V (BBLOCK (of_nat b) sb)) = BSIZE"
  shows "allocated (V(BBLOCK (of_nat b) sb := set_bit_of (V (BBLOCK (of_nat b) sb)) (b mod BPB))) sb c = (c = b \<or> allocated V sb c)"
proof (cases "c div BPB = b div BPB")
  case True
  then have e: "BBLOCK (of_nat c) sb = BBLOCK (of_nat b) sb" using BBLOCK_eq assms by blast
  have "c = b \<longleftrightarrow> c mod BPB = b mod BPB" using True by (metis div_mult_mod_eq)
  moreover have "c mod BPB < 8 * BSIZE" "b mod BPB < 8 * BSIZE" by (simp_all add: BPB_def BSIZE_def)
  ultimately show ?thesis by (simp add: allocated_def e bit_of_set assms(3))
next
  case False
  then have "BBLOCK (of_nat c) sb \<noteq> BBLOCK (of_nat b) sb" using BBLOCK_eq assms by blast
  moreover have "c \<noteq> b" using False by auto
  ultimately show ?thesis by (simp add: allocated_def)
qed

section \<open>balloc\<close>

text \<open>The round of \<open>balloc\<close> that starts at block \<open>k * BPB\<close> passes on, when all its blocks are in use; else it takes the first free one.\<close>

lemma free_bit_None:
  "free_bit d n = None \<longleftrightarrow> (\<forall>i < n. bit_of d i)"
  by (auto simp: free_bit_def find_None_iff)

lemma free_bit_Some:
  "i < n \<Longrightarrow> \<not> bit_of d i \<Longrightarrow> (\<And>j. j < i \<Longrightarrow> bit_of d j) \<Longrightarrow> free_bit d n = Some i"
  unfolding free_bit_def by (rule find_from) auto

text \<open>The blocks below \<open>b\<close> are in use and \<open>b\<close> is not; there is room in the log and in the cache, and the blocks can be read.\<close>

definition balloc_ready :: "'z fs_state_scheme \<Rightarrow> cabs \<Rightarrow> nat \<Rightarrow> bool" where
  "balloc_ready s A b \<longleftrightarrow> (let sb = fs_sb s in none_held A \<and> unat (sb_size sb) < 2 ^ 31 \<and> b < unat (sb_size sb) \<and>
     \<not> allocated (cv A) sb b \<and> (\<forall>c < b. allocated (cv A) sb c) \<and>
     (\<forall>c < unat (sb_size sb). can_read A (BBLOCK (of_nat c) sb) \<and> cr A (BBLOCK (of_nat c) sb) + 1 < 2 ^ 32 - 1 \<and> BBLOCK (of_nat c) sb \<noteq> of_nat b) \<and>
     can_read A (of_nat b) \<and> cr A (of_nat b) + 1 < 2 ^ 32 - 1 \<and> card {c. 0 < cr A c} + 1 < NBUF \<and> log_room 2 (lg s) A)"

definition balloc_abs :: "'z fs_state_scheme \<Rightarrow> nat \<Rightarrow> cabs \<Rightarrow> cabs" where
  "balloc_abs s b A = (let bm = BBLOCK (of_nat b) (fs_sb s); l = log_add bm (lg s) in
     a_upd (of_nat b) (replicate BSIZE 0) (of_nat b \<notin> set (homes l))
       (a_upd bm (set_bit_of (cv A bm) (b mod BPB)) (bm \<notin> set (homes (lg s))) A))"

definition balloc_log :: "'z fs_state_scheme \<Rightarrow> nat \<Rightarrow> log" where
  "balloc_log s b = log_add (of_nat b) (log_add (BBLOCK (of_nat b) (fs_sb s)) (lg s))"

lemma cached_sb: "cached p s A t \<Longrightarrow> fs_sb t = fs_sb s"
proof -
  assume "cached p s A t"
  then have "disk_state.more t = disk_state.more s" by (rule cachedD)
  then have "log_state.more t = log_state.more s" by (cases s; cases t) simp
  then show ?thesis by (cases s; cases t) simp
qed

lemma runs_get_sb [simp]: "runs (get_sb f) s P = P (f (fs_sb s)) s"
  by (simp add: get_sb_def)

lemma runs_balloc_skip:
  assumes c: "cached p s A t" and r: "balloc_ready s A b" and k: "Suc k * BPB \<le> b"
    and P: "\<And>u. cached p s A u \<Longrightarrow> P (Inl (of_nat (Suc k * BPB))) u"
  shows "runs (balloc_body ROOTDEV (of_nat (k * BPB))) t P"
proof -
  let ?sb = "fs_sb s" and ?K = "k * BPB"
  let ?bm = "BBLOCK (of_nat ?K) ?sb"
  note r = r [unfolded balloc_ready_def Let_def]
  have K: "?K < unat (sb_size ?sb)" "?K < 2 ^ 32" using k r by (auto simp: BPB_pos)
  have uK: "unat (of_nat ?K :: u32) = ?K" by (rule unat_of_nat_u32 [OF K(2)])
  have lt: "\<not> sb_size ?sb \<le> of_nat ?K" unfolding word_le_nat_alt uK using K(1) by simp
  have rd: "can_read A ?bm" "none_held A" using r K(1) by blast+
  have all: "bit_of (cv A ?bm) i" if "i < BPB" for i
  proof -
    have "allocated (cv A) ?sb (?K + i)" using r k that by simp
    moreover have "BBLOCK (of_nat (?K + i)) ?sb = ?bm" by (rule BBLOCK_eq [THEN iffD2]) (use r k that in \<open>simp_all add: BPB_pos\<close>)
    ultimately show ?thesis using that by (simp add: allocated_def BPB_pos)
  qed
  then have f: "free_bit (cv A ?bm) (min BPB (unat (sb_size ?sb) - ?K)) = None" by (simp add: free_bit_None)
  have st: "(of_nat ?K :: u32) + of_nat BPB = of_nat (Suc k * BPB)" by (simp add: algebra_simps)
  have "runs (bread ROOTDEV ?bm) t (\<lambda>bp u. b_data (bufs u bp) = cv A ?bm \<and> runs (brelse bp) u (\<lambda>_. P (Inl (of_nat (Suc k * BPB)))))"
  proof (rule runs_a_get [OF c rd(1)])
    fix bp u assume u: "cached p s (a_get ?bm bp (p_pid (procs s p)) A) u"
    have "b_data (bufs u bp) = cv A ?bm" using cached_data [OF u, of ?bm bp] by simp
    moreover have "runs (brelse bp) u (\<lambda>_. P (Inl (of_nat (Suc k * BPB))))" by (rule runs_put_back [OF c rd u]) (rule P)
    ultimately show "b_data (bufs u bp) = cv A ?bm \<and> runs (brelse bp) u (\<lambda>_. P (Inl (of_nat (Suc k * BPB))))" ..
  qed
  then show ?thesis unfolding balloc_body_def runs_kbind runs_get_sb cached_sb [OF c] if_not_P [OF lt] uK
    by (elim runs_mono) (simp add: f st del: of_nat_mult)
qed

lemma can_read_upd:
  assumes "can_read A b" "b \<noteq> bm" "card {c. 0 < cr A c} + 1 < NBUF"
  shows "can_read (a_upd bm d new A) b"
proof -
  have "card {c. 0 < cr (a_upd bm d new A) c} \<le> card (insert bm {c. 0 < cr A c})" by (rule card_mono) auto
  also have "\<dots> \<le> Suc (card {c. 0 < cr A c})" by (simp add: card_insert_if)
  finally show ?thesis using assms by (auto simp: can_read_def)
qed

lemma runs_balloc_take:
  assumes c: "cached p s A t" and r: "balloc_ready s A b" and k: "k = b div BPB"
    and P: "\<And>u. cached p (s\<lparr>lg := balloc_log s b\<rparr>) (balloc_abs s b A) u \<Longrightarrow> P (Inr (of_nat b)) u"
  shows "runs (balloc_body ROOTDEV (of_nat (k * BPB))) t P"
proof -
  let ?sb = "fs_sb s" and ?K = "k * BPB" and ?bi = "b mod BPB" and ?bm = "BBLOCK (of_nat b) (fs_sb s)"
  note r = r [unfolded balloc_ready_def Let_def]
  have bK: "b = ?K + ?bi" "?bi < BPB" using k by (simp_all add: BPB_pos)
  have b: "b < unat (sb_size ?sb)" "b < 2 ^ 32" "unat (sb_size ?sb) < 2 ^ 31" using r by auto
  have K: "?K < unat (sb_size ?sb)" "?K < 2 ^ 32" using b bK(1) by linarith+
  have uK: "unat (of_nat ?K :: u32) = ?K" by (rule unat_of_nat_u32 [OF K(2)])
  have lt: "\<not> sb_size ?sb \<le> of_nat ?K" unfolding word_le_nat_alt uK using K(1) by simp
  have bm: "BBLOCK (of_nat ?K) ?sb = ?bm" by (rule BBLOCK_eq [THEN iffD2]) (use K b k in \<open>simp_all add: BPB_pos\<close>)
  have f: "free_bit (cv A ?bm) (min BPB (unat (sb_size ?sb) - ?K)) = Some ?bi"
  proof (rule free_bit_Some)
    show "?bi < min BPB (unat (sb_size ?sb) - ?K)" using bK b by linarith
    show "\<not> bit_of (cv A ?bm) ?bi" using r by (simp add: allocated_def)
    fix j assume j: "j < ?bi"
    then have "allocated (cv A) ?sb (?K + j)" using r bK(1) by (metis nat_add_left_cancel_less)
    moreover have "BBLOCK (of_nat (?K + j)) ?sb = ?bm"
      by (rule BBLOCK_eq [THEN iffD2]) (use K b k j bK in \<open>simp_all add: BPB_pos\<close>)
    ultimately show "bit_of (cv A ?bm) j" using j bK(2) by (simp add: allocated_def BPB_pos)
  qed
  have w: "(of_nat ?K :: u32) + of_nat ?bi = of_nat b" using bK(1) by (metis of_nat_add)
  have rd: "can_read A ?bm" "none_held A" "cr A ?bm + 1 < 2 ^ 32 - 1" "?bm \<noteq> of_nat b" using r b(1) by blast+
  have l2: "log_room (Suc 1) (lg s) A" using r by (simp add: numeral_2_eq_2)
  let ?d = "set_bit_of (cv A ?bm) ?bi" and ?new = "?bm \<notin> set (homes (lg s))" and ?l = "log_add ?bm (lg s)"
  let ?A = "a_upd ?bm ?d ?new A"
  have bz: "runs (bzero ROOTDEV (of_nat b)) v (\<lambda>_. P (Inr (of_nat b)))" if v: "cached p (s\<lparr>lg := ?l\<rparr>) ?A v" for v
  proof (rule runs_bzero [OF v, where k = 0])
    show "can_read ?A (of_nat b)" using r rd(4) by (intro can_read_upd) auto
    show "none_held ?A" using rd(2) by simp
    show "log_room (Suc 0) (lg (s\<lparr>lg := ?l\<rparr>)) ?A" using log_room_upd [OF l2] by simp
    show "cr ?A (of_nat b) + 1 < 2 ^ 32 - 1" using r not_sym [OF rd(4)] by simp
    fix x assume "cached p (s\<lparr>lg := ?l, lg := log_add (of_nat b) (lg (s\<lparr>lg := ?l\<rparr>))\<rparr>)
      (a_upd (of_nat b) (replicate BSIZE 0) (of_nat b \<notin> set (homes (lg (s\<lparr>lg := ?l\<rparr>)))) ?A) x"
    then show "P (Inr (of_nat b)) x" by (intro P) (simp add: balloc_log_def balloc_abs_def Let_def)
  qed
  have "runs (bread ROOTDEV ?bm) t (\<lambda>bp u. b_data (bufs u bp) = cv A ?bm \<and> runs (kthen (store_data bp ?d) (kthen (log_write bp) (brelse bp))) u
      (\<lambda>_ v. runs (bzero ROOTDEV (of_nat b)) v (\<lambda>_. P (Inr (of_nat b)))))"
  proof (rule runs_a_get [OF c rd(1)])
    fix bp u assume u: "cached p s (a_get ?bm bp (p_pid (procs s p)) A) u"
    have d: "b_data (bufs u bp) = cv A ?bm" "length (cv A ?bm) = BSIZE" using cached_data [OF u, of ?bm bp] by simp_all
    have "runs (kthen (store_data bp ?d) (kthen (log_write bp) (brelse bp))) u (\<lambda>_ v. runs (bzero ROOTDEV (of_nat b)) v (\<lambda>_. P (Inr (of_nat b))))"
      by (rule runs_logged_store [OF c rd(1,2) l2 rd(3) _ u]) (use d(2) bz in simp_all)
    then show "b_data (bufs u bp) = cv A ?bm \<and> runs (kthen (store_data bp ?d) (kthen (log_write bp) (brelse bp))) u
      (\<lambda>_ v. runs (bzero ROOTDEV (of_nat b)) v (\<lambda>_. P (Inr (of_nat b))))" using d(1) by simp
  qed
  then show ?thesis unfolding balloc_body_def runs_kbind runs_get_sb cached_sb [OF c] if_not_P [OF lt] uK bm
    by (elim runs_mono) (simp add: f w set_bit_of_def del: of_nat_mult of_nat_mod)
qed

lemma runs_balloc:
  assumes c: "cached p s A t" and r: "balloc_ready s A b"
    and P: "\<And>u. cached p (s\<lparr>lg := balloc_log s b\<rparr>) (balloc_abs s b A) u \<Longrightarrow> P (of_nat b) u"
  shows "runs (balloc ROOTDEV) t P"
proof -
  have b: "b < 2 ^ 31" using r by (auto simp: balloc_ready_def Let_def)
  have loop: "runs (kloop (m + Suc f) (balloc_body ROOTDEV) (of_nat ((b div BPB - m) * BPB))) t P"
    if "m \<le> b div BPB" "cached p s A t" for m f t
    using that
  proof (induction m arbitrary: t)
    case 0
    have "runs (balloc_body ROOTDEV (of_nat (b div BPB * BPB))) t (\<lambda>r u. case r of Inl l \<Rightarrow> runs (kloop f (balloc_body ROOTDEV) l) u P | Inr x \<Rightarrow> P x u)"
      by (rule runs_balloc_take [OF 0(2) r refl]) (simp add: P)
    then show ?case by (simp cong: sum.case_cong del: of_nat_mult)
  next
    case (Suc m)
    let ?k = "b div BPB - Suc m"
    have k: "Suc ?k = b div BPB - m" using Suc.prems(1) by simp
    then have "Suc ?k * BPB \<le> b" by (metis diff_le_self div_times_less_eq_dividend le_trans mult_le_mono1)
    then have "runs (balloc_body ROOTDEV (of_nat (?k * BPB))) t
        (\<lambda>r u. case r of Inl l \<Rightarrow> runs (kloop (m + Suc f) (balloc_body ROOTDEV) l) u P | Inr x \<Rightarrow> P x u)"
      by (rule runs_balloc_skip [OF Suc.prems(2) r]) (use Suc.IH Suc.prems(1) in \<open>simp add: k del: of_nat_mult\<close>)
    then show ?case by (simp cong: sum.case_cong del: of_nat_mult)
  qed
  have "b div BPB \<le> 2 ^ 19" using b by (simp add: BPB_pos)
  then have "b div BPB + Suc (2 ^ 19 - b div BPB) = 2 ^ 19 + 1" by simp
  then show ?thesis using loop [OF order_refl c, of "2 ^ 19 - b div BPB"] by (simp only: balloc_def) simp
qed

section \<open>Properties\<close>

text \<open>C9: \<open>balloc\<close> hands out a block nobody uses. In a transaction with room for two more blocks, it returns the
  first block whose bit in the bitmap is clear, also beyond the first bitmap block. Afterwards exactly this bit is set in addition,
  the block reads as zeroes, no other block has changed, the disk has not changed, and the bitmap block and the new
  block belong to the transaction.\<close>

theorem balloc_allocates:
  assumes "bc_ready p s" and "balloc_ready s (cabs_of s) b"
  shows "runs (balloc ROOTDEV) s (\<lambda>r t. r = of_nat b \<and>
    (\<forall>c < unat (sb_size (fs_sb s)). allocated (view t) (fs_sb s) c = (c = b \<or> allocated (view s) (fs_sb s) c)) \<and>
    view t (of_nat b) = replicate BSIZE 0 \<and>
    (\<forall>bn. bn \<noteq> of_nat b \<and> bn \<noteq> BBLOCK (of_nat b) (fs_sb s) \<longrightarrow> view t bn = view s bn) \<and> disk t = disk s \<and>
    set (homes (lg t)) = insert (of_nat b) (insert (BBLOCK (of_nat b) (fs_sb s)) (set (homes (lg s)))))"
proof (rule runs_balloc [OF cached_start [OF assms(1)] assms(2)])
  let ?sb = "fs_sb s" and ?bm = "BBLOCK (of_nat b) (fs_sb s)"
  let ?V = "(view s)(?bm := set_bit_of (view s ?bm) (b mod BPB))"
  fix u assume u: "cached p (s\<lparr>lg := balloc_log s b\<rparr>) (balloc_abs s b (cabs_of s)) u"
  note r = assms(2) [unfolded balloc_ready_def Let_def]
  have b: "b < unat (sb_size ?sb)" "unat (sb_size ?sb) < 2 ^ 31" using r by auto
  have ne: "BBLOCK (of_nat c) ?sb \<noteq> of_nat b" if "c < unat (sb_size ?sb)" for c using r that by blast
  have v: "view u = ?V(of_nat b := replicate BSIZE 0)" "disk u = disk s"
    using u by (simp_all add: cached_def balloc_abs_def cabs_of_def Let_def)
  have "can_read (cabs_of s) ?bm" using r b(1) by blast
  then have "length (view s ?bm) = BSIZE"
    using cached_len [OF cached_start [OF assms(1)], of ?bm] by (simp add: can_read_def cabs_of_def)
  then have al: "allocated ?V ?sb c = (c = b \<or> allocated (view s) ?sb c)" if "c < unat (sb_size ?sb)" for c
    by (intro allocated_set) (use that b in auto)
  have a: "allocated (view u) ?sb c = allocated ?V ?sb c" if "c < unat (sb_size ?sb)" for c
    unfolding v allocated_def using ne [OF that] by simp
  have n: "0 \<le> lh_n (lg_lh (lg s))" using r by (simp add: log_room_def)
  have n1: "0 \<le> lh_n (lg_lh (log_add ?bm (lg s)))" using n by (simp add: log_add_def Let_def)
  have "set (homes (lg u)) = insert (of_nat b) (insert ?bm (set (homes (lg s))))"
    using cached_lg [OF u] homes_log_add [OF n, of ?bm] homes_log_add [OF n1, of "of_nat b"] by (auto simp: balloc_log_def)
  then show "of_nat b = of_nat b \<and> (\<forall>c < unat (sb_size ?sb). allocated (view u) ?sb c = (c = b \<or> allocated (view s) ?sb c)) \<and>
    view u (of_nat b) = replicate BSIZE 0 \<and> (\<forall>bn. bn \<noteq> of_nat b \<and> bn \<noteq> ?bm \<longrightarrow> view u bn = view s bn) \<and> disk u = disk s \<and>
    set (homes (lg u)) = insert (of_nat b) (insert ?bm (set (homes (lg s))))"
    using a al v by simp
qed

lemma demo_bitmap: "disk demo_fs 45 = replicate 5 255 @ 63 # replicate 1018 0"
  by (simp add: disk_def disk_of_def blk_def sector_of_def BSIZE_def demo_fs_def replicate_add [symmetric])

lemma demo_allocated:
  assumes "c < 2000"
  shows "BBLOCK (of_nat c) (fs_sb demo_fs) = 45" "allocated (view demo_fs) (fs_sb demo_fs) c \<longleftrightarrow> c < 46"
proof -
  have sb: "sb_bmapstart (fs_sb demo_fs) = 45" by (simp add: demo_fs_def)
  have c: "c div BPB = 0" "c mod BPB = c" "c < 2 ^ 32" using assms by (simp_all add: BPB_pos)
  show e: "BBLOCK (of_nat c) (fs_sb demo_fs) = 45" unfolding BBLOCK_div [OF c(3)] c(1) sb by simp
  have "bit (255 :: u8) j" if "j < 8" for j
  proof -
    have "(255 :: u8) = mask 8" by (simp add: mask_eq_exp_minus_1)
    then show ?thesis using that by (simp only: bit_mask_iff) simp
  qed
  moreover have "bit (63 :: u8) (c mod 8) \<longleftrightarrow> c mod 8 < 6"
  proof -
    have "(63 :: u8) = mask 6" by (simp add: mask_eq_exp_minus_1)
    then show ?thesis by (simp only: bit_mask_iff) simp
  qed
  moreover have "c < 46 \<longleftrightarrow> c div 8 < 5 \<or> c div 8 = 5 \<and> c mod 8 < 6" by presburger
  moreover have "c div 8 < 1024" using assms by simp
  ultimately show "allocated (view demo_fs) (fs_sb demo_fs) c \<longleftrightarrow> c < 46"
    unfolding allocated_def e c(2) demo_fs_abs(3) demo_bitmap by (auto simp: bit_of_bit nth_append nth_Cons' )
qed

theorem balloc_allocates_witness:
  "balloc_ready demo_fs (cabs_of demo_fs) 46 \<and>
   runs (balloc ROOTDEV) demo_fs (\<lambda>r t. r = 46 \<and> allocated (view t) (fs_sb demo_fs) 46 \<and> set (homes (lg t)) = {45, 46})"
proof -
  have f: "sb_size (fs_sb demo_fs) = 2000" "homes (lg demo_fs) = []" by (simp_all add: demo_fs_def homes_def)
  have m: "BBLOCK 46 (fs_sb demo_fs) = 45" using demo_allocated(1) [of 46] by simp
  have "can_read (cabs_of demo_fs) bn" if "bn < 2 ^ 31" for bn using that by (simp add: can_read_def cabs_of_def demo_fs_abs NBUF_def)
  then have r: "balloc_ready demo_fs (cabs_of demo_fs) 46"
    using demo_allocated
    by (auto simp: balloc_ready_def Let_def f cabs_of_def demo_fs_abs(1,2) log_room_def NBUF_def none_held_def) (simp_all add: demo_fs_def demo_lg_def)
  have "runs (balloc ROOTDEV) demo_fs (\<lambda>r t. r = 46 \<and> allocated (view t) (fs_sb demo_fs) 46 \<and> set (homes (lg t)) = {45, 46})"
    by (rule runs_mono [OF balloc_allocates [OF demo_fs_bc r]]) (auto simp: f m)
  then show ?thesis using r by blast
qed

end
