(* ===== verification/Xv6_Namei.thy ===== *)
theory Xv6_Namei
  imports Xv6_Balloc
begin

text \<open>
  The walk along a path: what \<open>skipelem\<close>, \<open>ilock\<close>, \<open>dirlookup\<close> and \<open>iunlockput\<close> do together in \<open>namex\<close> of
  kernel/fs.c (the definitions are in \<open>Xv6_Fs\<close>). The specification \<open>resolve\<close> follows the elements of the path
  through the directories on the disk; the lemmas carry the counts of references of the inode table, \<open>irefs\<close>,
  along.
\<close>

section \<open>Elements of a path\<close>

fun split_on :: "'a \<Rightarrow> 'a list \<Rightarrow> 'a list list" where
  "split_on c [] = [[]]"
| "split_on c (x # xs) = (if x = c then [] # split_on c xs else (x # hd (split_on c xs)) # tl (split_on c xs))"

definition elems :: "u8 list \<Rightarrow> u8 list list" where
  "elems pth = filter (\<lambda>e. e \<noteq> []) (split_on SLASH pth)"

lemma split_on_takeWhile:
  "split_on c xs = takeWhile (\<lambda>x. x \<noteq> c) xs # (case dropWhile (\<lambda>x. x \<noteq> c) xs of [] \<Rightarrow> [] | _ # ys \<Rightarrow> split_on c ys)"
  by (induction xs) auto

lemma elems_slash [simp]: "elems (SLASH # xs) = elems xs"
  by (simp add: elems_def)

lemma elems_skip: "elems (skip_slashes xs) = elems xs"
  by (induction xs) (auto simp: skip_slashes_def)

lemma elems_cases:
  assumes "xs \<noteq> []" "hd xs \<noteq> SLASH"
  shows "elems xs = takeWhile (\<lambda>x. x \<noteq> SLASH) xs # elems (dropWhile (\<lambda>x. x \<noteq> SLASH) xs)"
proof -
  define d where "d = dropWhile (\<lambda>x. x \<noteq> SLASH) xs"
  have "takeWhile (\<lambda>x. x \<noteq> SLASH) xs \<noteq> []" using assms by (cases xs) auto
  moreover have "hd d = SLASH" if "d \<noteq> []" using hd_dropWhile [of "\<lambda>x. x \<noteq> SLASH" xs] that by (simp add: d_def)
  ultimately show ?thesis
    unfolding elems_def split_on_takeWhile [of SLASH xs] d_def [symmetric] by (cases d) auto
qed

lemma elems_empty: "elems xs = [] \<longleftrightarrow> skip_slashes xs = []"
proof (cases "skip_slashes xs = []")
  case True
  then show ?thesis using elems_skip [of xs] by (simp add: elems_def)
next
  case False
  then have "hd (skip_slashes xs) \<noteq> SLASH" using hd_dropWhile [of "\<lambda>c. c = SLASH" xs] by (simp add: skip_slashes_def)
  then show ?thesis using False elems_cases [of "skip_slashes xs"] elems_skip [of xs] by simp
qed

lemma cstr_prefix:
  assumes "0 \<notin> set e" "\<And>i. i < min n (length e) \<Longrightarrow> f i = e ! i" "length e < n \<Longrightarrow> f (length e) = 0"
  shows "cstr n f = take n e"
proof (cases "length e < n")
  case True
  then have n: "[0..<n] = [0..<length e] @ length e # [Suc (length e)..<n]"
    using upt_add_eq_append [of 0 "length e" "n - length e"] by (simp add: upt_conv_Cons)
  have "map f [0..<length e] = e" using assms(2) True by (intro nth_equalityI) simp_all
  then show ?thesis using assms(1,3) True unfolding cstr_def n
    by (simp add: takeWhile_append)
next
  case False
  then have m: "map f [0..<n] = take n e" using assms(2) by (intro nth_equalityI) simp_all
  have "\<forall>x \<in> set (take n e). x \<noteq> 0" using assms(1) by (metis in_set_takeD)
  then show ?thesis unfolding cstr_def m by simp
qed

lemma skipelem_elems:
  assumes "0 \<notin> set pth"
  shows "elems pth = [] \<Longrightarrow> skipelem pth nm = None"
    "elems pth = e # es \<Longrightarrow> \<exists>pth' nm'. skipelem pth nm = Some (pth', nm') \<and> elems pth' = es \<and> (pth' = []) = (es = []) \<and>
       cstr DIRSIZ nm' = take DIRSIZ e \<and> 0 \<notin> set pth' \<and> length pth' < length pth"
proof -
  let ?s = "skip_slashes pth"
  show "elems pth = [] \<Longrightarrow> skipelem pth nm = None" by (simp add: elems_empty skipelem_def)
  assume e: "elems pth = e # es"
  then have ne: "?s \<noteq> []" using elems_empty [of pth] by auto
  then have h: "hd ?s \<noteq> SLASH" using hd_dropWhile [of "\<lambda>c. c = SLASH" pth] by (simp add: skip_slashes_def)
  let ?d = "dropWhile (\<lambda>c. c \<noteq> SLASH) ?s"
  have es: "e = takeWhile (\<lambda>c. c \<noteq> SLASH) ?s" "es = elems ?d"
    using e elems_cases [OF ne h] elems_skip [of pth] by simp_all
  have sub: "set ?s \<subseteq> set pth" "set ?d \<subseteq> set ?s" "set (skip_slashes ?d) \<subseteq> set ?d"
    by (auto simp: skip_slashes_def dest: set_dropWhileD)
  have z: "0 \<notin> set e" using assms sub(1) es(1) by (auto dest: set_takeWhileD)
  define nm' where "nm' = (if length e \<ge> DIRSIZ then (\<lambda>i. if i < DIRSIZ then e ! i else nm i)
        else (\<lambda>i. if i < length e then e ! i else if i = length e then 0 else nm i))"
  have "skipelem pth nm = Some (skip_slashes ?d, nm')" using ne by (simp add: skipelem_def Let_def nm'_def es(1) [symmetric])
  moreover have "cstr DIRSIZ nm' = take DIRSIZ e" by (rule cstr_prefix [OF z]) (auto simp: nm'_def)
  moreover have "elems (skip_slashes ?d) = es" using es(2) by (simp add: elems_skip)
  moreover have "(skip_slashes ?d = []) = (es = [])" using es(2) elems_empty [of ?d] by simp
  moreover have "0 \<notin> set (skip_slashes ?d)" using assms sub by blast
  moreover have "length (skip_slashes ?d) < length pth"
  proof -
    have "length (skip_slashes ?d) \<le> length ?d" by (simp add: skip_slashes_def length_dropWhile_le)
    also have "length ?d < length ?s" using ne h by (cases ?s) (auto simp: le_imp_less_Suc length_dropWhile_le)
    also have "length ?s \<le> length pth" by (simp add: skip_slashes_def length_dropWhile_le)
    finally show ?thesis .
  qed
  ultimately show "\<exists>pth' nm'. skipelem pth nm = Some (pth', nm') \<and> elems pth' = es \<and> (pth' = []) = (es = []) \<and>
       cstr DIRSIZ nm' = take DIRSIZ e \<and> 0 \<notin> set pth' \<and> length pth' < length pth" by blast
qed

section \<open>References to inodes\<close>

text \<open>The references the table has to inode \<open>n\<close>, and the number of its entries in use.\<close>

definition iref_at :: "inode \<Rightarrow> u32 \<Rightarrow> int" where
  "iref_at i n = (if i_dev i = ROOTDEV \<and> i_inum i = n then i_ref i else 0)"

definition irefs :: "(nat \<Rightarrow> inode) \<Rightarrow> u32 \<Rightarrow> int" where
  "irefs tab n = (\<Sum>i < NINODE. iref_at (tab i) n)"

definition in_use :: "(nat \<Rightarrow> inode) \<Rightarrow> nat set" where
  "in_use tab = {i. i < NINODE \<and> 0 < i_ref (tab i)}"

text \<open>The table holds inodes of the root device only.\<close>

definition one_device :: "(nat \<Rightarrow> inode) \<Rightarrow> bool" where
  "one_device tab \<longleftrightarrow> (\<forall>i \<in> in_use tab. i_dev (tab i) = ROOTDEV)"

lemma irefs_upd: "ip < NINODE \<Longrightarrow> irefs (tab(ip := x)) n = irefs tab n - iref_at (tab ip) n + iref_at x n"
proof -
  assume ip: "ip < NINODE"
  have "(\<Sum>i \<in> {..<NINODE} - {ip}. iref_at ((tab(ip := x)) i) n) = (\<Sum>i \<in> {..<NINODE} - {ip}. iref_at (tab i) n)"
    by (rule sum.cong) simp_all
  then show ?thesis unfolding irefs_def using ip by (simp add: sum.remove [of "{..<NINODE}" ip])
qed

lemma irefs_pos:
  assumes "itable_ok tab" "one_device tab"
  shows "0 < irefs tab n \<longleftrightarrow> (\<exists>i \<in> in_use tab. i_inum (tab i) = n)"
proof -
  have nn: "0 \<le> iref_at (tab i) n" if "i < NINODE" for i using assms(1) that by (simp add: itable_ok_def iref_at_def)
  then have "irefs tab n \<ge> 0" unfolding irefs_def by (intro sum_nonneg) simp
  then have "0 < irefs tab n \<longleftrightarrow> irefs tab n \<noteq> 0" by auto
  also have "\<dots> \<longleftrightarrow> (\<exists>i < NINODE. iref_at (tab i) n \<noteq> 0)" unfolding irefs_def using nn by (subst sum_nonneg_eq_0_iff) auto
  also have "\<dots> \<longleftrightarrow> (\<exists>i \<in> in_use tab. i_inum (tab i) = n)"
  proof
    assume "\<exists>i < NINODE. iref_at (tab i) n \<noteq> 0"
    then obtain i where i: "i < NINODE" "iref_at (tab i) n \<noteq> 0" by blast
    then have "0 < i_ref (tab i)" "i_inum (tab i) = n" using nn [of i] by (auto simp: iref_at_def split: if_splits)
    then show "\<exists>i \<in> in_use tab. i_inum (tab i) = n" using i(1) by (auto simp: in_use_def)
  qed (use assms(2) in \<open>auto simp: iref_at_def in_use_def one_device_def\<close>)
  finally show ?thesis .
qed

lemma card_in_use:
  assumes "itable_ok tab" "one_device tab"
  shows "card {n. 0 < irefs tab n} = card (in_use tab)" "finite {n. 0 < irefs tab n}"
proof -
  have e: "{n. 0 < irefs tab n} = (\<lambda>i. i_inum (tab i)) ` in_use tab" by (simp only: irefs_pos [OF assms]) blast
  have "inj_on (\<lambda>i. i_inum (tab i)) (in_use tab)"
  proof (rule inj_onI)
    fix i j assume ij: "i \<in> in_use tab" "j \<in> in_use tab" and n: "i_inum (tab i) = i_inum (tab j)"
    then have "i_dev (tab i) = i_dev (tab j)" using assms(2) by (simp add: one_device_def)
    then show "i = j" using assms(1) ij n unfolding itable_ok_def in_use_def mem_Collect_eq by metis
  qed
  then show "card {n. 0 < irefs tab n} = card (in_use tab)" unfolding e by (rule card_image)
  show "finite {n. 0 < irefs tab n}" unfolding e by (simp add: in_use_def)
qed

lemma room:
  assumes "itable_ok tab" "card (in_use tab) < NINODE"
  shows "iget_slot tab dev inum \<noteq> None"
proof -
  have "in_use tab \<noteq> {..<NINODE}" using assms(2) by (metis card_lessThan nat_neq_iff)
  then have "\<exists>i < NINODE. \<not> 0 < i_ref (tab i)" unfolding in_use_def by blast
  then obtain i where i: "i < NINODE" "\<not> 0 < i_ref (tab i)" by blast
  moreover have "0 \<le> i_ref (tab i)" using assms(1) i(1) by (simp add: itable_ok_def)
  ultimately have "i_ref (tab i) = 0" by simp
  then have "iget_empty tab \<noteq> None" using i(1) by (auto simp: iget_empty_def find_None_iff simp del: not_None_eq)
  then show ?thesis by (simp add: iget_slot_def split: option.split)
qed

lemma room_for_one:
  assumes "itable_ok tab" "one_device tab" "itable_ok tab0" "one_device tab0"
    and "irefs tab = (irefs tab0)(n := irefs tab0 n + 1)" "card (in_use tab0) + 2 \<le> NINODE"
  shows "iget_slot tab dev inum \<noteq> None"
proof (rule room [OF assms(1)])
  have "{m. 0 < irefs tab m} \<subseteq> insert n {m. 0 < irefs tab0 m}" unfolding assms(5) by auto
  then have "card {m. 0 < irefs tab m} \<le> card (insert n {m. 0 < irefs tab0 m})"
    using card_in_use(2) [OF assms(3,4)] by (intro card_mono) simp_all
  also have "\<dots> \<le> Suc (card {m. 0 < irefs tab0 m})" by (rule card_insert_le_m1) simp_all
  finally show "card (in_use tab) < NINODE" using assms(6) by (simp add: card_in_use(1) [OF assms(1,2)] card_in_use(1) [OF assms(3,4)])
qed

section \<open>Inodes on the disk\<close>

text \<open>The inode \<open>n\<close> the blocks \<open>V\<close> hold; an inode that is in use there; agreement with the copy in memory.\<close>

definition dinode :: "(u32 \<Rightarrow> u8 list) \<Rightarrow> superblock \<Rightarrow> u32 \<Rightarrow> inode" where
  "dinode V sb n = get_dinode (DI_SIZE * (unat n mod IPB)) (V (IBLOCK n sb))
     \<lparr>i_dev = ROOTDEV, i_inum = n, i_ref = 0, i_valid = 0, i_type = 0, i_major = 0, i_minor = 0, i_nlink = 0, i_size = 0, i_addrs = (\<lambda>_. 0)\<rparr>"

definition live :: "(u32 \<Rightarrow> u8 list) \<Rightarrow> superblock \<Rightarrow> u32 \<Rightarrow> bool" where
  "live V sb n \<longleftrightarrow> n \<noteq> 0 \<and> n < sb_ninodes sb \<and> i_type (dinode V sb n) \<noteq> 0"

definition same_file :: "inode \<Rightarrow> inode \<Rightarrow> bool" where
  "same_file i j \<longleftrightarrow> i_type i = i_type j \<and> i_major i = i_major j \<and> i_minor i = i_minor j \<and> i_nlink i = i_nlink j \<and> i_size i = i_size j \<and>
     (\<forall>k \<le> NDIRECT. i_addrs i k = i_addrs j k)"

definition in_sync :: "(u32 \<Rightarrow> u8 list) \<Rightarrow> superblock \<Rightarrow> (nat \<Rightarrow> inode) \<Rightarrow> bool" where
  "in_sync V sb tab \<longleftrightarrow> (\<forall>i \<in> in_use tab. i_valid (tab i) \<noteq> 0 \<longrightarrow> same_file (tab i) (dinode V sb (i_inum (tab i))))"

text \<open>A consistent file system: inodes in use can be read and are linked, directories are files of whole entries, and
  their entries name inodes in use.\<close>

definition tree_ok :: "cabs \<Rightarrow> superblock \<Rightarrow> bool" where
  "tree_ok A sb \<longleftrightarrow> (\<forall>n. live (cv A) sb n \<longrightarrow> (let i = dinode (cv A) sb n in can_read A (IBLOCK n sb) \<and> i_nlink i \<noteq> 0 \<and>
     (i_type i = T_DIR \<longrightarrow> unat (i_size i) < 2 ^ 31 \<and> 16 dvd unat (i_size i) \<and> file_mapped i A \<and>
       (\<forall>k < unat (i_size i) div 16. let m = de_inum (dirent (contents i (cv A)) k) in m \<noteq> 0 \<longrightarrow> live (cv A) sb (ucast m)))))"

text \<open>The inode the path leads to from inode \<open>n\<close>, or the directory of its last element.\<close>

fun resolve :: "(u32 \<Rightarrow> u8 list) \<Rightarrow> superblock \<Rightarrow> bool \<Rightarrow> u32 \<Rightarrow> u8 list list \<Rightarrow> u32 option" where
  "resolve V sb par n [] = (if par then None else Some n)"
| "resolve V sb par n (e # es) =
     (if i_type (dinode V sb n) \<noteq> T_DIR then None
      else if par \<and> es = [] then Some n
      else let d = contents (dinode V sb n) V in
        case dir_find d (take DIRSIZ e) of None \<Rightarrow> None | Some k \<Rightarrow> resolve V sb par (ucast (de_inum (dirent d k))) es)"

lemma same_file_contents:
  assumes "same_file i j"
  shows "contents i V = contents j V" "i_dev i = i_dev j \<Longrightarrow> file_mapped i A = file_mapped j A"
proof -
  have a: "addr_of i V = addr_of j V" for V using assms by (auto simp: addr_of_def same_file_def fun_eq_iff)
  have b: "file_blocks i = file_blocks j" "i_size i = i_size j" "i_addrs i NDIRECT = i_addrs j NDIRECT"
    using assms by (simp_all add: file_blocks_def same_file_def)
  show "contents i V = contents j V" "i_dev i = i_dev j \<Longrightarrow> file_mapped i A = file_mapped j A"
    by (simp_all add: contents_def file_mapped_def a b)
qed

lemma tree_okD:
  assumes "tree_ok A sb" "live (cv A) sb n"
  shows "can_read A (IBLOCK n sb)" "i_nlink (dinode (cv A) sb n) \<noteq> 0" "i_type (dinode (cv A) sb n) \<noteq> 0"
    "i_type (dinode (cv A) sb n) = T_DIR \<Longrightarrow> unat (i_size (dinode (cv A) sb n)) < 2 ^ 31 \<and> 16 dvd unat (i_size (dinode (cv A) sb n)) \<and>
       file_mapped (dinode (cv A) sb n) A"
    "i_type (dinode (cv A) sb n) = T_DIR \<Longrightarrow> k < unat (i_size (dinode (cv A) sb n)) div 16 \<Longrightarrow>
       de_inum (dirent (contents (dinode (cv A) sb n) (cv A)) k) \<noteq> 0 \<Longrightarrow>
       live (cv A) sb (ucast (de_inum (dirent (contents (dinode (cv A) sb n) (cv A)) k)))"
  using assms unfolding tree_ok_def Let_def live_def by blast+

section \<open>The state during a walk\<close>

text \<open>What a walk leaves alone: the blocks, the buffers and the locks.\<close>

definition stays :: "nat \<Rightarrow> 'z fs_state_scheme \<Rightarrow> 'z fs_state_scheme \<Rightarrow> bool" where
  "stays p s t \<longleftrightarrow> bc_ready p t \<and> view t = view s \<and> disk t = disk s \<and> refs t = refs s \<and> lock_pid t = lock_pid s \<and> fs_sb t = fs_sb s \<and>
     hw t = hw s \<and> wakes (procs s) (procs t) \<and> procs t p = procs s p"

lemma inodes_abs [simp]:
  "buf_of (t\<lparr>inodes := x\<rparr>) = buf_of t" "view (t\<lparr>inodes := x\<rparr>) = view t" "refs (t\<lparr>inodes := x\<rparr>) = refs t" "lock_pid (t\<lparr>inodes := x\<rparr>) = lock_pid t"
  "disk (t\<lparr>inodes := x\<rparr>) = disk t" "dtrace (t\<lparr>inodes := x\<rparr>) = dtrace t" "ctx (t\<lparr>inodes := x\<rparr>) = ctx t"
  "bcache_ok (t\<lparr>inodes := x\<rparr>) l = bcache_ok t l"
proof -
  show b: "buf_of (t\<lparr>inodes := x\<rparr>) = buf_of t" by (rule ext) (simp add: buf_of_def)
  show d: "disk (t\<lparr>inodes := x\<rparr>) = disk t" by (simp add: disk_def)
  show "view (t\<lparr>inodes := x\<rparr>) = view t" by (rule ext) (simp add: view_def b d split: option.split)
  show "refs (t\<lparr>inodes := x\<rparr>) = refs t" by (rule ext) (simp add: refs_def b split: option.split)
  show "lock_pid (t\<lparr>inodes := x\<rparr>) = lock_pid t" by (rule ext) (simp add: lock_pid_def b split: option.split)
  show "dtrace (t\<lparr>inodes := x\<rparr>) = dtrace t" by (simp add: dtrace_def)
  show "ctx (t\<lparr>inodes := x\<rparr>) = ctx t" by (rule ext) (simp add: ctx_def)
  show "bcache_ok (t\<lparr>inodes := x\<rparr>) l = bcache_ok t l" by (simp add: bcache_ok_def buf_ok_def disk_idle_def)
qed

lemma holding_block_inodes [simp]: "holding_block (t\<lparr>inodes := x\<rparr>) p c b = holding_block t p c b"
  by (simp add: holding_block_def)

lemma cached_set_inodes: "cached p s A t \<Longrightarrow> cached p (s\<lparr>inodes := x\<rparr>) A (t\<lparr>inodes := x\<rparr>)"
proof -
  have r: "rest (t\<lparr>inodes := x\<rparr>) = (rest t)\<lparr>inodes := x\<rparr>" for t :: "'a fs_state_scheme" by (cases t) (simp add: rest_def)
  show "cached p s A t \<Longrightarrow> cached p (s\<lparr>inodes := x\<rparr>) A (t\<lparr>inodes := x\<rparr>)"
    by (simp add: cached_def bc_ready_def io_def r)
qed

lemma bc_ready_inodes [simp]: "bc_ready p (t\<lparr>inodes := x\<rparr>) = bc_ready p t"
  by (simp add: bc_ready_def)

lemma slock_abs [simp]:
  fixes t :: "'z fs_state_scheme"
  assumes "\<And>b. lk \<noteq> LkBuf b"
  shows "view (t\<lparr>slocks := (slocks t)(lk := k)\<rparr>) = view t" "refs (t\<lparr>slocks := (slocks t)(lk := k)\<rparr>) = refs t"
    "lock_pid (t\<lparr>slocks := (slocks t)(lk := k)\<rparr>) = lock_pid t" "disk (t\<lparr>slocks := (slocks t)(lk := k)\<rparr>) = disk t"
    "bc_ready p (t\<lparr>slocks := (slocks t)(lk := k)\<rparr>) = bc_ready p t"
proof -
  let ?u = "t\<lparr>slocks := (slocks t)(lk := k)\<rparr>"
  have l: "LkBuf b \<noteq> lk" for b using assms [of b] by simp
  have b: "buf_of ?u = buf_of t" by (rule ext) (simp add: buf_of_def)
  show d: "disk ?u = disk t" by (simp add: disk_def)
  show "view ?u = view t" by (rule ext) (simp add: view_def b d split: option.split)
  show "refs ?u = refs t" by (rule ext) (simp add: refs_def b split: option.split)
  show "lock_pid ?u = lock_pid t" by (rule ext) (simp add: lock_pid_def b l split: option.split)
  have "bcache_ok ?u l = bcache_ok t l" for l by (simp add: bcache_ok_def buf_ok_def disk_idle_def \<open>\<And>b. LkBuf b \<noteq> lk\<close>)
  moreover have "ctx ?u p = ctx t p" by (simp add: ctx_def)
  ultimately show "bc_ready p ?u = bc_ready p t" by (simp add: bc_ready_def)
qed

lemma wake_abs:
  fixes t :: "'z fs_state_scheme"
  assumes "bc_ready p t"
  shows "view (t\<lparr>procs := wake_all (Some p) c (procs t)\<rparr>) = view t" "refs (t\<lparr>procs := wake_all (Some p) c (procs t)\<rparr>) = refs t"
    "lock_pid (t\<lparr>procs := wake_all (Some p) c (procs t)\<rparr>) = lock_pid t" "disk (t\<lparr>procs := wake_all (Some p) c (procs t)\<rparr>) = disk t"
    "bc_ready p (t\<lparr>procs := wake_all (Some p) c (procs t)\<rparr>)"
proof -
  let ?u = "t\<lparr>procs := wake_all (Some p) c (procs t)\<rparr>"
  have b: "buf_of ?u = buf_of t" by (rule ext) (simp add: buf_of_def)
  show d: "disk ?u = disk t" by (simp add: disk_def)
  show "view ?u = view t" by (rule ext) (simp add: view_def b d split: option.split)
  show "refs ?u = refs t" by (rule ext) (simp add: refs_def b split: option.split)
  show "lock_pid ?u = lock_pid t" by (rule ext) (simp add: lock_pid_def b split: option.split)
  have "bcache_ok ?u l = bcache_ok t l" for l by (simp add: bcache_ok_def buf_ok_def disk_idle_def)
  moreover have "ctx ?u p = ctx t p" by (simp add: ctx_def wake_all_me)
  ultimately show "bc_ready p ?u" using assms by (simp add: bc_ready_def)
qed

lemma staysI: "cached p s A t \<Longrightarrow> cv A = view s \<Longrightarrow> cd A = disk s \<Longrightarrow> cr A = refs s \<Longrightarrow> cl A = lock_pid s \<Longrightarrow> bc_ready p s \<Longrightarrow> stays p s t"
proof -
  assume c: "cached p s A t" and e: "cv A = view s" "cd A = disk s" "cr A = refs s" "cl A = lock_pid s" and b: "bc_ready p s"
  have "wakes (procs s) (procs t)" using ioD(12) cachedD(4) [OF c] by blast
  moreover have "p_state (procs s p) = RUNNING" using b by (simp add: bc_ready_def ctx_hart)
  ultimately have "procs t p = procs s p" by (auto simp: wakes_def)
  then show ?thesis using c e cachedD(1) [OF c] cached_sb [OF c] \<open>wakes (procs s) (procs t)\<close> by (simp add: stays_def cached_def)
qed

lemma stays_trans [trans]: "stays p s t \<Longrightarrow> stays p t u \<Longrightarrow> stays p s u"
  unfolding stays_def using wakes_trans by auto

lemma stays_upd:
  assumes "stays p s t"
  shows "stays p s (t\<lparr>inodes := x\<rparr>)" "stays p s (t\<lparr>slocks := (slocks t)(LkInode i := k)\<rparr>)"
    "stays p s (t\<lparr>procs := wake_all (Some p) c (procs t)\<rparr>)"
proof -
  have "wakes (procs t) (wake_all (Some p) c (procs t))" by (auto simp: wakes_def wake_all_def woken_def)
  then have "wakes (procs s) (wake_all (Some p) c (procs t))" using assms wakes_trans unfolding stays_def by blast
  then show "stays p s (t\<lparr>procs := wake_all (Some p) c (procs t)\<rparr>)" using assms by (simp add: stays_def wake_abs wake_all_me)
qed (use assms in \<open>simp_all add: stays_def\<close>)

section \<open>Holding a reference\<close>

text \<open>The table is in order and agrees with the disk. The walk has got to inode \<open>n\<close>, entry \<open>ip\<close> of the table: it has one
  reference to it, and with \<open>h\<close> the inode is locked and read.\<close>

definition itab_ok :: "(u32 \<Rightarrow> u8 list) \<Rightarrow> superblock \<Rightarrow> (nat \<Rightarrow> inode) \<Rightarrow> bool" where
  "itab_ok V sb tab \<longleftrightarrow> itable_ok tab \<and> one_device tab \<and> in_sync V sb tab"

definition ref_to :: "'z fs_state_scheme \<Rightarrow> u32 \<Rightarrow> nat \<Rightarrow> (nat \<Rightarrow> inode) \<Rightarrow> bool" where
  "ref_to s n ip tab \<longleftrightarrow> itab_ok (view s) (fs_sb s) tab \<and> ip \<in> in_use tab \<and> i_inum (tab ip) = n \<and>
     irefs tab = (irefs (inodes s))(n := irefs (inodes s) n + 1)"

definition locks_at :: "int \<Rightarrow> nat option \<Rightarrow> 'z fs_state_scheme \<Rightarrow> bool" where
  "locks_at pid h t \<longleftrightarrow> (\<forall>i < NINODE. if h = Some i then sk_locked (slocks t (LkInode i)) \<noteq> 0 \<and> sk_pid (slocks t (LkInode i)) = pid
     else sk_locked (slocks t (LkInode i)) = 0)"

definition at_inode :: "bool \<Rightarrow> nat \<Rightarrow> 'z fs_state_scheme \<Rightarrow> u32 \<Rightarrow> nat \<Rightarrow> 'z fs_state_scheme \<Rightarrow> bool" where
  "at_inode h p s n ip t \<longleftrightarrow> stays p s t \<and> ref_to s n ip (inodes t) \<and> locks_at (p_pid (procs s p)) (if h then Some ip else None) t \<and>
     (h \<longrightarrow> i_valid (inodes t ip) \<noteq> 0)"

lemma at_inodeD:
  assumes "at_inode h p s n ip t"
  shows "stays p s t" "bc_ready p t" "ctx t p" "itab_ok (view s) (fs_sb s) (inodes t)" "ip < NINODE" "0 < i_ref (inodes t ip)"
    "i_dev (inodes t ip) = ROOTDEV" "i_inum (inodes t ip) = n" "irefs (inodes t) = (irefs (inodes s))(n := irefs (inodes s) n + 1)"
    "view t = view s" "fs_sb t = fs_sb s" "p_pid (procs t p) = p_pid (procs s p)"
  using assms by (auto simp: at_inode_def ref_to_def itab_ok_def one_device_def in_use_def stays_def bc_ready_def)

lemma get_dinode_same:
  "same_file (get_dinode (DI_SIZE * (unat n mod IPB)) (V (IBLOCK n sb)) i) (dinode V sb n)"
  by (simp add: same_file_def dinode_def get_dinode_def)

lemma get_dinode_keeps [simp]:
  "i_dev (get_dinode off d i) = i_dev i" "i_inum (get_dinode off d i) = i_inum i" "i_ref (get_dinode off d i) = i_ref i"
  by (simp_all add: get_dinode_def)

text \<open>Changing an entry but not whose reference it is.\<close>

lemma same_refs:
  assumes "i_dev x = i_dev (tab ip)" "i_inum x = i_inum (tab ip)" "i_ref x = i_ref (tab ip)"
  shows "irefs (tab(ip := x)) = irefs tab" "in_use (tab(ip := x)) = in_use tab" "itable_ok (tab(ip := x)) = itable_ok tab"
    "one_device (tab(ip := x)) = one_device tab"
proof -
  show "irefs (tab(ip := x)) = irefs tab"
    unfolding irefs_def by (rule ext, rule sum.cong) (auto simp: iref_at_def assms)
  show u: "in_use (tab(ip := x)) = in_use tab" by (auto simp: in_use_def assms)
  have f: "i_dev ((tab(ip := x)) i) = i_dev (tab i)" "i_inum ((tab(ip := x)) i) = i_inum (tab i)" "i_ref ((tab(ip := x)) i) = i_ref (tab i)" for i
    by (simp_all add: assms)
  show "itable_ok (tab(ip := x)) = itable_ok tab" "one_device (tab(ip := x)) = one_device tab"
    unfolding itable_ok_def one_device_def u f by (rule refl)+
qed

lemma ref_to_upd:
  assumes "ref_to s n ip tab" "i_dev x = i_dev (tab ip)" "i_inum x = i_inum (tab ip)" "i_ref x = i_ref (tab ip)"
    and "i_valid x \<noteq> 0 \<Longrightarrow> same_file x (dinode (view s) (fs_sb s) n)"
  shows "ref_to s n ip (tab(ip := x))"
proof -
  note r = same_refs [of x tab ip, OF assms(2-4)]
  have "in_sync (view s) (fs_sb s) (tab(ip := x))"
    using assms(1,3,5) unfolding in_sync_def r ref_to_def itab_ok_def by simp
  then show ?thesis using assms(1,3) unfolding ref_to_def itab_ok_def r by simp
qed

lemma runs_set_inode [simp]: "runs (set_inode ip f) s P = P () (s\<lparr>inodes := (inodes s)(ip := f (inodes s ip))\<rparr>)"
  by (simp add: set_inode_def)

lemma locks_at_upd [simp]: "locks_at pid h (t\<lparr>inodes := x\<rparr>) = locks_at pid h t" "locks_at pid h (t\<lparr>procs := y\<rparr>) = locks_at pid h t"
  by (simp_all add: locks_at_def)

lemma cached_slocks: "cached p s A t \<Longrightarrow> slocks t (LkInode i) = slocks s (LkInode i)"
  by (simp add: cached_def io_def)

lemma runs_ilock:
  assumes a: "at_inode False p s n ip t" and tree: "tree_ok (cabs_of s) (fs_sb s)" "live (view s) (fs_sb s) n"
    and P: "\<And>u. at_inode True p s n ip u \<Longrightarrow> P () u"
  shows "runs (ilock ip) t P"
proof -
  note d = at_inodeD [OF a]
  let ?k = "(slocks t (LkInode ip))\<lparr>sk_locked := 1, sk_pid := p_pid (procs t p)\<rparr>"
  define t1 where "t1 = t\<lparr>slocks := (slocks t)(LkInode ip := ?k)\<rparr>"
  have l: "sk_locked (slocks t (LkInode ip)) = 0" using a d(5) by (simp add: at_inode_def locks_at_def)
  have l1: "locks_at (p_pid (procs s p)) (Some ip) t1" using a d(12) by (auto simp: at_inode_def locks_at_def t1_def)
  have s1: "stays p s t1" unfolding t1_def by (rule stays_upd(2) [OF d(1)])
  have i1: "inodes t1 = inodes t" "fs_sb t1 = fs_sb s" using d(11) by (simp_all add: t1_def)
  have r1: "ref_to s n ip (inodes t1)" using a by (simp add: at_inode_def i1)
  have lock: "runs (acquiresleep (LkInode ip)) t Q = Q () t1" for Q
    unfolding t1_def by (rule runs_acquiresleep [OF ctx_sl_idle [OF d(3)] ctx_hart(6) [OF d(3)] l]) simp
  show ?thesis
  proof (cases "i_valid (inodes t ip) = 0")
    case False
    then have "at_inode True p s n ip t1" using s1 r1 l1 by (simp add: at_inode_def i1)
    then show ?thesis using P False d(6) by (simp add: ilock_def lock i1)
  next
    case True
    let ?A = "cabs_of t1" and ?bn = "IBLOCK n (fs_sb s)"
    let ?x = "get_dinode (DI_SIZE * (unat n mod IPB)) (view s ?bn) (inodes t ip)"
    have b1: "bc_ready p t1" "view t1 = view s" using s1 by (simp_all add: stays_def)
    have c: "cached p t1 ?A t1" using b1(1) by (rule cached_start)
    have cr: "can_read ?A ?bn" using tree_okD(1) [OF tree(1), of n] tree(2) s1 by (simp add: cabs_of_def stays_def can_read_def)
    have ty: "i_type ?x \<noteq> 0" using tree(2) by (simp add: live_def dinode_def get_dinode_def)
    have "runs (bread ROOTDEV ?bn) t1 (\<lambda>bp u. runs (kbind (get_buf bp b_data) (\<lambda>d.
       kthen (set_inode ip (get_dinode (DI_SIZE * (unat n mod IPB)) d)) (
       kthen (brelse bp) (
       kthen (set_inode ip (\<lambda>i. i\<lparr>i_valid := 1\<rparr>)) (
       kbind (get_inode ip i_type) (\<lambda>ty.
       kwhen (ty = 0) (panic ''ilock: no type''))))))) u P)"
    proof (rule runs_a_get [OF c cr])
      fix b u assume u: "cached p t1 (a_get ?bn b (p_pid (procs t1 p)) ?A) u"
      let ?tab = "(inodes t)(ip := ?x)"
      have dat: "b_data (bufs u b) = view s ?bn" using cached_data [OF u, of ?bn b] b1(2) by (simp add: cabs_of_def)
      have iu: "inodes u = inodes t" using cached_inodes [OF u] i1(1) by simp
      have "runs (brelse b) (u\<lparr>inodes := ?tab\<rparr>) (\<lambda>_ v. P () (v\<lparr>inodes := (inodes v)(ip := (inodes v ip)\<lparr>i_valid := 1\<rparr>)\<rparr>) \<and> i_type (inodes v ip) \<noteq> 0)"
      proof (rule runs_put_back [OF cached_set_inodes [OF c] cr none_held_cabs_of])
        show "cached p (t1\<lparr>inodes := ?tab\<rparr>) (a_get ?bn b (p_pid (procs (t1\<lparr>inodes := ?tab\<rparr>) p)) ?A) (u\<lparr>inodes := ?tab\<rparr>)"
          using cached_set_inodes [OF u] by simp
        fix v assume v: "cached p (t1\<lparr>inodes := ?tab\<rparr>) ?A v"
        have iv: "inodes v = ?tab" using cached_inodes [OF v] by simp
        let ?v = "v\<lparr>inodes := (inodes v)(ip := (inodes v ip)\<lparr>i_valid := 1\<rparr>)\<rparr>"
        have "stays p s (t1\<lparr>inodes := ?tab\<rparr>)" by (rule stays_upd(1) [OF s1])
        also have "stays p (t1\<lparr>inodes := ?tab\<rparr>) v" by (rule staysI [OF v]) (use b1 in \<open>simp_all add: cabs_of_def\<close>)
        finally have "stays p s ?v" by (rule stays_upd(1))
        moreover have "ref_to s n ip (inodes ?v)" unfolding iv
          by simp (rule ref_to_upd [of _ _ _ "inodes t"], use r1 i1 get_dinode_same [of n "view s" "fs_sb s"] in \<open>simp_all add: same_file_def\<close>)
        moreover have "locks_at (p_pid (procs s p)) (Some ip) ?v" using l1 cached_slocks [OF v] by (simp add: locks_at_def)
        ultimately have "at_inode True p s n ip ?v" by (simp add: at_inode_def)
        then show "P () ?v \<and> i_type (inodes v ip) \<noteq> 0" using P ty by (simp add: iv)
      qed
      then show "runs (kbind (get_buf b b_data) (\<lambda>d.
         kthen (set_inode ip (get_dinode (DI_SIZE * (unat n mod IPB)) d)) (
         kthen (brelse b) (
         kthen (set_inode ip (\<lambda>i. i\<lparr>i_valid := 1\<rparr>)) (
         kbind (get_inode ip i_type) (\<lambda>ty.
         kwhen (ty = 0) (panic ''ilock: no type''))))))) u P"
        by (simp add: dat iu) (erule runs_mono, simp)
    qed
    then show ?thesis using True d(6-8) by (simp add: ilock_def lock i1)
  qed
qed

lemma ref_put:
  assumes "itab_ok V sb tab" "ip \<in> in_use tab"
  defines "tab' \<equiv> tab(ip := (tab ip)\<lparr>i_ref := i_ref (tab ip) - 1\<rparr>)"
  shows "itab_ok V sb tab'" "irefs tab' = (irefs tab)(i_inum (tab ip) := irefs tab (i_inum (tab ip)) - 1)"
proof -
  have ip: "ip < NINODE" "0 < i_ref (tab ip)" "i_dev (tab ip) = ROOTDEV"
    using assms(1,2) by (auto simp: in_use_def itab_ok_def one_device_def)
  have f: "i_dev (tab' i) = i_dev (tab i)" "i_inum (tab' i) = i_inum (tab i)" "i_valid (tab' i) = i_valid (tab i)" "i_ref (tab' i) \<le> i_ref (tab i)"
    "same_file (tab' i) d = same_file (tab i) d" for i d by (simp_all add: tab'_def same_file_def)
  have sub: "in_use tab' \<subseteq> in_use tab" using f(4) by (auto simp: in_use_def intro: less_le_trans)
  have nn: "0 \<le> i_ref (tab' i)" if "i < NINODE" for i using assms(1) that ip by (auto simp: tab'_def itab_ok_def itable_ok_def)
  have "i = j" if "i < NINODE" "j < NINODE" "0 < i_ref (tab' i)" "0 < i_ref (tab' j)" "i_dev (tab i) = i_dev (tab j)" "i_inum (tab i) = i_inum (tab j)" for i j
    using assms(1) that f(4) [of i] f(4) [of j] unfolding itab_ok_def itable_ok_def by (meson less_le_trans)
  then have "itable_ok tab'" unfolding itable_ok_def f using nn by blast
  moreover have "one_device tab'" using assms(1) sub f unfolding itab_ok_def one_device_def by auto
  moreover have "in_sync V sb tab'" using assms(1) sub f unfolding itab_ok_def in_sync_def by auto
  ultimately show "itab_ok V sb tab'" by (simp add: itab_ok_def)
  show "irefs tab' = (irefs tab)(i_inum (tab ip) := irefs tab (i_inum (tab ip)) - 1)"
    using ip by (auto simp: tab'_def irefs_upd iref_at_def)
qed

lemma ref_get:
  assumes "itab_ok V sb tab" "iget_slot tab ROOTDEV n = Some ip"
  defines "tab' \<equiv> tab(ip := igot tab ROOTDEV n ip)"
  shows "itab_ok V sb tab'" "irefs tab' = (irefs tab)(n := irefs tab n + 1)" "ip \<in> in_use tab'" "i_inum (tab' ip) = n"
    "i \<in> in_use tab \<Longrightarrow> i \<in> in_use tab' \<and> i_inum (tab' i) = i_inum (tab i) \<and> i_valid (tab' i) = i_valid (tab i)"
proof -
  note r = iget_slot_range [OF assms(2)]
  have t: "itable_ok tab" "one_device tab" "in_sync V sb tab" using assms(1) by (simp_all add: itab_ok_def)
  note g = igot_ok [OF t(1) assms(2)]
  have ref: "0 \<le> i_ref (tab ip)" using t(1) r(1) by (simp add: itable_ok_def)
  show ip: "ip \<in> in_use tab'" "i_inum (tab' ip) = n" using g(3,4) r(1) ref by (simp_all add: tab'_def in_use_def)
  have u: "i \<in> in_use tab \<or> i = ip" if "i \<in> in_use tab'" for i using that by (auto simp: tab'_def in_use_def split: if_splits)
  have one: "one_device tab'" using t(2) u g(2) unfolding one_device_def by (auto simp: tab'_def)
  have "i_valid (tab' ip) = 0 \<or> ip \<in> in_use tab \<and> i_valid (tab' ip) = i_valid (tab ip) \<and> i_inum (tab' ip) = i_inum (tab ip) \<and>
    same_file (tab' ip) = same_file (tab ip)"
    using r by (auto simp: tab'_def igot_def in_use_def same_file_def fun_eq_iff)
  moreover have "tab' i = tab i" if "i \<noteq> ip" for i using that by (simp add: tab'_def)
  ultimately have "in_sync V sb tab'" using t(3) u unfolding in_sync_def by metis
  then show "itab_ok V sb tab'" using g(1) one by (simp add: itab_ok_def tab'_def)
  have "iref_at (tab ip) m = (if m = n then i_ref (tab ip) else 0)" for m using r(2) by (auto simp: iref_at_def)
  moreover have "iref_at (igot tab ROOTDEV n ip) m = (if m = n then i_ref (tab ip) + 1 else 0)" for m using g by (auto simp: iref_at_def)
  ultimately show "irefs tab' = (irefs tab)(n := irefs tab n + 1)" using r(1) by (auto simp: tab'_def irefs_upd)
  show "i \<in> in_use tab \<Longrightarrow> i \<in> in_use tab' \<and> i_inum (tab' i) = i_inum (tab i) \<and> i_valid (tab' i) = i_valid (tab i)"
    using r by (auto simp: tab'_def in_use_def igot_def)
qed

section \<open>Letting go\<close>

definition let_go :: "nat \<Rightarrow> 'z fs_state_scheme \<Rightarrow> 'z fs_state_scheme \<Rightarrow> bool" where
  "let_go p s t \<longleftrightarrow> stays p s t \<and> itab_ok (view s) (fs_sb s) (inodes t) \<and> irefs (inodes t) = irefs (inodes s) \<and>
     locks_at (p_pid (procs s p)) None t"

lemma runs_iunlock:
  assumes "stays p s t" "ip \<in> in_use (inodes t)" "locks_at (p_pid (procs s p)) (Some ip) t"
    and P: "\<And>u. stays p s u \<Longrightarrow> inodes u = inodes t \<Longrightarrow> locks_at (p_pid (procs s p)) None u \<Longrightarrow> P () u"
  shows "runs (iunlock ip) t P"
proof -
  have c: "ctx t p" "procs t p = procs s p" using assms(1) by (simp_all add: stays_def bc_ready_def)
  have ip: "ip < NINODE" "0 < i_ref (inodes t ip)" using assms(2) by (simp_all add: in_use_def)
  have i: "sl_idle (hw t) (LkInode ip)" by (rule ctx_sl_idle [OF c(1)]) simp
  let ?k = "(slocks t (LkInode ip))\<lparr>sk_locked := 0, sk_pid := 0\<rparr>"
  let ?u = "t\<lparr>slocks := (slocks t)(LkInode ip := ?k)\<rparr>"
  let ?v = "?u\<lparr>procs := wake_all (Some p) (sl_chan (LkInode ip)) (procs ?u)\<rparr>"
  have "stays p s ?v" by (intro stays_upd assms(1))
  moreover have "locks_at (p_pid (procs s p)) None ?v" using assms(3) by (auto simp: locks_at_def)
  ultimately have "P () ?v" by (intro P) simp_all
  moreover have "sk_locked (slocks t (LkInode ip)) \<noteq> 0" "sk_pid (slocks t (LkInode ip)) = p_pid (procs t p)"
    using assms(3) ip(1) c(2) by (auto simp: locks_at_def)
  ultimately show ?thesis using ip(2)
    by (simp add: iunlock_def runs_holdingsleep [OF i ctx_hart(6) [OF c(1)]] runs_releasesleep [OF i] ctx_hart(6) [OF c(1)])
qed

lemma runs_iput:
  assumes "stays p s t" "i_valid (inodes t ip) \<noteq> 0 \<longrightarrow> i_nlink (inodes t ip) \<noteq> 0"
    and P: "P () (t\<lparr>inodes := (inodes t)(ip := (inodes t ip)\<lparr>i_ref := i_ref (inodes t ip) - 1\<rparr>)\<rparr>)"
  shows "runs (iput ip) t P"
proof -
  have "ctx t p" using assms(1) by (simp add: stays_def bc_ready_def)
  then show ?thesis using assms(2) P by (auto simp: iput_def ctx_hart)
qed

lemma runs_iunlockput:
  assumes s: "stays p s t" and tab: "itab_ok (view s) (fs_sb s) (inodes t)" "ip \<in> in_use (inodes t)" "i_valid (inodes t ip) \<noteq> 0"
    and n: "i_nlink (dinode (view s) (fs_sb s) (i_inum (inodes t ip))) \<noteq> 0" and l: "locks_at (p_pid (procs s p)) (Some ip) t"
    and P: "\<And>u. stays p s u \<Longrightarrow> inodes u = (inodes t)(ip := (inodes t ip)\<lparr>i_ref := i_ref (inodes t ip) - 1\<rparr>) \<Longrightarrow>
      locks_at (p_pid (procs s p)) None u \<Longrightarrow> P () u"
  shows "runs (iunlockput ip) t P"
proof -
  have "i_nlink (inodes t ip) \<noteq> 0" using tab n by (auto simp: itab_ok_def in_sync_def same_file_def)
  note n = this
  show ?thesis unfolding iunlockput_def runs_kthen
  proof (rule runs_iunlock [OF s tab(2) l])
    fix u assume u: "stays p s u" "inodes u = inodes t" "locks_at (p_pid (procs s p)) None u"
    show "runs (iput ip) u P" by (rule runs_iput [OF u(1)]) (use u n in \<open>auto intro!: P stays_upd\<close>)
  qed
qed

lemma runs_let_go:
  assumes a: "at_inode True p s n ip t" and tree: "tree_ok (cabs_of s) (fs_sb s)" "live (view s) (fs_sb s) n"
    and P: "\<And>u. let_go p s u \<Longrightarrow> P () u"
  shows "runs (iunlockput ip) t P"
proof (rule runs_iunlockput)
  note d = at_inodeD [OF a]
  show "stays p s t" "itab_ok (view s) (fs_sb s) (inodes t)" by (rule d)+
  show ip: "ip \<in> in_use (inodes t)" using d by (simp add: in_use_def)
  show "i_valid (inodes t ip) \<noteq> 0" "locks_at (p_pid (procs s p)) (Some ip) t" using a by (simp_all add: at_inode_def)
  show "i_nlink (dinode (view s) (fs_sb s) (i_inum (inodes t ip))) \<noteq> 0"
    using tree_okD(2) [OF tree(1), of n] tree(2) d(8) by (simp add: cabs_of_def)
  fix u assume u: "stays p s u" "inodes u = (inodes t)(ip := (inodes t ip)\<lparr>i_ref := i_ref (inodes t ip) - 1\<rparr>)" "locks_at (p_pid (procs s p)) None u"
  show "P () u" using ref_put [OF d(4) ip] d(8,9) u by (intro P) (simp add: let_go_def)
qed

lemma runs_drop:
  assumes a: "at_inode False p s n ip t" and tree: "tree_ok (cabs_of s) (fs_sb s)" "live (view s) (fs_sb s) n"
    and P: "\<And>u. let_go p s u \<Longrightarrow> P () u"
  shows "runs (iput ip) t P"
proof -
  note d = at_inodeD [OF a]
  have ip: "ip \<in> in_use (inodes t)" using d by (simp add: in_use_def)
  have "i_nlink (dinode (view s) (fs_sb s) n) \<noteq> 0" using tree_okD(2) [OF tree(1), of n] tree(2) by (simp add: cabs_of_def)
  then have n: "i_valid (inodes t ip) \<noteq> 0 \<longrightarrow> i_nlink (inodes t ip) \<noteq> 0"
    using d(4,8) ip by (auto simp: itab_ok_def in_sync_def same_file_def)
  let ?u = "t\<lparr>inodes := (inodes t)(ip := (inodes t ip)\<lparr>i_ref := i_ref (inodes t ip) - 1\<rparr>)\<rparr>"
  have "let_go p s ?u" using ref_put [OF d(4) ip] d(8,9) a stays_upd(1) [OF d(1)] by (simp add: let_go_def at_inode_def)
  then show ?thesis by (intro runs_iput [OF d(1) n] P)
qed

section \<open>The walk\<close>

definition walk_start :: "'z fs_state_scheme \<Rightarrow> nat \<Rightarrow> bool" where
  "walk_start s p \<longleftrightarrow> bc_ready p s \<and> tree_ok (cabs_of s) (fs_sb s) \<and> itab_ok (view s) (fs_sb s) (inodes s) \<and>
     locks_at (p_pid (procs s p)) None s \<and> card (in_use (inodes s)) + 2 \<le> NINODE"

lemma walk_startD:
  assumes "walk_start s p"
  shows "bc_ready p s" "tree_ok (cabs_of s) (fs_sb s)" "itab_ok (view s) (fs_sb s) (inodes s)" "locks_at (p_pid (procs s p)) None s"
    "card (in_use (inodes s)) + 2 \<le> NINODE" "stays p s s"
  using assms by (simp_all add: walk_start_def stays_def)

text \<open>The inode behind a locked entry is the one on the disk.\<close>

lemma at_inode_file:
  assumes "at_inode True p s n ip t"
  shows "same_file (inodes t ip) (dinode (view s) (fs_sb s) n)" "i_type (inodes t ip) = i_type (dinode (view s) (fs_sb s) n)"
    "i_size (inodes t ip) = i_size (dinode (view s) (fs_sb s) n)"
proof -
  show f: "same_file (inodes t ip) (dinode (view s) (fs_sb s) n)"
    using assms at_inodeD [OF assms] by (auto simp: at_inode_def itab_ok_def in_sync_def in_use_def)
  then show "i_type (inodes t ip) = i_type (dinode (view s) (fs_sb s) n)" "i_size (inodes t ip) = i_size (dinode (view s) (fs_sb s) n)"
    by (simp_all add: same_file_def)
qed

lemma dir_find_Some: "dir_find d nm = Some k \<Longrightarrow> k < length d div 16 \<and> de_inum (dirent d k) \<noteq> 0"
  unfolding dir_find_def by (drule find_SomeD) auto

lemma runs_walk_step:
  assumes w: "walk_start s p" and a: "at_inode True p s n dp t" and live: "live (view s) (fs_sb s) n"
    and dir: "i_type (dinode (view s) (fs_sb s) n) = T_DIR"
    and d: "d = contents (dinode (view s) (fs_sb s) n) (view s)"
    and miss: "\<And>u. dir_find d (cstr DIRSIZ nm) = None \<Longrightarrow> let_go p s u \<Longrightarrow> P (Inr (None, nm)) u"
    and hit: "\<And>k jp u. dir_find d (cstr DIRSIZ nm) = Some k \<Longrightarrow> at_inode False p s (ucast (de_inum (dirent d k))) jp u \<Longrightarrow>
      live (view s) (fs_sb s) (ucast (de_inum (dirent d k))) \<Longrightarrow> P (Inl (pth, nm, jp)) u"
  shows "runs (kbind (dirlookup dp nm) (\<lambda>next. case next of
      None \<Rightarrow> kthen (iunlockput dp) (ret (Inr (None, nm)))
    | Some (next, _) \<Rightarrow> kthen (iunlockput dp) (ret (Inl (pth, nm, next))))) t P"
proof -
  note w' = walk_startD [OF w] and a' = at_inodeD [OF a] and f = at_inode_file [OF a]
  let ?V = "view s" and ?sb = "fs_sb s" and ?A = "cabs_of t" and ?i = "dinode (view s) (fs_sb s) n"
  have V: "cv (cabs_of s) = ?V" "cv ?A = ?V" using a'(10) by (simp_all add: cabs_of_def)
  have cr: "can_read ?A = can_read (cabs_of s)" using a'(1) by (simp add: cabs_of_def stays_def can_read_def fun_eq_iff)
  have dv: "i_dev ?i = ROOTDEV" by (simp add: dinode_def)
  have md: "file_mapped (inodes t dp) ?A"
    using same_file_contents(2) [OF f(1), of ?A] a'(7) tree_okD(4) [OF w'(2)] live dir dv unfolding file_mapped_def cr V by auto
  have ct: "contents (inodes t dp) (cv ?A) = d" using same_file_contents(1) [OF f(1)] d V by simp
  have sz: "unat (i_size (inodes t dp)) < 2 ^ 31" "16 dvd unat (i_size (inodes t dp))" "i_type (inodes t dp) = T_DIR"
    using tree_okD(4) [OF w'(2)] live dir f V by auto
  have t: "itable_ok (inodes t)" "one_device (inodes t)" "itable_ok (inodes s)" "one_device (inodes s)"
    using a'(4) w'(3) by (simp_all add: itab_ok_def)
  have c: "cached p t ?A t" by (rule cached_start [OF a'(2)])
  have len: "length d = unat (i_size ?i)" using length_contents(1) [OF c md] ct f(3) by simp
  have dp: "dp \<in> in_use (inodes t)" "i_valid (inodes t dp) \<noteq> 0" "locks_at (p_pid (procs s p)) (Some dp) t"
    using a a' by (simp_all add: in_use_def at_inode_def)
  have nl: "i_nlink ?i \<noteq> 0" using tree_okD(2) [OF w'(2)] live V by simp
  show ?thesis unfolding runs_kbind
  proof (rule runs_mono [OF runs_dirlookup [OF c md none_held_cabs_of sz room_for_one [OF t a'(9) w'(5)]]])
    fix r u assume "looked_up p t ?A dp (cstr DIRSIZ nm) r u"
    then obtain v where v: "cached p t ?A v" and l: "case dir_find d (cstr DIRSIZ nm) of None \<Rightarrow> r = None \<and> u = v
       | Some k \<Rightarrow> let m = ucast (de_inum (dirent d k)) in
          \<exists>jp. iget_slot (inodes t) ROOTDEV m = Some jp \<and> r = Some (jp, of_nat (16 * k)) \<and>
            u = v\<lparr>inodes := (inodes t)(jp := igot (inodes t) ROOTDEV m jp)\<rparr>" unfolding looked_up_def ct by (auto simp: Let_def)
    have "stays p t v" by (rule staysI [OF v]) (use a'(2) in \<open>simp_all add: cabs_of_def\<close>)
    with a'(1) have sv: "stays p s v" by (rule stays_trans)
    have lv: "locks_at (p_pid (procs s p)) (Some dp) v" using dp(3) cached_slocks [OF v] by (simp add: locks_at_def)
    have iv: "inodes v = inodes t" by (rule cached_inodes [OF v])
    show "runs (case r of None \<Rightarrow> kthen (iunlockput dp) (ret (Inr (None, nm)))
      | Some (next, _) \<Rightarrow> kthen (iunlockput dp) (ret (Inl (pth, nm, next)))) u P"
    proof (cases "dir_find d (cstr DIRSIZ nm)")
      case None
      then have "at_inode True p s n dp u" "r = None" using l a sv lv iv by (simp_all add: at_inode_def)
      then show ?thesis using runs_let_go [OF _ w'(2) live] miss [OF None] by simp
    next
      case (Some k)
      let ?m = "ucast (de_inum (dirent d k)) :: u32"
      obtain jp where jp: "iget_slot (inodes t) ROOTDEV ?m = Some jp" "r = Some (jp, of_nat (16 * k))"
        and u: "u = v\<lparr>inodes := (inodes t)(jp := igot (inodes t) ROOTDEV ?m jp)\<rparr>" using l Some by (auto simp: Let_def)
      note g = ref_get [OF a'(4) jp(1)]
      let ?tab = "(inodes t)(jp := igot (inodes t) ROOTDEV ?m jp)"
      have iu: "inodes u = ?tab" using u by simp
      note gd = g(5) [OF dp(1)]
      have lm: "live ?V ?sb ?m" using tree_okD(5) [OF w'(2), of n k] live dir dir_find_Some [OF Some] len V d by simp
      have "runs (iunlockput dp) u (\<lambda>_. P (Inl (pth, nm, jp)))"
      proof (rule runs_iunlockput)
        show "stays p s u" unfolding u by (rule stays_upd(1) [OF sv])
        show "itab_ok ?V ?sb (inodes u)" "dp \<in> in_use (inodes u)" "i_valid (inodes u dp) \<noteq> 0" using g(1) gd dp(2) unfolding iu by simp_all
        show "i_nlink (dinode ?V ?sb (i_inum (inodes u dp))) \<noteq> 0" using nl gd a'(8) unfolding iu by simp
        show "locks_at (p_pid (procs s p)) (Some dp) u" using lv unfolding u by simp
        fix x assume x: "stays p s x" "inodes x = (inodes u)(dp := (inodes u dp)\<lparr>i_ref := i_ref (inodes u dp) - 1\<rparr>)"
          "locks_at (p_pid (procs s p)) None x"
        have du: "dp \<in> in_use ?tab" "i_inum (?tab dp) = n" using gd a'(8) by simp_all
        note q = ref_put [OF g(1) du(1)]
        have ir: "irefs (inodes x) = (irefs (inodes s))(?m := irefs (inodes s) ?m + 1)"
          unfolding x(2) iu q(2) du(2) g(2) a'(9) by (auto simp: fun_eq_iff)
        have "i_ref (?tab jp) = i_ref (inodes t jp) + 1" using igot_ok(4) [OF t(1) jp(1)] by simp
        then have "jp \<in> in_use (inodes x)" "i_inum (inodes x jp) = ?m"
          using g(3,4) a'(6) unfolding x(2) iu by (auto simp: in_use_def)
        then have "at_inode False p s ?m jp x" using x q(1) ir by (simp add: at_inode_def ref_to_def iu)
        then show "P (Inl (pth, nm, jp)) x" by (rule hit [OF Some _ lm])
      qed
      then show ?thesis by (simp add: jp(2))
    qed
  qed
qed

lemma runs_namex_elem:
  assumes w: "walk_start s p" and a: "at_inode False p s n ip u" and live: "live (view s) (fs_sb s) n"
    and z: "0 \<notin> set pth" and e: "elems pth = e # es"
    and fail: "\<And>nm v. resolve (view s) (fs_sb s) par n (e # es) = None \<Longrightarrow> let_go p s v \<Longrightarrow> Q (Inr (None, nm)) v"
    and parent: "\<And>nm v. par \<Longrightarrow> es = [] \<Longrightarrow> resolve (view s) (fs_sb s) par n (e # es) = Some n \<Longrightarrow> cstr DIRSIZ nm = take DIRSIZ e \<Longrightarrow>
      at_inode False p s n ip v \<Longrightarrow> Q (Inr (Some ip, nm)) v"
    and down: "\<And>pth' nm jp m v. resolve (view s) (fs_sb s) par n (e # es) = resolve (view s) (fs_sb s) par m es \<Longrightarrow>
      at_inode False p s m jp v \<Longrightarrow> live (view s) (fs_sb s) m \<Longrightarrow> elems pth' = es \<Longrightarrow> 0 \<notin> set pth' \<Longrightarrow> length pth' < length pth \<Longrightarrow>
      Q (Inl (pth', nm, jp)) v"
  shows "runs (namex_body par (pth, nm, ip)) u Q"
proof -
  obtain pth' nm' where sk: "skipelem pth nm = Some (pth', nm')" and es: "elems pth' = es" "(pth' = []) = (es = [])"
    and nm: "cstr DIRSIZ nm' = take DIRSIZ e" and z': "0 \<notin> set pth'" "length pth' < length pth"
    using skipelem_elems(2) [OF z e, of nm] by blast
  let ?i = "dinode (view s) (fs_sb s) n"
  show ?thesis unfolding namex_body_def prod.case sk option.case runs_kthen
  proof (rule runs_ilock [OF a walk_startD(2) [OF w] live], goal_cases)
    case (1 v)
    note ty = at_inode_file(2) [OF 1]
    consider "i_type ?i \<noteq> T_DIR" | "i_type ?i = T_DIR" "par" "es = []" | "i_type ?i = T_DIR" "\<not> (par \<and> es = [])" by blast
    then show ?case
    proof cases
      case a: 1
      then have "runs (iunlockput ip) v (\<lambda>_. Q (Inr (None, nm')))"
        by (intro runs_let_go [OF 1 walk_startD(2) [OF w] live] fail) simp
      then show ?thesis using a by (simp add: ty)
    next
      case 2
      note d = at_inodeD [OF 1]
      have "runs (iunlock ip) v (\<lambda>_. Q (Inr (Some ip, nm')))"
        by (rule runs_iunlock [OF d(1)]) (use 1 2 nm d in \<open>auto simp: at_inode_def in_use_def intro!: parent\<close>)
      then show ?thesis using 2 es by (simp add: ty)
    next
      case 3
      have "runs (kbind (dirlookup ip nm') (\<lambda>next. case next of None \<Rightarrow> kthen (iunlockput ip) (ret (Inr (None, nm')))
        | Some (next, _) \<Rightarrow> kthen (iunlockput ip) (ret (Inl (pth', nm', next))))) v Q"
        by (rule runs_walk_step [OF w 1 live 3(1) refl]) (use 3 es z' nm in \<open>auto intro!: fail down simp: Let_def\<close>)
      then show ?thesis using 3 es by (simp only: runs_kbind runs_get_inode ty simp_thms if_False)
    qed
  qed
qed

lemma runs_namex_loop:
  assumes w: "walk_start s p" and a: "at_inode False p s n0 ip t" and live: "live (view s) (fs_sb s) n0" and z: "0 \<notin> set pth0"
  shows "runs (kloop (length pth0 + 1) (namex_body par) (pth0, nm0, ip)) t (\<lambda>(r, nm) u.
    case resolve (view s) (fs_sb s) par n0 (elems pth0) of None \<Rightarrow> r = None \<and> let_go p s u
    | Some n \<Rightarrow> \<exists>ip. r = Some ip \<and> at_inode False p s n ip u \<and> (par \<longrightarrow> cstr DIRSIZ nm = take DIRSIZ (last (elems pth0))))"
proof -
  let ?res = "resolve (view s) (fs_sb s) par"
  let ?I = "\<lambda>(pth, nm, ip) u. 0 \<notin> set pth \<and> (\<exists>n pre. at_inode False p s n ip u \<and> live (view s) (fs_sb s) n \<and>
    ?res n (elems pth) = ?res n0 (elems pth0) \<and> elems pth0 = pre @ elems pth)"
  show ?thesis
  proof (rule runs_kloop_inv [where I = ?I and measure_of = "\<lambda>(pth, nm, ip). length pth"], goal_cases)
    case 1 then show ?case using a live z by auto
  next
    case 2 then show ?case by simp
  next
    case (3 l u)
    obtain pth nm ip where l: "l = (pth, nm, ip)" by (cases l)
    obtain n pre where z: "0 \<notin> set pth" and a: "at_inode False p s n ip u" and live: "live (view s) (fs_sb s) n"
      and res: "?res n (elems pth) = ?res n0 (elems pth0)" and pre: "elems pth0 = pre @ elems pth" using 3 unfolding l by blast
    show ?case
    proof (cases "elems pth")
      case Nil
      then have "skipelem pth nm = None" by (rule skipelem_elems(1) [OF z])
      then show ?thesis using a res [symmetric] Nil unfolding l namex_body_def
        by (auto intro!: runs_drop [OF a walk_startD(2) [OF w] live])
    next
      case (Cons e es)
      have last: "last (elems pth0) = e" if "es = []" using pre Cons that by simp
      have res': "?res n0 (elems pth0) = ?res n (e # es)" using res Cons by simp
      have pre': "\<exists>pre. elems pth0 = pre @ es" using pre Cons by auto
      show ?thesis unfolding l
      proof (rule runs_namex_elem [OF w a live z Cons], goal_cases)
        case 1 then show ?case by (simp only: res' sum.case prod.case option.case simp_thms)
      next
        case 2
        have "?res n0 (elems pth0) = Some n" using 2(3) by (simp only: res')
        then show ?case using 2(2,4,5) last by (simp only: sum.case prod.case option.case) blast
      next
        case (3 pth' nm' jp m v)
        show ?case unfolding res' 3(1) sum.case prod.case using 3(2-6) pre' by blast
      qed
    qed
  qed
qed

text \<open>Where the walk starts: at the root, or at the current directory of the process.\<close>

definition starts_at :: "'z fs_state_scheme \<Rightarrow> nat \<Rightarrow> u8 list \<Rightarrow> u32 \<Rightarrow> bool" where
  "starts_at s p pth n \<longleftrightarrow> (if pth \<noteq> [] \<and> hd pth = SLASH then n = ROOTINO
     else case p_cwd (procs s p) of None \<Rightarrow> False | Some cwd \<Rightarrow> cwd \<in> in_use (inodes s) \<and> i_inum (inodes s cwd) = n)"

lemma in_use_slot:
  assumes "itab_ok V sb tab" "ip \<in> in_use tab"
  shows "iget_slot tab ROOTDEV (i_inum (tab ip)) = Some ip" "igot tab ROOTDEV (i_inum (tab ip)) ip = (tab ip)\<lparr>i_ref := i_ref (tab ip) + 1\<rparr>"
proof -
  have ip: "ip < NINODE" "0 < i_ref (tab ip)" "i_dev (tab ip) = ROOTDEV" and t: "itable_ok tab"
    using assms by (auto simp: in_use_def itab_ok_def one_device_def)
  let ?Q = "\<lambda>i. i_ref (tab i) > 0 \<and> i_dev (tab i) = ROOTDEV \<and> i_inum (tab i) = i_inum (tab ip)"
  have "iget_find tab ROOTDEV (i_inum (tab ip)) = find ?Q [0..<NINODE]" by (simp add: iget_find_def)
  moreover have "find ?Q [0..<NINODE] = Some ip"
    by (rule find_from) (use ip t in \<open>auto simp: itable_ok_def dest: less_trans\<close>)
  ultimately have f: "iget_find tab ROOTDEV (i_inum (tab ip)) = Some ip" by simp
  show "iget_slot tab ROOTDEV (i_inum (tab ip)) = Some ip" "igot tab ROOTDEV (i_inum (tab ip)) ip = (tab ip)\<lparr>i_ref := i_ref (tab ip) + 1\<rparr>"
    using f by (simp_all add: iget_slot_def igot_def)
qed

lemma runs_namex_start:
  assumes w: "walk_start s p" and n: "starts_at s p pth n"
    and P: "\<And>ip t. at_inode False p s n ip t \<Longrightarrow> P ip t"
  shows "runs (if pth \<noteq> [] \<and> hd pth = SLASH then iget ROOTDEV ROOTINO
       else
         kbind curproc (\<lambda>p.
         kbind (get_proc p) (\<lambda>q.
         case p_cwd q of None \<Rightarrow> fault ''null cwd'' | Some ip \<Rightarrow> idup ip))) s P"
proof -
  note w' = walk_startD [OF w]
  have c: "ctx s p" using w'(1) by (simp add: bc_ready_def)
  have at: "at_inode False p s n ip (s\<lparr>inodes := (inodes s)(ip := igot (inodes s) ROOTDEV n ip)\<rparr>)"
    if "iget_slot (inodes s) ROOTDEV n = Some ip" for ip
    using ref_get [OF w'(3) that] w'(4) stays_upd(1) [OF w'(6)] by (simp add: at_inode_def ref_to_def)
  show ?thesis
  proof (cases "pth \<noteq> [] \<and> hd pth = SLASH")
    case True
    then have n: "n = ROOTINO" using n by (simp add: starts_at_def)
    have "iget_slot (inodes s) ROOTDEV n \<noteq> None" using w'(3,5) by (intro room) (simp_all add: itab_ok_def)
    then obtain ip where ip: "iget_slot (inodes s) ROOTDEV n = Some ip" by blast
    show ?thesis using True P [OF at [OF ip]] iget_app(1) [OF ctx_hart(1,2) [OF c] ip] n by (simp add: runs_def)
  next
    case False
    then obtain cwd where d: "p_cwd (procs s p) = Some cwd" "cwd \<in> in_use (inodes s)" "i_inum (inodes s cwd) = n"
      using n by (auto simp: starts_at_def split: option.splits)
    have sl: "iget_slot (inodes s) ROOTDEV n = Some cwd" using in_use_slot(1) [OF w'(3) d(2)] d(3) by simp
    have "P cwd (s\<lparr>inodes := (inodes s)(cwd := (inodes s cwd)\<lparr>i_ref := i_ref (inodes s cwd) + 1\<rparr>)\<rparr>)"
      using P [OF at [OF sl]] in_use_slot(2) [OF w'(3) d(2)] d(3) by simp
    then show ?thesis using d(1) c unfolding if_not_P [OF False] by (simp add: idup_def ctx_hart)
  qed
qed

section \<open>A small file system\<close>

definition demo_iblock :: "u8 list" where
  "demo_iblock = replicate 64 0 @ demo_dinode 1 48 60 @ replicate 320 0 @ demo_dinode 2 0 0"

lemma slice_demo_iblock:
  "j + n \<le> 64 \<Longrightarrow> slice (64 + j) n demo_iblock = slice j n (demo_dinode 1 48 60)"
  "j + n \<le> 64 \<Longrightarrow> slice (448 + j) n demo_iblock = slice j n (demo_dinode 2 0 0)"
  by (simp_all add: slice_def demo_iblock_def length_demo_dinode)

lemma slice_demo_dinode:
  "slice 0 2 (demo_dinode ty sz a) = [ty, 0]" "slice 2 2 (demo_dinode ty sz a) = [0, 0]" "slice 4 2 (demo_dinode ty sz a) = [0, 0]"
  "slice 6 2 (demo_dinode ty sz a) = [1, 0]" "slice 8 4 (demo_dinode ty sz a) = [sz, 0, 0, 0]"
  "k < 13 \<Longrightarrow> slice (12 + 4 * k) 4 (demo_dinode ty sz a) = [a, 0, 0, 0]"
proof -
  assume k: "k < 13"
  have "take 4 (drop (k * 4 + 0) (concat (replicate 13 [a, 0, 0, 0]))) = take 4 (drop 0 (replicate 13 [a, 0, 0, 0] ! k))"
    by (rule take_drop_concat) (use k in auto)
  then show "slice (12 + 4 * k) 4 (demo_dinode ty sz a) = [a, 0, 0, 0]" using k
    by (simp add: slice_def demo_dinode_def mult.commute del: append_Cons append_Nil)
qed (simp_all add: slice_def demo_dinode_def)

lemma le_word_small:
  "le_word [0, 0] = (0 :: u16)" "le_word [1, 0] = (1 :: u16)" "le_word [2, 0] = (2 :: u16)"
  "le_word [48, 0, 0, 0] = (48 :: u32)" "le_word [60, 0, 0, 0] = (60 :: u32)"
  by code_simp+

lemma demo_iblock_types: "map (\<lambda>k. get16 (64 * k) demo_iblock) [0..<8] = [0, 1, 0, 0, 0, 0, 0, 2]"
proof -
  have z: "get16 (64 * k) demo_iblock = 0" if "k \<in> {0, 2, 3, 4, 5, 6}" for k
    using that le_word_small(1) by (auto simp: get16_def slice_def demo_iblock_def length_demo_dinode numeral_2_eq_2)
  have "get16 64 demo_iblock = 1" "get16 448 demo_iblock = 2"
    using slice_demo_iblock(1) [of 0 2] slice_demo_iblock(2) [of 0 2] by (simp_all add: get16_def slice_demo_dinode le_word_small)
  then show ?thesis using z [of 0] z [of 2] z [of 3] z [of 4] z [of 5] z [of 6] by (simp add: upt_rec)
qed

lemma demo_iblock_fields:
  "map (\<lambda>off. get16 off demo_iblock) [66, 68, 70, 454] = [0, 0, 1, 1]" "get32 72 demo_iblock = 48"
  "k < 13 \<Longrightarrow> get32 (64 + (12 + 4 * k)) demo_iblock = 60"
  using slice_demo_iblock(1) [of 2 2] slice_demo_iblock(1) [of 4 2] slice_demo_iblock(1) [of 6 2] slice_demo_iblock(2) [of 6 2]
    slice_demo_iblock(1) [of 8 4] slice_demo_iblock(1) [of "12 + 4 * k" 4]
  by (simp_all add: get16_def get32_def slice_demo_dinode le_word_small)

lemma get16_append: "off + 2 \<le> length xs \<Longrightarrow> get16 off (xs @ ys) = get16 off xs"
  by (simp add: get16_def slice_def)

lemma get32_append: "off + 4 \<le> length xs \<Longrightarrow> get32 off (xs @ ys) = get32 off xs"
  by (simp add: get32_def slice_def)

lemma get16_zero: "off + 2 \<le> n \<Longrightarrow> get16 off (replicate n 0) = 0"
  by (rule bit_word_eqI) (simp add: get16_def bit_le_word slice_def less_mult_imp_div_less)

lemma length_demo_iblock: "length demo_iblock = 512"
  by (simp add: demo_iblock_def length_demo_dinode)

lemma demo_fs_blocks:
  "view demo_fs 32 = demo_iblock @ replicate 512 0"
  "32 < bn \<Longrightarrow> bn < 45 \<Longrightarrow> view demo_fs bn = replicate 1024 0"
proof -
  show "view demo_fs 32 = demo_iblock @ replicate 512 0"
    by (simp add: demo_fs_abs) (simp add: disk_def disk_of_def blk_def sector_of_def BSIZE_def demo_fs_def demo_iblock_def)
  assume b: "32 < bn" "bn < 45"
  have b': "32 < unat bn" "unat bn < 45" using b by (simp_all add: word_less_nat_alt)
  then have "unat (bn * 2) = unat bn * 2" by (subst unat_mult_lem [THEN iffD1]) simp_all
  then have x: "unat (sector_of bn) = unat bn * 2" using b' by (simp add: sector_of_def unsigned_ucast_eq take_bit_nat_eq_self)
  then have y: "unat (sector_of bn + 1) = unat bn * 2 + 1" using b' by (subst unat_add_lem [THEN iffD1]) simp_all
  have img: "dimg demo_fs w = replicate 512 0" if "unat w \<noteq> 120" "unat w \<noteq> 90" "unat w \<noteq> 64" for w
    using that by (auto simp: demo_fs_def)
  have "blk (dimg demo_fs) bn = replicate 512 0 @ replicate 512 0" using x y b' unfolding blk_def
    by (intro arg_cong2 [where f = append] img; presburger)
  moreover have "bn < 2 ^ 31" using b' by (simp add: word_less_nat_alt)
  ultimately show "view demo_fs bn = replicate 1024 0"
    by (simp add: demo_fs_abs disk_def disk_of_def replicate_add [symmetric])
qed

lemma demo_dinode_type:
  assumes "n < 200"
  shows "i_type (dinode (view demo_fs) (fs_sb demo_fs) n) = (if n = 1 then 1 else if n = 7 then 2 else 0)"
proof -
  have u: "unat n < 200" using assms by (simp add: word_less_nat_alt)
  have b: "IBLOCK n (fs_sb demo_fs) = n div 16 + 32" by (simp add: IBLOCK_def IPB_def BSIZE_def DI_SIZE_def demo_fs_def)
  have t: "i_type (dinode (view demo_fs) (fs_sb demo_fs) n) = get16 (64 * (unat n mod 16)) (view demo_fs (n div 16 + 32))"
    by (simp add: dinode_def get_dinode_def b DI_type_def DI_SIZE_def IPB_def BSIZE_def)
  have ud: "unat (n div 16 + 32) = unat n div 16 + 32" using u by (subst unat_add_lem [THEN iffD1]) (simp_all add: unat_div)
  show ?thesis
  proof (cases "unat n < 16")
    case True
    then have "n div 16 + 32 = 32" using ud by (simp add: word_unat_eq_iff)
    then have e: "i_type (dinode (view demo_fs) (fs_sb demo_fs) n) = get16 (64 * unat n) (demo_iblock @ replicate 512 0)"
      using t True by (simp add: demo_fs_blocks)
    show ?thesis
    proof (cases "unat n < 8")
      case True
      then have "get16 (64 * unat n) (demo_iblock @ replicate 512 0) = [0, 1, 0, 0, 0, 0, 0, 2] ! unat n"
        unfolding demo_iblock_types [symmetric] by (subst get16_append) (simp_all add: length_demo_iblock)
      moreover have "unat n \<in> {0, 1, 2, 3, 4, 5, 6, 7}" using True by auto
      ultimately show ?thesis unfolding e by (auto simp: word_unat_eq_iff)
    next
      case False
      have "get16 (64 * unat n) (demo_iblock @ replicate 512 0) = get16 (64 * (unat n - 8)) (replicate 512 0)"
        using False by (simp add: get16_def slice_def length_demo_iblock right_diff_distrib')
      also have "\<dots> = 0" by (rule get16_zero) (use \<open>unat n < 16\<close> in simp)
      finally show ?thesis unfolding e using False by auto
    qed
  next
    case False
    then have "32 < n div 16 + 32" "n div 16 + 32 < 45" using ud u by (simp_all add: word_less_nat_alt)
    then have "get16 (64 * (unat n mod 16)) (view demo_fs (n div 16 + 32)) = 0"
      by (simp add: demo_fs_blocks get16_zero)
    then show ?thesis unfolding t using False by auto
  qed
qed

lemma demo_live: "live (view demo_fs) (fs_sb demo_fs) n \<longleftrightarrow> n = 1 \<or> n = 7"
proof -
  have "sb_ninodes (fs_sb demo_fs) = 200" by (simp add: demo_fs_def)
  then show ?thesis unfolding live_def by (cases "n < 200") (auto simp: demo_dinode_type)
qed

lemma demo_root_inode: "same_file (demo_inodes 0) (dinode (view demo_fs) (fs_sb demo_fs) 1)"
proof -
  have b: "IBLOCK 1 (fs_sb demo_fs) = 32" by (simp add: IBLOCK_def IPB_def BSIZE_def DI_SIZE_def demo_fs_def)
  have a: "get32 (64 + (12 + 4 * k)) demo_iblock = 60" if "k \<le> 12" for k using that by (intro demo_iblock_fields) simp
  have "i_type (dinode (view demo_fs) (fs_sb demo_fs) 1) = 1" by (simp add: demo_dinode_type)
  then show ?thesis using demo_iblock_fields(1,2) a
    by (simp add: same_file_def dinode_def get_dinode_def b demo_fs_blocks(1) demo_inodes_def DI_SIZE_def IPB_def BSIZE_def NDIRECT_def
        DI_type_def DI_major_def DI_minor_def DI_nlink_def DI_size_def DI_addrs_def T_DIR_def get16_append get32_append length_demo_iblock)
qed

lemma demo_can_read: "bn < 2 ^ 31 \<Longrightarrow> can_read (cabs_of demo_fs) bn"
  by (simp add: can_read_def cabs_of_def demo_fs_abs NBUF_def)

lemma demo_root_contents: "contents (dinode (view demo_fs) (fs_sb demo_fs) 1) (view demo_fs) = demo_dir"
  using same_file_contents(1) [OF demo_root_inode] demo_fs_file by (simp add: file_of_def demo_fs_abs)

lemma demo_tree: "tree_ok (cabs_of demo_fs) (fs_sb demo_fs)"
proof -
  let ?V = "view demo_fs" and ?sb = "fs_sb demo_fs" and ?A = "cabs_of demo_fs"
  have v: "cv ?A = ?V" by (simp add: cabs_of_def)
  have b: "can_read ?A (IBLOCK 1 ?sb)" "can_read ?A (IBLOCK 7 ?sb)"
    by (intro demo_can_read; simp add: IBLOCK_def IPB_def BSIZE_def DI_SIZE_def demo_fs_def)+
  have i: "i_size (dinode ?V ?sb 1) = 48" "i_nlink (dinode ?V ?sb 1) = 1"
    using demo_root_inode by (simp_all add: same_file_def demo_inodes_def)
  have m: "file_mapped (dinode ?V ?sb 1) ?A"
    using same_file_contents(2) [OF demo_root_inode, of ?A] demo_fs_reading by (simp add: reading_def demo_fs_abs dinode_def demo_inodes_def ROOTDEV_def)
  have d: "map (\<lambda>k. de_inum (dirent demo_dir k)) [0..<3] = [1, 1, 7]" by code_simp
  have e: "de_inum (dirent demo_dir k) \<in> {1, 7}" if "k < 3" for k
  proof -
    have "de_inum (dirent demo_dir k) = [1, 1, 7] ! k" unfolding d [symmetric] using that by simp
    moreover have "k \<in> {0, 1, 2}" using that by auto
    ultimately show ?thesis by auto
  qed
  have "i_nlink (dinode ?V ?sb 7) = 1" using demo_iblock_fields(1)
    by (simp add: dinode_def get_dinode_def IBLOCK_def IPB_def BSIZE_def DI_SIZE_def demo_fs_def [THEN arg_cong, of fs_sb]
        demo_fs_blocks(1) DI_nlink_def get16_append length_demo_iblock)
  moreover have "i_type (dinode ?V ?sb 7) = 2" by (simp add: demo_dinode_type)
  moreover have "live ?V ?sb (ucast (de_inum (dirent demo_dir k)))" if "k < 3" for k using e [OF that] by (auto simp: demo_live)
  ultimately show ?thesis unfolding tree_ok_def v using b i m by (auto simp: demo_live Let_def demo_root_contents T_DIR_def)
qed

lemma demo_walk: "walk_start demo_fs 0"
proof -
  have u: "in_use demo_inodes = {0}" by (auto simp: in_use_def demo_inodes_def NINODE_def split: if_splits)
  have "itab_ok (view demo_fs) (fs_sb demo_fs) demo_inodes" using demo_root_inode unfolding itab_ok_def one_device_def in_sync_def u
    by (auto simp: itable_ok_def demo_inodes_def ROOTDEV_def)
  moreover have "locks_at pid None demo_fs" for pid by (simp add: locks_at_def demo_fs_def)
  ultimately show ?thesis using demo_fs_bc demo_tree u by (simp add: walk_start_def demo_fs_abs NINODE_def)
qed

section \<open>Properties\<close>

text \<open>C8: \<open>namex\<close> resolves path names. In a consistent file system, with nobody holding an inode and two entries of the
  inode table free, the walk along the elements of the path, starting at the root or at the current directory, ends
  where the directories on the disk lead: at the inode of the whole path, or, for \<open>nameiparent\<close>, at the directory of the last
  element, whose name is left in the buffer. It then has exactly one reference more to that inode; where an
  element is missing or lies below something that is not a directory, it fails and has none. Either way all other references
  are given back, every inode is unlocked, the table keeps its invariant, and no block has changed.\<close>

theorem namex_resolves:
  assumes "walk_start s p" and "starts_at s p pth n0" and "live (view s) (fs_sb s) n0" and "0 \<notin> set pth"
  shows "runs (namex pth par nm) s (\<lambda>(r, nm') t. stays p s t \<and> itab_ok (view s) (fs_sb s) (inodes t) \<and>
    (\<forall>i < NINODE. sk_locked (slocks t (LkInode i)) = 0) \<and>
    (case resolve (view s) (fs_sb s) par n0 (elems pth) of None \<Rightarrow> r = None \<and> irefs (inodes t) = irefs (inodes s)
     | Some n \<Rightarrow> \<exists>ip. r = Some ip \<and> ip \<in> in_use (inodes t) \<and> i_inum (inodes t ip) = n \<and>
         irefs (inodes t) = (irefs (inodes s))(n := irefs (inodes s) n + 1) \<and>
         (par \<longrightarrow> cstr DIRSIZ nm' = take DIRSIZ (last (elems pth)))))"
  unfolding namex_def runs_kbind
proof (rule runs_namex_start [OF assms(1,2)])
  fix ip t assume a: "at_inode False p s n0 ip t"
  show "runs (kloop (length pth + 1) (namex_body par) (pth, nm, ip)) t (\<lambda>(r, nm') t. stays p s t \<and> itab_ok (view s) (fs_sb s) (inodes t) \<and>
    (\<forall>i < NINODE. sk_locked (slocks t (LkInode i)) = 0) \<and>
    (case resolve (view s) (fs_sb s) par n0 (elems pth) of None \<Rightarrow> r = None \<and> irefs (inodes t) = irefs (inodes s)
     | Some n \<Rightarrow> \<exists>ip. r = Some ip \<and> ip \<in> in_use (inodes t) \<and> i_inum (inodes t ip) = n \<and>
         irefs (inodes t) = (irefs (inodes s))(n := irefs (inodes s) n + 1) \<and>
         (par \<longrightarrow> cstr DIRSIZ nm' = take DIRSIZ (last (elems pth)))))"
    by (rule runs_mono [OF runs_namex_loop [OF assms(1) a assms(3,4)]])
       (auto simp: let_go_def at_inode_def ref_to_def locks_at_def split: option.splits)
qed

theorem namex_resolves_witness:
  "walk_start demo_fs 0 \<and> runs (namex [47, 47, 105, 110, 105, 116] False (\<lambda>_. 0)) demo_fs (\<lambda>(r, _) t.
     \<exists>ip. r = Some ip \<and> i_inum (inodes t ip) = 7 \<and> irefs (inodes t) 7 = irefs demo_inodes 7 + 1)"
proof -
  let ?V = "view demo_fs" and ?sb = "fs_sb demo_fs"
  have e: "elems [47, 47, 105, 110, 105, 116] = [[105, 110, 105, 116]]" by (simp add: elems_def SLASH_def)
  have f: "dir_find demo_dir (take DIRSIZ [105, 110, 105, 116]) = Some 2" "de_inum (dirent demo_dir 2) = 7" by code_simp+
  have r: "resolve ?V ?sb False 1 [[105, 110, 105, 116]] = Some 7"
    using f by (simp add: demo_dinode_type demo_root_contents T_DIR_def)
  have "starts_at demo_fs 0 [47, 47, 105, 110, 105, 116] 1" "live ?V ?sb 1"
    by (simp_all add: starts_at_def SLASH_def ROOTINO_def demo_live)
  from namex_resolves [OF demo_walk this, of False "\<lambda>_. 0", unfolded e r option.case] show ?thesis
    using demo_walk by (auto simp: demo_fs_abs(4) elim!: runs_mono)
qed

end
