(* ===== verification/Xv6_Fifo.thy ===== *)
theory Xv6_Fifo
  imports Xv6_Prelude
begin

text \<open>
  Byte queues in an array with free running indices: the UART's transmit buffer, the console's input buffer and
  pipes all keep a write index and a read index that are never reduced, and use them modulo the size of the array.
  The interface \<open>byte_ring\<close> says what adding and taking a byte do to the array and the indices; its lemmas say that
  the bytes between the indices form a queue, also when the indices wrap around.
\<close>

text \<open>The bytes from index \<open>r\<close> up to index \<open>w\<close>, oldest first.\<close>

definition ring_queue :: "nat \<Rightarrow> (nat \<Rightarrow> u8) \<Rightarrow> 'w::len word \<Rightarrow> 'w word \<Rightarrow> u8 list" where
  "ring_queue cap data r w = map (\<lambda>i. data ((unat r + i) mod cap)) [0..<unat (w - r)]"

lemma length_ring_queue [simp]: "length (ring_queue cap data r w) = unat (w - r)"
  by (simp add: ring_queue_def)

lemma ring_queue_empty [simp]: "ring_queue cap data r r = []"
  by (simp add: ring_queue_def)

lemma ring_queue_Nil [simp]: "ring_queue cap data r w = [] \<longleftrightarrow> w = r"
  by (auto simp: ring_queue_def unat_eq_0)

text \<open>Moving the write index back takes the newest byte out.\<close>

lemma ring_queue_back:
  assumes "w \<noteq> r"
  shows "ring_queue cap data r (w - 1) = butlast (ring_queue cap data r w)"
proof -
  have "w - r \<noteq> 0" using assms by auto
  then have "unat (w - r - 1) = unat (w - r) - 1" by (rule unat_minus_one)
  moreover have "w - 1 - r = w - r - 1" by simp
  ultimately have "unat (w - 1 - r) = unat (w - r) - 1" by (simp only:)
  then show ?thesis by (simp add: ring_queue_def butlast_conv_take take_map)
qed

text \<open>An index between the two splits the queue.\<close>

lemma ring_queue_split:
  fixes r w e :: "'w::len word"
  assumes "cap dvd 2 ^ LENGTH('w)" "unat (w - r) \<le> unat (e - r)"
  shows "ring_queue cap data r e = ring_queue cap data r w @ ring_queue cap data w e"
proof -
  let ?k = "unat (w - r)"
  have "e - w = (e - r) - (w - r)" by simp
  then have n: "unat (e - w) = unat (e - r) - ?k" using assms(2) by (simp only: unat_sub word_le_nat_alt)
  have uw: "unat w = (unat r + ?k) mod 2 ^ LENGTH('w)"
    using unat_word_ariths(1) [of r "w - r"] by (simp add: algebra_simps)
  have "unat w mod cap = (unat r + ?k) mod cap"
    using arg_cong [OF uw, of "\<lambda>x. x mod cap"] unfolding mod_mod_cancel [OF assms(1)] .
  then have "(unat w + i) mod cap = (unat r + ?k + i) mod cap" for i by (rule mod_add_cong) simp
  then have "(unat w + i) mod cap = (unat r + (?k + i)) mod cap" for i by (simp only: add.assoc)
  then have "map (\<lambda>i. data ((unat w + i) mod cap)) [0..<unat (e - w)] = map (\<lambda>i. data ((unat r + i) mod cap)) [?k..<unat (e - r)]"
    unfolding n by (intro nth_equalityI) simp_all
  moreover have "[0..<unat (e - r)] = [0..<?k] @ [?k..<unat (e - r)]" using assms(2) upt_add_eq_append [of 0 ?k "unat (e - r) - ?k"] by simp
  ultimately show ?thesis by (simp add: ring_queue_def)
qed

locale byte_ring =
  fixes data :: "'s \<Rightarrow> nat \<Rightarrow> u8" and rd wr :: "'s \<Rightarrow> 'w::len word" and put :: "u8 \<Rightarrow> 's \<Rightarrow> 's" and get :: "'s \<Rightarrow> 's" and cap :: nat
  assumes cap: "0 < cap" "cap dvd 2 ^ LENGTH('w)" "cap < 2 ^ LENGTH('w)"
    and put: "data (put c s) = (data s)(unat (wr s) mod cap := c)" "wr (put c s) = wr s + 1" "rd (put c s) = rd s"
    and get: "data (get s) = data s" "wr (get s) = wr s" "rd (get s) = rd s + 1"
begin

definition queue :: "'s \<Rightarrow> u8 list" where
  "queue s = ring_queue cap (data s) (rd s) (wr s)"

text \<open>The test for a full array compares indices.\<close>

lemma full_iff: "wr s = rd s + of_nat cap \<longleftrightarrow> length (queue s) = cap"
proof -
  have "wr s = rd s + of_nat cap \<longleftrightarrow> wr s - rd s = of_nat cap" by (simp add: algebra_simps)
  also have "\<dots> \<longleftrightarrow> unat (wr s - rd s) = cap"
    using cap(3) by (simp add: word_unat_eq_iff unsigned_of_nat take_bit_nat_eq_self)
  finally show ?thesis by (simp add: queue_def)
qed

lemma empty_iff: "rd s = wr s \<longleftrightarrow> queue s = []"
  by (auto simp: queue_def ring_queue_def unat_eq_0)

lemma index_add: "unat (a + of_nat i :: 'w word) mod cap = (unat a + i) mod cap"
proof -
  have "unat (a + of_nat i) mod cap = (unat a + i) mod 2 ^ LENGTH('w) mod cap"
    by (simp add: unat_word_ariths(1) unsigned_of_nat take_bit_eq_mod mod_add_right_eq)
  then show ?thesis by (simp add: mod_mod_cancel [OF cap(2)])
qed

lemma queue_put:
  assumes "length (queue s) < cap"
  shows "queue (put c s) = queue s @ [c]"
proof -
  let ?n = "unat (wr s - rd s)"
  have n: "?n < cap" using assms by (simp add: queue_def)
  have w: "wr s = rd s + of_nat ?n" by simp
  have iw: "unat (wr s) mod cap = (unat (rd s) + ?n) mod cap" by (subst w) (rule index_add)
  have "unat (wr s + 1 - rd s) = Suc ?n"
  proof -
    have "wr s + 1 - rd s = of_nat (Suc ?n)" using w by (simp add: algebra_simps)
    moreover have "unat (of_nat (Suc ?n) :: 'w word) = Suc ?n"
      using n cap(3) unfolding unsigned_of_nat of_nat_id by (intro take_bit_nat_eq_self) simp
    ultimately show ?thesis by (simp only:)
  qed
  moreover have "(unat (rd s) + i) mod cap \<noteq> (unat (rd s) + ?n) mod cap" if "i < ?n" for i
  proof
    assume "(unat (rd s) + i) mod cap = (unat (rd s) + ?n) mod cap"
    then have "cap dvd ?n - i" using that by (metis add_diff_cancel_left less_imp_le_nat mod_eq_dvd_iff_nat nat_add_left_cancel_le)
    then show False using that n by (auto dest: dvd_imp_le)
  qed
  ultimately show ?thesis by (simp add: queue_def ring_queue_def put iw)
qed

lemma queue_get:
  assumes "rd s \<noteq> wr s"
  shows "queue s = data s (unat (rd s) mod cap) # queue (get s)"
proof -
  have n: "unat (wr s - (rd s + 1)) = unat (wr s - rd s) - 1"
  proof -
    have "wr s - rd s \<noteq> 0" using assms by auto
    then have "unat (wr s - rd s - 1) = unat (wr s - rd s) - 1" by (rule unat_minus_one)
    moreover have "wr s - (rd s + 1) = wr s - rd s - 1" by (simp add: algebra_simps)
    ultimately show ?thesis by (simp only:)
  qed
  have "0 < unat (wr s - rd s)" using assms by (simp add: unat_gt_0)
  then obtain k where k: "unat (wr s - rd s) = Suc k" by (metis gr0_implies_Suc)
  have "[0..<Suc k] = 0 # map Suc [0..<k]" by (simp add: map_Suc_upt upt_conv_Cons del: upt_Suc)
  moreover have "(unat (rd s + 1) + i) mod cap = (unat (rd s) + Suc i) mod cap" for i
    using index_add [of "rd s" 1] by (metis add_Suc_right add_Suc_shift mod_add_left_eq of_nat_1 plus_1_eq_Suc add.commute)
  ultimately show ?thesis by (simp add: queue_def ring_queue_def get n k comp_def del: upt_Suc)
qed

text \<open>Adding bytes as long as there is room, and taking some out.\<close>

lemma queue_puts: "length (queue s) + length cs \<le> cap \<Longrightarrow> queue (fold put cs s) = queue s @ cs"
  by (induction cs arbitrary: s) (simp_all add: queue_put)

lemma queue_gets: "k \<le> length (queue s) \<Longrightarrow> queue ((get ^^ k) s) = drop k (queue s)"
proof (induction k arbitrary: s)
  case (Suc k)
  then have "rd s \<noteq> wr s" using empty_iff [of s] by auto
  then show ?case using Suc queue_get [of s] by (simp add: funpow_swap1)
qed simp

end

end
