(* ===== verification/Xv6_Console.thy ===== *)
theory Xv6_Console
  imports Xv6_Namei Xv6_Fifo
begin

text \<open>
  The interrupt-driven half of kernel/uart.c and kernel/console.c. Both keep a ring buffer with free running
  indices, 64 bits wide in the UART driver and 32 bits wide in the console. A function pointer in \<open>devsw\<close> is
  the name of the function.
\<close>

section \<open>State\<close>

definition UART_TX_BUF_SIZE :: nat where "UART_TX_BUF_SIZE = 32"
definition INPUT_BUF_SIZE :: nat where "INPUT_BUF_SIZE = 128"
definition CONSOLE :: nat where "CONSOLE = 1"
definition NDEV :: nat where "NDEV = 10"

record cons =
  cons_buf :: "nat \<Rightarrow> u8"
  cons_r :: u32
  cons_w :: u32
  cons_e :: u32

datatype devfn = Consoleread | Consolewrite

record devsw =
  dev_read :: "devfn option"
  dev_write :: "devfn option"

record con_state = fs_state +
  uart_tx_buf :: "nat \<Rightarrow> u8"
  uart_tx_w :: u64
  uart_tx_r :: u64
  con :: cons
  devtab :: "nat \<Rightarrow> devsw"

definition set_con :: "(cons \<Rightarrow> cons) \<Rightarrow> (unit, 'z con_state_scheme) M" where
  "set_con f = modify (\<lambda>s. s\<lparr>con := f (con s)\<rparr>)"

section \<open>uart.c\<close>

definition uartinit :: "(unit, 'z con_state_scheme) M" where
  "uartinit =
     kthen (WriteReg IER 0) (
     kthen (WriteReg LCR LCR_BAUD_LATCH) (
     kthen (WriteReg 0 3) (
     kthen (WriteReg 1 0) (
     kthen (WriteReg LCR LCR_EIGHT_BITS) (
     kthen (WriteReg FCR (FCR_FIFO_ENABLE OR FCR_FIFO_CLEAR)) (
     kthen (WriteReg IER (IER_TX_ENABLE OR IER_RX_ENABLE))
     (initlock LkUart ''uart'')))))))"

definition uartstart_body :: "unit \<Rightarrow> (unit + unit, 'z con_state_scheme) M" where
  "uartstart_body = (\<lambda>_.
     kbind (gets uart_tx_w) (\<lambda>w.
     kbind (gets uart_tx_r) (\<lambda>r.
     if w = r then ret (Inr ()) else
     kbind (ReadReg LSR) (\<lambda>v.
     if v AND LSR_TX_IDLE = 0 then ret (Inr ()) else
     kbind (gets (\<lambda>s. uart_tx_buf s (unat r mod UART_TX_BUF_SIZE))) (\<lambda>c.
     kthen (modify (\<lambda>s. s\<lparr>uart_tx_r := r + 1\<rparr>)) (
     kthen (wakeup ChUartTx) (
     kthen (WriteReg THR (ucast c))
     (ret (Inl ()))))))))) "

text \<open>Every round takes a byte out of the buffer, so there are at most \<open>w - r\<close> of them.\<close>

definition uartstart :: "(unit, 'z con_state_scheme) M" where
  "uartstart =
     kbind (gets (\<lambda>s. unat (uart_tx_w s - uart_tx_r s))) (\<lambda>n.
     kloop (n + 1) uartstart_body ())"

text \<open>\<open>uartputc\<close> from the test of its loop on, where a call that slept comes back to.\<close>

definition uartputc_loop :: "u8 \<Rightarrow> (unit, 'z con_state_scheme) M" where
  "uartputc_loop c =
     kbind (gets uart_tx_w) (\<lambda>w.
     kbind (gets uart_tx_r) (\<lambda>r.
     if w = r + of_nat UART_TX_BUF_SIZE then sleep ChUartTx LkUart else
     kthen (modify (\<lambda>s. s\<lparr>uart_tx_buf := (uart_tx_buf s)(unat w mod UART_TX_BUF_SIZE := c)\<rparr>)) (
     kthen (modify (\<lambda>s. s\<lparr>uart_tx_w := w + 1\<rparr>)) (
     kthen uartstart
     (release LkUart)))))"

definition uartputc :: "u8 \<Rightarrow> (unit, 'z con_state_scheme) M" where
  "uartputc c =
     kthen (acquire LkUart) (
     kbind (gets panicked) (\<lambda>pk.
     if pk \<noteq> 0 then block Forever else uartputc_loop c))"

definition uartgetc :: "(int, 'z con_state_scheme) M" where
  "uartgetc =
     kbind (ReadReg LSR) (\<lambda>v.
     if v AND 1 \<noteq> 0 then kbind (ReadReg RHR) (\<lambda>c. ret (uint c)) else ret (-1))"

section \<open>console.c\<close>

definition consolewrite :: "copy_src \<Rightarrow> int \<Rightarrow> (int, 'z con_state_scheme) M" where
  "consolewrite src n =
     kbind (kfor [0..<nat n] (\<lambda>i.
       kbind (either_copyin (src_add src (of_nat i)) 1) (\<lambda>(r, c).
       if r = -1 then ret (Some (int i)) else
       kthen (uartputc (c ! 0)) (ret None))))
     (\<lambda>r. ret (case r of Some i \<Rightarrow> i | None \<Rightarrow> max n 0))"

definition consoleread_body :: "int \<Rightarrow> int \<times> copy_dst \<Rightarrow> ((int \<times> copy_dst) + int, 'z con_state_scheme) M" where
  "consoleread_body target = (\<lambda>(n, dst).
     if \<not> n > 0 then kthen (release LkCons) (ret (Inr (target - n))) else
     kbind (gets con) (\<lambda>k.
     if cons_r k = cons_w k then
       kbind curproc (\<lambda>p.
       kbind (killed p) (\<lambda>d.
       if d \<noteq> 0 then kthen (release LkCons) (ret (Inr (-1)))
       else sleep ChConsRead LkCons))
     else
       let c = cons_buf k (unat (cons_r k) mod INPUT_BUF_SIZE) in
       kthen (set_con (\<lambda>k. k\<lparr>cons_r := cons_r k + 1\<rparr>)) (
       if c = 4 then
         kthen (kwhen (n < target) (set_con (\<lambda>k. k\<lparr>cons_r := cons_r k - 1\<rparr>))) (
         kthen (release LkCons)
         (ret (Inr (target - n))))
       else
         kbind (either_copyout dst [c]) (\<lambda>r.
         if r = -1 then kthen (release LkCons) (ret (Inr (target - n)))
         else if c = 10 then kthen (release LkCons) (ret (Inr (target - (n - 1))))
         else ret (Inl (n - 1, dst_add dst 1))))))"

text \<open>The loop from its test on, with \<open>n\<close> bytes still wanted of \<open>target\<close>: also what a sleeping read goes on with.\<close>

definition consoleread_loop :: "int \<Rightarrow> int \<Rightarrow> copy_dst \<Rightarrow> (int, 'z con_state_scheme) M" where
  "consoleread_loop target n dst = kloop (nat n + 1) (consoleread_body target) (n, dst)"

definition consoleread :: "copy_dst \<Rightarrow> int \<Rightarrow> (int, 'z con_state_scheme) M" where
  "consoleread dst n = kthen (acquire LkCons) (consoleread_loop n n dst)"

definition kill_line_body :: "unit \<Rightarrow> (unit + unit, 'z con_state_scheme) M" where
  "kill_line_body = (\<lambda>_.
     kbind (gets con) (\<lambda>k.
     if cons_e k \<noteq> cons_w k \<and> cons_buf k (unat (cons_e k - 1) mod INPUT_BUF_SIZE) \<noteq> 10 then
       kthen (set_con (\<lambda>k. k\<lparr>cons_e := cons_e k - 1\<rparr>)) (
       kthen (consputc BACKSPACE)
       (ret (Inl ())))
     else ret (Inr ())))"

definition consoleintr :: "int \<Rightarrow> (unit, 'z con_state_scheme) M" where
  "consoleintr c =
     kthen (acquire LkCons) (
     kthen (
       if c = 16 then procdump
       else if c = 21 then
         kbind (gets con) (\<lambda>k. kloop (unat (cons_e k - cons_w k) + 1) kill_line_body ())
       else if c = 8 \<or> c = 127 then
         kbind (gets con) (\<lambda>k.
         kwhen (cons_e k \<noteq> cons_w k) (
           kthen (set_con (\<lambda>k. k\<lparr>cons_e := cons_e k - 1\<rparr>))
           (consputc BACKSPACE)))
       else
         kbind (gets con) (\<lambda>k.
         kwhen (c \<noteq> 0 \<and> unat (cons_e k - cons_r k) < INPUT_BUF_SIZE) (
           let c = (if c = 13 then 10 else c) in
           kthen (consputc c) (
           kthen (set_con (\<lambda>k. k\<lparr>cons_buf := (cons_buf k)(unat (cons_e k) mod INPUT_BUF_SIZE := of_int c),
             cons_e := cons_e k + 1\<rparr>)) (
           kbind (gets con) (\<lambda>k.
           kwhen (c = 10 \<or> c = 4 \<or> unat (cons_e k - cons_r k) = INPUT_BUF_SIZE) (
             kthen (set_con (\<lambda>k. k\<lparr>cons_w := cons_e k\<rparr>))
             (wakeup ChConsRead)))))))) (
     release LkCons))"

text \<open>The input loop of \<open>uartintr\<close> runs as long as the device has input: \<open>n\<close> bounds the number of polls.\<close>

definition uartintr_body :: "unit \<Rightarrow> (unit + unit, 'z con_state_scheme) M" where
  "uartintr_body = (\<lambda>_.
     kbind uartgetc (\<lambda>c.
     if c = -1 then ret (Inr ()) else
     kthen (consoleintr c) (ret (Inl ()))))"

definition uartintr :: "nat \<Rightarrow> (unit, 'z con_state_scheme) M" where
  "uartintr n =
     kthen (kloop n uartintr_body ()) (
     kthen (acquire LkUart) (
     kthen uartstart
     (release LkUart)))"

definition consoleinit :: "(unit, 'z con_state_scheme) M" where
  "consoleinit =
     kthen (initlock LkCons ''cons'') (
     kthen uartinit
     (modify (\<lambda>s. s\<lparr>devtab := (devtab s)(CONSOLE := \<lparr>dev_read = Some Consoleread, dev_write = Some Consolewrite\<rparr>)\<rparr>)))"

section \<open>The transmit buffer\<close>

definition tx_put :: "u8 \<Rightarrow> 'z con_state_scheme \<Rightarrow> 'z con_state_scheme" where
  "tx_put c s = s\<lparr>uart_tx_buf := (uart_tx_buf s)(unat (uart_tx_w s) mod UART_TX_BUF_SIZE := c), uart_tx_w := uart_tx_w s + 1\<rparr>"

definition tx_get :: "'z con_state_scheme \<Rightarrow> 'z con_state_scheme" where
  "tx_get s = s\<lparr>uart_tx_r := uart_tx_r s + 1\<rparr>"

interpretation tx: byte_ring uart_tx_buf uart_tx_r uart_tx_w tx_put tx_get UART_TX_BUF_SIZE
  by unfold_locales (simp_all add: UART_TX_BUF_SIZE_def tx_put_def tx_get_def dvd_def, presburger?)

definition tx_queue :: "'z con_state_scheme \<Rightarrow> u8 list" where
  "tx_queue s = ring_queue UART_TX_BUF_SIZE (uart_tx_buf s) (uart_tx_r s) (uart_tx_w s)"

lemma tx_queue_eq: "tx_queue s = tx.queue s"
  by (simp add: tx_queue_def tx.queue_def)

text \<open>Everything handed to the driver: the bytes sent and those waiting.\<close>

definition stream :: "'z con_state_scheme \<Rightarrow> u8 list" where
  "stream s = sent s @ tx_queue s"

lemma stream_hw [simp]: "tx_queue (s\<lparr>hw := h\<rparr>) = tx_queue s" "stream (s\<lparr>hw := h\<rparr>) = stream s"
  by (simp_all add: stream_def tx_queue_def sent_def)

lemma sent_cons:
  "sent (s\<lparr>bus_log := BusRead a # l\<rparr>) = sent (s\<lparr>bus_log := l\<rparr>)"
  "sent (s\<lparr>bus_log := BusWrite a v # l\<rparr>) = sent (s\<lparr>bus_log := l\<rparr>) @ (if a = UART0 + THR then [ucast v] else [])"
  by (simp_all add: sent_def sent_byte_def List.map_filter_simps)

lemma ucast_byte: "ucast (ucast c AND 255 :: u32) = (c :: u8)"
proof -
  have m: "(255 :: u32) = mask 8" by (simp add: mask_eq_exp_minus_1)
  show ?thesis unfolding m take_bit_eq_mask [symmetric] by (rule bit_word_eqI) (simp add: bit_simps)
qed

text \<open>One round: a byte moves from the buffer to the device, or the loop ends.\<close>

lemma runs_uartstart_body:
  assumes "others_idle (hw s)"
  shows "runs (uartstart_body l) s (\<lambda>r t. hw t = hw s \<and> wakes (procs s) (procs t) \<and> stream t = stream s \<and>
    (case r of Inl _ \<Rightarrow> length (tx_queue t) < length (tx_queue s) | Inr _ \<Rightarrow> tx_queue t = tx_queue s))"
proof (cases "uart_tx_w s = uart_tx_r s")
  case True
  then show ?thesis by (simp add: uartstart_body_def)
next
  case False
  let ?c = "uart_tx_buf s (unat (uart_tx_r s) mod UART_TX_BUF_SIZE)"
  let ?l = "s\<lparr>bus_log := BusRead (UART0 + LSR) # bus_log s\<rparr>"
  let ?g = "tx_get ?l"
  let ?w = "?g\<lparr>procs := wake_all (c_proc (cur_cpu (hw s))) ChUartTx (procs s)\<rparr>"
  let ?u = "?w\<lparr>bus_log := BusWrite (UART0 + THR) (ucast ?c AND 255) # bus_log ?w\<rparr>"
  have w: "wakeup ChUartTx ?g = Ok () ?w" using wakeup_app [of ?g] assms by (simp add: tx_get_def)
  have q: "tx_queue s = ?c # tx_queue ?u"
    using tx.queue_get [of s] False by (simp add: tx_queue_def tx.queue_def tx_get_def)
  have st: "stream ?u = stream s"
  proof -
    have "sent ?u = sent s @ [?c]" by (simp add: sent_cons tx_get_def ucast_byte) (simp add: sent_def)
    then show ?thesis using q by (simp add: stream_def)
  qed
  have sl: "stream ?l = stream s" "tx_queue ?l = tx_queue s"
    by (simp_all add: stream_def sent_cons tx_queue_def sent_def List.map_filter_simps sent_byte_def)
  have eq: "uartstart_body l s = (if (bus s (bus_log s) (UART0 + LSR) AND 255) AND LSR_TX_IDLE = 0 then Ok (Inr ()) ?l else Ok (Inl ()) ?u)"
  proof (cases "(bus s (bus_log s) (UART0 + LSR) AND 255) AND LSR_TX_IDLE = 0")
    case True
    then have "runs (uartstart_body l) s (\<lambda>x t. x = Inr () \<and> t = ?l)" using False by (simp add: uartstart_body_def ReadReg_def)
    from runs_eqI [OF this] show ?thesis using True by simp
  next
    case idle: False
    have "runs (uartstart_body l) s (\<lambda>x t. x = Inl () \<and> t = ?u)"
      using False idle w by (simp add: uartstart_body_def ReadReg_def WriteReg_def tx_get_def runs_app)
    from runs_eqI [OF this] show ?thesis using idle by simp
  qed
  show ?thesis unfolding runs_def eq using st sl q by (simp add: tx_get_def)
qed

lemma runs_uartstart:
  fixes s :: "'z con_state_scheme"
  assumes "others_idle (hw s)"
  shows "runs uartstart s (\<lambda>_ t. hw t = hw s \<and> wakes (procs s) (procs t) \<and> stream t = stream s \<and> length (tx_queue t) \<le> length (tx_queue s))"
proof -
  let ?I = "\<lambda>(l :: unit) (t :: 'z con_state_scheme). hw t = hw s \<and> wakes (procs s) (procs t) \<and> stream t = stream s \<and> length (tx_queue t) \<le> length (tx_queue s)"
  have loop: "runs (kloop n uartstart_body l) t (\<lambda>_. ?I ())" if "?I () t" "length (tx_queue t) < n" for n l t
    using that
  proof (induction n arbitrary: l t)
    case (Suc n)
    have "others_idle (hw t)" using assms Suc.prems by simp
    from runs_uartstart_body [OF this, of l]
    have "runs (uartstart_body l) t (\<lambda>r u. case r of Inl l' \<Rightarrow> runs (kloop n uartstart_body l') u (\<lambda>_. ?I ()) | Inr b \<Rightarrow> ?I () u)"
    proof (rule runs_mono)
      fix r :: "unit + unit" and u :: "'z con_state_scheme"
      assume r: "hw u = hw t \<and> wakes (procs t) (procs u) \<and> stream u = stream t \<and>
        (case r of Inl _ \<Rightarrow> length (tx_queue u) < length (tx_queue t) | Inr _ \<Rightarrow> tx_queue u = tx_queue t)"
      have wk: "wakes (procs s) (procs u)" using r Suc.prems(1) wakes_trans by blast
      show "case r of Inl l' \<Rightarrow> runs (kloop n uartstart_body l') u (\<lambda>_. ?I ()) | Inr b \<Rightarrow> ?I () u"
        using r wk Suc.prems Suc.IH [of u "()"] by (cases r) simp_all
    qed
    then show ?case by (simp cong: sum.case_cong)
  qed simp
  have "length (tx_queue s) = unat (uart_tx_w s - uart_tx_r s)" by (simp add: tx_queue_def)
  then show ?thesis using loop [of s "unat (uart_tx_w s - uart_tx_r s) + 1"] by (simp add: uartstart_def del: kloop.simps)
qed

lemma others_acq: "others_idle h \<Longrightarrow> (\<And>p. lk \<noteq> LkProc p) \<Longrightarrow> others_idle (acq lk h)"
  by (simp add: others_idle_def)

lemma runs_uartputc:
  fixes s :: "'z con_state_scheme"
  assumes i: "others_idle (hw s)" "lock_idle (hw s) LkUart" and "panicked s = 0" and room: "length (tx_queue s) < UART_TX_BUF_SIZE"
    and P: "\<And>t. hw t = hw s \<Longrightarrow> wakes (procs s) (procs t) \<Longrightarrow> stream t = stream s @ [c] \<Longrightarrow>
      length (tx_queue t) \<le> Suc (length (tx_queue s)) \<Longrightarrow> P () t"
  shows "runs (uartputc c) s P"
proof -
  let ?a = "s\<lparr>hw := acq LkUart (hw s)\<rparr>"
  have ok: "hart_ok (hw s)" using i(1) by (simp add: others_idle_def)
  have nf: "uart_tx_w s \<noteq> uart_tx_r s + of_nat UART_TX_BUF_SIZE" using room tx.full_iff [of s] by (auto simp: tx_queue_eq)
  have q: "tx_queue (tx_put c ?a) = tx_queue s @ [c]"
    using room tx.queue_put [of ?a c] by (simp add: tx_queue_eq tx.queue_def)
  have st: "stream (tx_put c ?a) = stream s @ [c]" using q by (simp add: stream_def) (simp add: sent_def tx_put_def)
  have o: "others_idle (hw (tx_put c ?a))" using others_acq [OF i(1), of LkUart] by (simp add: tx_put_def)
  have "runs uartstart (tx_put c ?a) (\<lambda>_ t. runs (release LkUart) t P)"
    using runs_uartstart [OF o]
  proof (rule runs_mono)
    fix x :: unit and t :: "'z con_state_scheme"
    assume t: "hw t = hw (tx_put c ?a) \<and> wakes (procs (tx_put c ?a)) (procs t) \<and> stream t = stream (tx_put c ?a) \<and>
      length (tx_queue t) \<le> length (tx_queue (tx_put c ?a))"
    have h: "hw t = acq LkUart (hw s)" using t by (simp add: tx_put_def)
    have "P () (t\<lparr>hw := hw s\<rparr>)"
      by (rule P) (use t q st in \<open>simp_all add: tx_put_def\<close>)
    then show "runs (release LkUart) t P" using ok i(2) by (simp add: h)
  qed
  then show ?thesis using assms(3) nf ok i(2)
    by (simp add: uartputc_def uartputc_loop_def tx_put_def)
qed

section \<open>The line discipline\<close>

definition con_put :: "u8 \<Rightarrow> cons \<Rightarrow> cons" where
  "con_put c k = k\<lparr>cons_buf := (cons_buf k)(unat (cons_e k) mod INPUT_BUF_SIZE := c), cons_e := cons_e k + 1\<rparr>"

definition con_get :: "cons \<Rightarrow> cons" where
  "con_get k = k\<lparr>cons_r := cons_r k + 1\<rparr>"

interpretation cin: byte_ring cons_buf cons_r cons_e con_put con_get INPUT_BUF_SIZE
  by unfold_locales (simp_all add: INPUT_BUF_SIZE_def con_put_def con_get_def)

text \<open>What a reader can take, and the line being edited.\<close>

definition con_lines :: "cons \<Rightarrow> u8 list" where
  "con_lines k = ring_queue INPUT_BUF_SIZE (cons_buf k) (cons_r k) (cons_w k)"

definition con_edit :: "cons \<Rightarrow> u8 list" where
  "con_edit k = ring_queue INPUT_BUF_SIZE (cons_buf k) (cons_w k) (cons_e k)"

definition con_ok :: "cons \<Rightarrow> bool" where
  "con_ok k \<longleftrightarrow> unat (cons_w k - cons_r k) \<le> unat (cons_e k - cons_r k) \<and> unat (cons_e k - cons_r k) \<le> INPUT_BUF_SIZE"

text \<open>The discipline on two lists: \<open>^U\<close> drops the line up to the newline before it, backspace and delete drop a byte,
  a carriage return counts as a newline, and newline, \<open>^D\<close> or a full buffer hand the line over. Beside the
  lists, the bytes echoed.\<close>

definition type_byte :: "int \<Rightarrow> u8 list \<times> u8 list \<Rightarrow> u8 list \<times> u8 list" where
  "type_byte c = (\<lambda>(ls, ed).
     if c = 21 then (ls, rev (dropWhile (\<lambda>b. b \<noteq> 10) (rev ed)))
     else if c = 8 \<or> c = 127 then (ls, butlast ed)
     else if c = 0 \<or> length ls + length ed \<ge> INPUT_BUF_SIZE then (ls, ed)
     else
       let b = (if c = 13 then 10 else of_int c) in
       if b = 10 \<or> b = 4 \<or> length ls + length ed + 1 = INPUT_BUF_SIZE then (ls @ ed @ [b], []) else (ls, ed @ [b]))"

definition echo_byte :: "int \<Rightarrow> u8 list \<times> u8 list \<Rightarrow> u8 list" where
  "echo_byte c = (\<lambda>(ls, ed).
     if c = 21 then concat (replicate (length (takeWhile (\<lambda>b. b \<noteq> 10) (rev ed))) [8, 32, 8])
     else if c = 8 \<or> c = 127 then (if ed = [] then [] else [8, 32, 8])
     else if c = 0 \<or> length ls + length ed \<ge> INPUT_BUF_SIZE then []
     else [if c = 13 then 10 else of_int c])"

lemma con_split:
  assumes "con_ok k"
  shows "cin.queue k = con_lines k @ con_edit k" "unat (cons_e k - cons_r k) = length (con_lines k) + length (con_edit k)"
proof -
  show q: "cin.queue k = con_lines k @ con_edit k"
    using assms unfolding cin.queue_def con_lines_def con_edit_def con_ok_def
    by (intro ring_queue_split) (simp_all add: INPUT_BUF_SIZE_def)
  have "length (cin.queue k) = unat (cons_e k - cons_r k)" by (simp add: cin.queue_def)
  then show "unat (cons_e k - cons_r k) = length (con_lines k) + length (con_edit k)" using q by simp
qed

lemma con_put_ok:
  assumes "con_ok k" "unat (cons_e k - cons_r k) < INPUT_BUF_SIZE"
  shows "con_ok (con_put c k)" "con_lines (con_put c k) = con_lines k" "con_edit (con_put c k) = con_edit k @ [c]"
proof -
  have q: "cin.queue (con_put c k) = cin.queue k @ [c]"
    using assms(2) by (intro cin.queue_put) (simp add: cin.queue_def)
  have n: "unat (cons_e k + 1 - cons_r k) = Suc (unat (cons_e k - cons_r k))"
    using arg_cong [OF q, of length] by (simp add: cin.queue_def con_put_def)
  show ok: "con_ok (con_put c k)" using assms n by (simp add: con_ok_def con_put_def)
  have "con_lines (con_put c k) @ con_edit (con_put c k) = con_lines k @ (con_edit k @ [c])"
    using q con_split(1) [OF ok] con_split(1) [OF assms(1)] by simp
  moreover have "length (con_lines (con_put c k)) = length (con_lines k)" by (simp add: con_lines_def con_put_def)
  ultimately show "con_lines (con_put c k) = con_lines k" "con_edit (con_put c k) = con_edit k @ [c]" by simp_all
qed

lemma con_back:
  assumes "con_ok k" "cons_e k \<noteq> cons_w k"
  defines "j \<equiv> k\<lparr>cons_e := cons_e k - 1\<rparr>"
  shows "con_ok j" "con_lines j = con_lines k" "con_edit j = butlast (con_edit k)"
    "con_edit k \<noteq> []" "last (con_edit k) = cons_buf k (unat (cons_e k - 1) mod INPUT_BUF_SIZE)"
proof -
  show e: "con_edit j = butlast (con_edit k)" using assms(2) by (simp add: j_def con_edit_def ring_queue_back)
  show "con_lines j = con_lines k" by (simp add: j_def con_lines_def)
  have ne: "con_edit k \<noteq> []" using assms(2) by (simp add: con_edit_def)
  have sp: "unat (cons_e k - cons_r k) = length (con_lines k) + length (con_edit k)" by (rule con_split(2) [OF assms(1)])
  then have "cons_e k - cons_r k \<noteq> 0" using ne by auto
  then have "unat (cons_e k - cons_r k - 1) = unat (cons_e k - cons_r k) - 1" by (rule unat_minus_one)
  moreover have "cons_e k - 1 - cons_r k = cons_e k - cons_r k - 1" by simp
  ultimately have u: "unat (cons_e k - 1 - cons_r k) = unat (cons_e k - cons_r k) - 1" by (simp only:)
  have l: "unat (cons_w k - cons_r k) = length (con_lines k)" by (simp add: con_lines_def)
  have "0 < length (con_edit k)" using ne by simp
  moreover have "cons_w j = cons_w k" "cons_r j = cons_r k" "cons_e j = cons_e k - 1" by (simp_all add: j_def)
  ultimately show "con_ok j" using assms(1) sp unfolding con_ok_def by (simp only: u l) linarith
  show "con_edit k \<noteq> []" by (rule ne)
  let ?n = "unat (cons_e k - cons_w k)"
  have n: "0 < ?n" using assms(2) by (simp add: unat_gt_0)
  have "last (con_edit k) = cons_buf k ((unat (cons_w k) + (?n - 1)) mod INPUT_BUF_SIZE)"
    using n by (simp add: con_edit_def ring_queue_def last_map)
  also have "(unat (cons_w k) + (?n - 1)) mod INPUT_BUF_SIZE = unat (cons_e k - 1) mod INPUT_BUF_SIZE"
  proof -
    have "of_nat (?n - 1) = cons_e k - cons_w k - 1" using n by (simp add: of_nat_diff)
    then have "cons_w k + of_nat (?n - 1) = cons_e k - 1" by (simp add: algebra_simps)
    then show ?thesis using cin.index_add [of "cons_w k" "?n - 1"] by simp
  qed
  finally show "last (con_edit k) = cons_buf k (unat (cons_e k - 1) mod INPUT_BUF_SIZE)" .
qed

lemma con_commit:
  assumes "con_ok k"
  shows "con_ok (k\<lparr>cons_w := cons_e k\<rparr>)" "con_lines (k\<lparr>cons_w := cons_e k\<rparr>) = con_lines k @ con_edit k" "con_edit (k\<lparr>cons_w := cons_e k\<rparr>) = []"
  using assms con_split(1) [OF assms] by (simp_all add: con_ok_def con_lines_def con_edit_def cin.queue_def)

lemma uart_ready_upd [simp]: "uart_ready (s\<lparr>con := k\<rparr>) = uart_ready s" "hart_ok h \<Longrightarrow> hart_ok (hw s) \<Longrightarrow> uart_ready (s\<lparr>hw := h\<rparr>) = uart_ready s"
  by (simp_all add: uart_ready_def)

lemma printed_con:
  assumes "printed s bs t"
  shows "con t = con s" "printed (s\<lparr>con := k\<rparr>) bs (t\<lparr>con := k\<rparr>)"
proof -
  have e: "s = t\<lparr>bus_log := bus_log s\<rparr>" using assms by (simp add: printed_def)
  show "con t = con s" by (subst e) simp
  have "(t\<lparr>con := k\<rparr>)\<lparr>bus_log := bus_log s\<rparr> = (t\<lparr>bus_log := bus_log s\<rparr>)\<lparr>con := k\<rparr>" by simp
  also have "\<dots> = s\<lparr>con := k\<rparr>" by (subst (2) e) simp
  finally show "printed (s\<lparr>con := k\<rparr>) bs (t\<lparr>con := k\<rparr>)" using assms by (simp add: printed_def sent_def)
qed

lemma runs_set_con: "runs (set_con f) s P = P () (s\<lparr>con := f (con s)\<rparr>)"
  by (simp add: set_con_def)

lemma con_upd: "con (s\<lparr>con := k\<rparr>) = k"
  by simp

lemma runs_consputc_byte:
  assumes "uart_ready s" "0 \<le> c" "c < 256" "\<And>t. printed s [of_int c] t \<Longrightarrow> P () t"
  shows "runs (consputc c) s P"
  using runs_uartputc_sync [OF assms(1), of c P] assms(2-4) by (simp add: consputc_def BACKSPACE_def)

lemma runs_consputc_back:
  assumes r: "uart_ready s" and P: "\<And>t. printed s [8, 32, 8] t \<Longrightarrow> P () t"
  shows "runs (consputc BACKSPACE) s P"
proof -
  have "runs (uartputc_sync 8) s (\<lambda>_ t. runs (uartputc_sync 32) t (\<lambda>_ u. runs (uartputc_sync 8) u P))"
  proof (rule runs_uartputc_sync [OF r])
    fix t assume t: "printed s [of_int 8] t"
    note rt = uart_ready_printed [OF t r]
    show "runs (uartputc_sync 32) t (\<lambda>_ u. runs (uartputc_sync 8) u P)"
    proof (rule runs_uartputc_sync [OF rt])
      fix u assume u: "printed t [of_int 32] u"
      show "runs (uartputc_sync 8) u P"
      proof (rule runs_uartputc_sync [OF uart_ready_printed [OF u rt]])
        fix v assume v: "printed u [of_int 8] v"
        show "P () v" using printed_trans [OF t printed_trans [OF u v]] by (intro P) simp
      qed
    qed
  qed
  then show ?thesis by (simp add: consputc_def)
qed

lemma runs_kill_line_body:
  "runs (kill_line_body l) s P =
     (if cons_e (con s) \<noteq> cons_w (con s) \<and> cons_buf (con s) (unat (cons_e (con s) - 1) mod INPUT_BUF_SIZE) \<noteq> 10
      then runs (consputc BACKSPACE) (s\<lparr>con := (con s)\<lparr>cons_e := cons_e (con s) - 1\<rparr>\<rparr>) (\<lambda>_. P (Inl ()))
      else P (Inr ()) s)"
  by (simp add: kill_line_body_def set_con_def)

lemma runs_kill_line:
  assumes "uart_ready s" "con_ok (con s)" "length (con_edit (con s)) < n"
  shows "runs (kloop n kill_line_body ()) s (\<lambda>_ t. \<exists>k.
    printed (s\<lparr>con := k\<rparr>) (concat (replicate (length (takeWhile (\<lambda>b. b \<noteq> 10) (rev (con_edit (con s))))) [8, 32, 8])) t \<and>
    con_ok k \<and> con_lines k = con_lines (con s) \<and> con_edit k = rev (dropWhile (\<lambda>b. b \<noteq> 10) (rev (con_edit (con s)))))"
  using assms
proof (induction n arbitrary: s)
  case (Suc n)
  let ?k = "con s" and ?ed = "con_edit (con s)"
  let ?Q = "\<lambda>s t. \<exists>k. printed (s\<lparr>con := k\<rparr>) (concat (replicate (length (takeWhile (\<lambda>b. b \<noteq> 10) (rev (con_edit (con s))))) [8, 32, 8])) t \<and>
    con_ok k \<and> con_lines k = con_lines (con s) \<and> con_edit k = rev (dropWhile (\<lambda>b. b \<noteq> 10) (rev (con_edit (con s))))"
  show ?case
  proof (cases "cons_e ?k \<noteq> cons_w ?k \<and> cons_buf ?k (unat (cons_e ?k - 1) mod INPUT_BUF_SIZE) \<noteq> 10")
    case True
    let ?j = "?k\<lparr>cons_e := cons_e ?k - 1\<rparr>"
    have ne: "?ed \<noteq> []" "last ?ed \<noteq> 10" using True con_back(4,5) [OF Suc.prems(2)] by auto
    then have rv: "rev ?ed = last ?ed # rev (butlast ?ed)" by (metis append_butlast_last_id rev.simps(2) rev_rev_ident rev_append singleton_rev_conv append_Cons append_Nil)
    have j: "con_ok ?j" "con_lines ?j = con_lines ?k" "con_edit ?j = butlast ?ed" using True con_back(1-3) [OF Suc.prems(2)] by auto
    have "runs (consputc BACKSPACE) (s\<lparr>con := ?j\<rparr>) (\<lambda>_ t. runs (kloop n kill_line_body ()) t (\<lambda>_. ?Q s))"
    proof (rule runs_consputc_back)
      show "uart_ready (s\<lparr>con := ?j\<rparr>)" using Suc.prems(1) by simp
      fix t assume t: "printed (s\<lparr>con := ?j\<rparr>) [8, 32, 8] t"
      have ct: "con t = ?j" using printed_con(1) [OF t] by simp
      have "uart_ready t" using uart_ready_printed [OF t] Suc.prems(1) by simp
      then have "runs (kloop n kill_line_body ()) t (\<lambda>_. ?Q t)"
      proof (rule Suc.IH)
        have "0 < length ?ed" using ne(1) by simp
        then show "length (con_edit (con t)) < n" using Suc.prems(3) unfolding ct j(3) length_butlast by linarith
      qed (simp add: ct j(1))
      then show "runs (kloop n kill_line_body ()) t (\<lambda>_. ?Q s)"
      proof (rule runs_mono)
        fix u assume "?Q t u"
        then obtain k where k: "printed (t\<lparr>con := k\<rparr>) (concat (replicate (length (takeWhile (\<lambda>b. b \<noteq> 10) (rev (con_edit (con t))))) [8, 32, 8])) u"
          "con_ok k" "con_lines k = con_lines (con t)" "con_edit k = rev (dropWhile (\<lambda>b. b \<noteq> 10) (rev (con_edit (con t))))" by blast
        have "printed (s\<lparr>con := k\<rparr>) [8, 32, 8] (t\<lparr>con := k\<rparr>)" using printed_con(2) [OF t, of k] by simp
        from printed_trans [OF this k(1)] show "?Q s u"
          using k(2-4) ne(2) j by (intro exI [of _ k]) (simp add: ct rv)
      qed
    qed
    then show ?thesis unfolding kloop.simps runs_kbind runs_kill_line_body if_P [OF True] by simp
  next
    case False
    have d: "takeWhile (\<lambda>b. b \<noteq> 10) (rev ?ed) = []" "dropWhile (\<lambda>b. b \<noteq> 10) (rev ?ed) = rev ?ed"
    proof -
      have "?ed = [] \<or> last ?ed = 10" 
        using False con_back(5) [OF Suc.prems(2)] by (cases "cons_e ?k = cons_w ?k") (simp add: con_edit_def, simp)
      then have "rev ?ed = [] \<or> hd (rev ?ed) = 10" by (auto simp: hd_rev)
      then show "takeWhile (\<lambda>b. b \<noteq> 10) (rev ?ed) = []" "dropWhile (\<lambda>b. b \<noteq> 10) (rev ?ed) = rev ?ed"
        by (cases "rev ?ed"; simp)+
    qed
    have "?Q s s" using Suc.prems(2) printed_refl [of s] by (intro exI [of _ ?k]) (simp add: d)
    then show ?thesis unfolding kloop.simps runs_kbind runs_kill_line_body if_not_P [OF False] by simp
  qed
qed simp

text \<open>What typing a byte leaves, as a predicate on the two states.\<close>

definition typed :: "'z con_state_scheme \<Rightarrow> int \<Rightarrow> 'z con_state_scheme \<Rightarrow> bool" where
  "typed s c t \<longleftrightarrow> con_ok (con t) \<and>
     (con_lines (con t), con_edit (con t)) = type_byte c (con_lines (con s), con_edit (con s)) \<and>
     sent t = sent s @ echo_byte c (con_lines (con s), con_edit (con s)) \<and> hw t = hw s \<and> wakes (procs s) (procs t)"

lemma typedI:
  assumes "printed (s\<lparr>con := k\<rparr>) bs t" "con_ok k" "(con_lines k, con_edit k) = type_byte c (con_lines (con s), con_edit (con s))"
    "bs = echo_byte c (con_lines (con s), con_edit (con s))"
  shows "typed s c t"
proof -
  have "con t = k" "hw t = hw s" "procs t = procs s" using printed_con(1) [OF assms(1)] printedD(3,5) [OF assms(1)] by simp_all
  moreover have "sent t = sent s @ bs" using assms(1) by (simp add: printed_def) (simp add: sent_def)
  ultimately show ?thesis using assms(2-4) by (simp add: typed_def)
qed

lemma runs_type_kill:
  assumes "uart_ready s" "con_ok (con s)"
  shows "runs (kloop (unat (cons_e (con s) - cons_w (con s)) + 1) kill_line_body ()) s (\<lambda>_. typed s 21)"
proof (rule runs_mono [OF runs_kill_line [OF assms]])
  show "length (con_edit (con s)) < unat (cons_e (con s) - cons_w (con s)) + 1" by (simp add: con_edit_def)
  fix x :: unit and t
  assume "\<exists>k. printed (s\<lparr>con := k\<rparr>) (concat (replicate (length (takeWhile (\<lambda>b. b \<noteq> 10) (rev (con_edit (con s))))) [8, 32, 8])) t \<and>
    con_ok k \<and> con_lines k = con_lines (con s) \<and> con_edit k = rev (dropWhile (\<lambda>b. b \<noteq> 10) (rev (con_edit (con s))))"
  then show "typed s 21 t" by (elim exE conjE) (rule typedI, assumption+, simp_all add: type_byte_def echo_byte_def)
qed

lemma runs_type_back:
  assumes "uart_ready s" "con_ok (con s)" "c = 8 \<or> c = 127"
  shows "runs (kwhen (cons_e (con s) \<noteq> cons_w (con s)) (kthen (set_con (\<lambda>k. k\<lparr>cons_e := cons_e k - 1\<rparr>)) (consputc BACKSPACE))) s
    (\<lambda>_. typed s c)"
proof (cases "cons_e (con s) = cons_w (con s)")
  case True
  then have "con_edit (con s) = []" by (simp add: con_edit_def)
  then have "typed s c s" using assms(2,3) by (intro typedI [where k = "con s" and bs = "[]"]) (auto simp: type_byte_def echo_byte_def printed_refl)
  then show ?thesis using True by (simp add: kwhen_def)
next
  case False
  let ?k = "(con s)\<lparr>cons_e := cons_e (con s) - 1\<rparr>"
  have "runs (consputc BACKSPACE) (s\<lparr>con := ?k\<rparr>) (\<lambda>_. typed s c)"
  proof (rule runs_consputc_back)
    fix t assume "printed (s\<lparr>con := ?k\<rparr>) [8, 32, 8] t"
    then show "typed s c t"
      using con_back [OF assms(2) False] assms(3) by (intro typedI [where k = ?k and bs = "[8, 32, 8]"]) (auto simp: type_byte_def echo_byte_def)
  qed (use assms(1) in simp)
  then show ?thesis using False by (simp add: kwhen_def set_con_def)
qed

lemma type_byte_room:
  assumes "0 \<le> c" "c < 256" "c \<noteq> 0" "c \<noteq> 21" "c \<noteq> 8" "c \<noteq> 127" "length ls + length ed < INPUT_BUF_SIZE"
  defines "d \<equiv> if c = 13 then 10 else c"
  shows "type_byte c (ls, ed) = (if d = 10 \<or> d = 4 \<or> length ls + length ed + 1 = INPUT_BUF_SIZE
      then (ls @ ed @ [of_int d], []) else (ls, ed @ [of_int d]))" "echo_byte c (ls, ed) = [of_int d]" "0 \<le> d" "d < 256"
proof -
  have w: "(of_int d :: u8) = 10 \<longleftrightarrow> d = 10" "(of_int d :: u8) = 4 \<longleftrightarrow> d = 4"
  proof -
    have u: "uint (of_int d :: u8) = d" using assms(1,2) by (simp add: d_def uint_word_of_int_eq take_bit_int_eq_self)
    show "(of_int d :: u8) = 10 \<longleftrightarrow> d = 10" "(of_int d :: u8) = 4 \<longleftrightarrow> d = 4"
      using u by (auto simp del: of_int_numeral dest: arg_cong [of _ _ uint])
  qed
  have b: "(if c = 13 then 10 else of_int c :: u8) = of_int d" by (simp add: d_def)
  show "type_byte c (ls, ed) = (if d = 10 \<or> d = 4 \<or> length ls + length ed + 1 = INPUT_BUF_SIZE
      then (ls @ ed @ [of_int d], []) else (ls, ed @ [of_int d]))"
    using assms(3-7) unfolding type_byte_def b by (simp add: w Let_def)
  show "echo_byte c (ls, ed) = [of_int d]" using assms(3-7) unfolding echo_byte_def b by simp
  show "0 \<le> d" "d < 256" using assms(1,2) by (simp_all add: d_def)
qed

lemma runs_type_byte:
  assumes r: "uart_ready s" and o: "others_idle (hw s)" and ok: "con_ok (con s)" and c: "0 \<le> c" "c < 256" "c \<noteq> 21" "c \<noteq> 8" "c \<noteq> 127"
  defines "d \<equiv> if c = 13 then 10 else c"
  shows "runs (kwhen (c \<noteq> 0 \<and> unat (cons_e (con s) - cons_r (con s)) < INPUT_BUF_SIZE) (
      kthen (consputc d) (
      kthen (set_con (\<lambda>k. k\<lparr>cons_buf := (cons_buf k)(unat (cons_e k) mod INPUT_BUF_SIZE := of_int d), cons_e := cons_e k + 1\<rparr>)) (
      kbind (gets con) (\<lambda>k.
      kwhen (d = 10 \<or> d = 4 \<or> unat (cons_e k - cons_r k) = INPUT_BUF_SIZE) (
        kthen (set_con (\<lambda>k. k\<lparr>cons_w := cons_e k\<rparr>))
        (wakeup ChConsRead))))))) s (\<lambda>_. typed s c)"
proof (cases "c \<noteq> 0 \<and> unat (cons_e (con s) - cons_r (con s)) < INPUT_BUF_SIZE")
  case False
  note sp = con_split(2) [OF ok]
  have "typed s c s"
    using False ok sp c by (intro typedI [where k = "con s" and bs = "[]"]) (auto simp: type_byte_def echo_byte_def printed_refl)
  then show ?thesis unfolding kwhen_def if_not_P [OF False] by simp
next
  case True
  let ?ls = "con_lines (con s)" and ?ed = "con_edit (con s)" and ?k = "con_put (of_int d) (con s)"
  note sp = con_split(2) [OF ok]
  have room: "length ?ls + length ?ed < INPUT_BUF_SIZE" using True sp by simp
  have "c \<noteq> 0" using True by simp
  note tb = type_byte_room [OF c(1,2) this c(3-5) room, folded d_def]
  note put = con_put_ok [OF ok, of "of_int d"]
  have ko: "con_ok ?k" "con_lines ?k = ?ls" "con_edit ?k = ?ed @ [of_int d]" using put True by simp_all
  have full: "unat (cons_e ?k - cons_r ?k) = length ?ls + length ?ed + 1" using con_split(2) [OF ko(1)] ko by simp
  have fin: "runs (kwhen (d = 10 \<or> d = 4 \<or> unat (cons_e ?k - cons_r ?k) = INPUT_BUF_SIZE) (
        kthen (set_con (\<lambda>k. k\<lparr>cons_w := cons_e k\<rparr>)) (wakeup ChConsRead))) (t\<lparr>con := ?k\<rparr>) (\<lambda>_. typed s c)"
    if t: "printed s [of_int d] t" for t
  proof (cases "d = 10 \<or> d = 4 \<or> unat (cons_e ?k - cons_r ?k) = INPUT_BUF_SIZE")
    case False
    have "typed s c (t\<lparr>con := ?k\<rparr>)"
      by (rule typedI [OF printed_con(2) [OF t] ko(1)]) (use False full tb(1,2) ko in auto)
    then show ?thesis unfolding kwhen_def if_not_P [OF False] by simp
  next
    case yes: True
    let ?j = "?k\<lparr>cons_w := cons_e ?k\<rparr>"
    have j: "typed s c (t\<lparr>con := ?j\<rparr>)"
      by (rule typedI [OF printed_con(2) [OF t] con_commit(1) [OF ko(1)]]) (use yes full tb(1,2) ko con_commit(2,3) [OF ko(1)] in auto)
    have h: "hw t = hw s" "procs t = procs s" using printedD(3,5) [OF t] by simp_all
    have "wakeup ChConsRead (t\<lparr>con := ?j\<rparr>) = Ok () ((t\<lparr>con := ?j\<rparr>)\<lparr>procs := wake_all (c_proc (cur_cpu (hw s))) ChConsRead (procs s)\<rparr>)"
      using wakeup_app [of "t\<lparr>con := ?j\<rparr>"] o by (simp add: h)
    moreover have "typed s c ((t\<lparr>con := ?j\<rparr>)\<lparr>procs := wake_all (c_proc (cur_cpu (hw s))) ChConsRead (procs s)\<rparr>)"
      using j unfolding typed_def by (simp add: sent_def)
    ultimately show ?thesis unfolding kwhen_def if_P [OF yes] by (simp add: set_con_def runs_app)
  qed
  have "runs (consputc d) s (\<lambda>_ t. runs (kwhen (d = 10 \<or> d = 4 \<or> unat (cons_e ?k - cons_r ?k) = INPUT_BUF_SIZE) (
        kthen (set_con (\<lambda>k. k\<lparr>cons_w := cons_e k\<rparr>)) (wakeup ChConsRead))) (t\<lparr>con := ?k\<rparr>) (\<lambda>_. typed s c) \<and> con t = con s)"
    by (rule runs_consputc_byte [OF r tb(3,4)]) (rule conjI, rule fin, assumption, rule printed_con(1))
  then show ?thesis unfolding kwhen_def [of "c \<noteq> 0 \<and> _"] if_P [OF True] runs_kthen
    by (rule runs_mono) (simp only: runs_set_con runs_gets runs_kbind con_put_def con_upd)
qed

section \<open>Properties\<close>

text \<open>C32: The line discipline of the console. Typing any byte but \<open>^P\<close> changes the lines a reader can take and the line being
  edited as \<open>type_byte\<close> does, and echoes the bytes of \<open>echo_byte\<close>: \<open>^U\<close> erases the line, backspace and delete erase
  a byte, a carriage return is stored as a newline, and a newline, \<open>^D\<close> or a full buffer hand the line to the readers.
  The indices stay in order also when they wrap around, nothing is overwritten, the locks are as before, and
  processes change by wakeups only.\<close>

theorem console_line_discipline:
  assumes "uart_ready s" and "others_idle (hw s)" and "lock_idle (hw s) LkCons" and "con_ok (con s)"
    and "0 \<le> c" and "c < 256" and "c \<noteq> 16"
  shows "runs (consoleintr c) s (\<lambda>_ t. con_ok (con t) \<and>
    (con_lines (con t), con_edit (con t)) = type_byte c (con_lines (con s), con_edit (con s)) \<and>
    sent t = sent s @ echo_byte c (con_lines (con s), con_edit (con s)) \<and> hw t = hw s \<and> wakes (procs s) (procs t))"
proof -
  let ?a = "s\<lparr>hw := acq LkCons (hw s)\<rparr>"
  let ?rel = "\<lambda>_ t. runs (release LkCons) t (\<lambda>_ u. typed s c u)"
  have h: "hart_ok (hw s)" using assms(1) by (simp add: uart_ready_def)
  have a: "uart_ready ?a" "others_idle (hw ?a)" "con_ok (con ?a)" using assms(1,2,4) h by (simp_all add: others_acq)
  have rel: "?rel () t" if t: "typed ?a c t" for t
  proof -
    have "typed s c (t\<lparr>hw := hw s\<rparr>)" using t by (simp add: typed_def sent_def)
    then show ?thesis using t h assms(3) by (simp add: typed_def)
  qed
  consider (kill) "c = 21" | (erase) "c = 8 \<or> c = 127" | (other) "c \<noteq> 21" "c \<noteq> 8" "c \<noteq> 127" by blast
  then have "runs (consoleintr c) s (\<lambda>_. typed s c)"
  proof cases
    case kill
    have "runs (kloop (unat (cons_e (con ?a) - cons_w (con ?a)) + 1) kill_line_body ()) ?a ?rel"
      by (rule runs_mono [OF runs_type_kill [OF a(1,3)]]) (use rel kill in simp)
    then show ?thesis using kill assms(3) by (simp add: consoleintr_def del: kloop.simps runs_release)
  next
    case erase
    have "runs (kwhen (cons_e (con ?a) \<noteq> cons_w (con ?a)) (kthen (set_con (\<lambda>k. k\<lparr>cons_e := cons_e k - 1\<rparr>)) (consputc BACKSPACE))) ?a ?rel"
      by (rule runs_mono [OF runs_type_back [OF a(1,3) erase]]) (use rel in simp)
    then show ?thesis using erase assms(3) by (auto simp: consoleintr_def simp del: runs_release)
  next
    case other
    note run = runs_type_byte [OF a assms(5,6) other]
    show ?thesis using other assms(3,7) runs_mono [OF run, of ?rel] rel
      by (simp add: consoleintr_def Let_def del: runs_release)
  qed
  then show ?thesis by (rule runs_mono) (simp add: typed_def)
qed

text \<open>A console whose indices are about to wrap around, with the bytes \<open>ab\<close> typed.\<close>

definition demo_cons :: cons where
  "demo_cons = \<lparr>cons_buf = (\<lambda>i. if i = 126 then 97 else if i = 127 then 98 else 0), cons_r = -2, cons_w = -2, cons_e = 0\<rparr>"

definition demo_con :: con_state where
  "demo_con = fs_state.extend (demo_fs\<lparr>bus := (\<lambda>_ _. LSR_TX_IDLE)\<rparr>)
     (con_state.fields (\<lambda>_. 0) (- 1) (- 1) demo_cons (\<lambda>_. \<lparr>dev_read = None, dev_write = None\<rparr>))"

lemma demo_con_simps:
  "hw demo_con = run_hart" "con demo_con = demo_cons" "uart_ready demo_con" "panicked demo_con = 0"
  "uart_tx_r demo_con = - 1" "uart_tx_w demo_con = - 1" "sent demo_con = []"
  by (simp_all add: demo_con_def fs_state.defs con_state.defs demo_fs_def uart_ready_def LSR_TX_IDLE_def sent_def List.map_filter_simps)

theorem console_line_discipline_witness:
  "con_ok demo_cons \<and> con_edit demo_cons = [97, 98] \<and>
   runs (consoleintr 13) demo_con (\<lambda>_ t. con_lines (con t) = [97, 98, 10] \<and> con_edit (con t) = [] \<and> sent t = [10])"
proof -
  have e: "con_ok demo_cons" "con_edit demo_cons = [97, 98]" "con_lines demo_cons = []"
    by (simp_all add: con_ok_def con_edit_def con_lines_def ring_queue_def demo_cons_def INPUT_BUF_SIZE_def upt_rec)
  have "runs (consoleintr 13) demo_con (\<lambda>_ t. con_lines (con t) = [97, 98, 10] \<and> con_edit (con t) = [] \<and> sent t = [10])"
    by (rule runs_mono [OF console_line_discipline [of demo_con 13]])
       (simp_all add: demo_con_simps e type_byte_def echo_byte_def INPUT_BUF_SIZE_def)
  then show ?thesis using e by simp
qed



end
