(* ===== verification/Xv6_File.thy ===== *)
theory Xv6_File
  imports Xv6_Console
begin

text \<open>
  kernel/file.c and kernel/pipe.c. A pointer to a \<open>struct file\<close> is its index in the table. A pipe lives in
  a page from \<open>kalloc\<close> and is named by the address of that page; its members are kept in \<open>pipes\<close> beside the
  bytes of the page.
\<close>

section \<open>State\<close>

definition NFILE :: nat where "NFILE = 100"
definition PIPESIZE :: nat where "PIPESIZE = 512"

datatype fdtype = FD_NONE | FD_PIPE | FD_INODE | FD_DEVICE

record xfile =
  f_type :: fdtype
  f_ref :: int
  f_readable :: u8
  f_writable :: u8
  f_pipe :: u64
  f_ip :: "nat option"
  f_off :: u32
  f_major :: u16

record pipe =
  pi_data :: "nat \<Rightarrow> u8"
  pi_nread :: u32
  pi_nwrite :: u32
  pi_readopen :: int
  pi_writeopen :: int

record file_state = con_state +
  ftable :: "nat \<Rightarrow> xfile"
  pipes :: "u64 \<Rightarrow> pipe"

definition set_file :: "nat \<Rightarrow> (xfile \<Rightarrow> xfile) \<Rightarrow> (unit, 'z file_state_scheme) M" where
  "set_file f g = modify (\<lambda>s. s\<lparr>ftable := (ftable s)(f := g (ftable s f))\<rparr>)"

definition get_file :: "nat \<Rightarrow> (xfile \<Rightarrow> 'a) \<Rightarrow> ('a, 'z file_state_scheme) M" where
  "get_file f g = gets (\<lambda>s. g (ftable s f))"

definition set_pipe :: "u64 \<Rightarrow> (pipe \<Rightarrow> pipe) \<Rightarrow> (unit, 'z file_state_scheme) M" where
  "set_pipe pi g = modify (\<lambda>s. s\<lparr>pipes := (pipes s)(pi := g (pipes s pi))\<rparr>)"

definition get_pipe :: "u64 \<Rightarrow> (pipe, 'z file_state_scheme) M" where
  "get_pipe pi = gets (\<lambda>s. pipes s pi)"

definition the_ip :: "nat option \<Rightarrow> (nat, 'z file_state_scheme) M" where
  "the_ip ip = (case ip of None \<Rightarrow> fault ''null inode'' | Some i \<Rightarrow> ret i)"

section \<open>pipe.c\<close>

definition pipeclose :: "u64 \<Rightarrow> bool \<Rightarrow> (unit, 'z file_state_scheme) M" where
  "pipeclose pi writable =
     kthen (acquire (LkPipe pi)) (
     kthen (if writable
       then kthen (set_pipe pi (\<lambda>q. q\<lparr>pi_writeopen := 0\<rparr>)) (wakeup (ChPipeRead pi))
       else kthen (set_pipe pi (\<lambda>q. q\<lparr>pi_readopen := 0\<rparr>)) (wakeup (ChPipeWrite pi))) (
     kbind (get_pipe pi) (\<lambda>q.
     if pi_readopen q = 0 \<and> pi_writeopen q = 0
     then kthen (release (LkPipe pi)) (kfree pi)
     else release (LkPipe pi))))"

definition pipewrite_done :: "u64 \<Rightarrow> int \<Rightarrow> (int, 'z file_state_scheme) M" where
  "pipewrite_done pi i =
     kthen (wakeup (ChPipeRead pi)) (
     kthen (release (LkPipe pi))
     (ret i))"

definition pipewrite_body :: "u64 \<Rightarrow> nat \<Rightarrow> u64 \<Rightarrow> int \<Rightarrow> int \<Rightarrow> (int + int, 'z file_state_scheme) M" where
  "pipewrite_body pi pr addr n i =
     (if \<not> i < n then kbind (pipewrite_done pi i) (\<lambda>r. ret (Inr r)) else
      kbind (get_pipe pi) (\<lambda>q.
      kbind (if pi_readopen q = 0 then ret True else kbind (killed pr) (\<lambda>k. ret (k \<noteq> 0))) (\<lambda>stop.
      if stop then kthen (release (LkPipe pi)) (ret (Inr (-1)))
      else if pi_nwrite q = pi_nread q + of_nat PIPESIZE then
        kthen (wakeup (ChPipeRead pi))
        (sleep (ChPipeWrite pi) (LkPipe pi))
      else
        kbind (get_proc pr) (\<lambda>pp.
        kbind (copyin (p_pagetable pp) (addr + of_int i) 1) (\<lambda>(r, ch).
        if r = -1 then kbind (pipewrite_done pi i) (\<lambda>r. ret (Inr r)) else
        kthen (set_pipe pi (\<lambda>q. q\<lparr>pi_data := (pi_data q)(unat (pi_nwrite q) mod PIPESIZE := ch ! 0),
          pi_nwrite := pi_nwrite q + 1\<rparr>))
        (ret (Inl (i + 1))))))))"

text \<open>The loop with \<open>i\<close> bytes written, also what a writer that slept goes on with.\<close>

definition pipewrite_loop :: "u64 \<Rightarrow> nat \<Rightarrow> u64 \<Rightarrow> int \<Rightarrow> int \<Rightarrow> (int, 'z file_state_scheme) M" where
  "pipewrite_loop pi pr addr n i = kloop (nat (n - i) + 1) (pipewrite_body pi pr addr n) i"

definition pipewrite :: "u64 \<Rightarrow> u64 \<Rightarrow> int \<Rightarrow> (int, 'z file_state_scheme) M" where
  "pipewrite pi addr n =
     kbind curproc (\<lambda>pr.
     kthen (acquire (LkPipe pi))
     (pipewrite_loop pi pr addr n 0))"

definition piperead_copy :: "u64 \<Rightarrow> nat \<Rightarrow> u64 \<Rightarrow> nat \<Rightarrow> (int option, 'z file_state_scheme) M" where
  "piperead_copy pi pr addr i =
     kbind (get_pipe pi) (\<lambda>q.
     if pi_nread q = pi_nwrite q then ret (Some (int i)) else
     let ch = pi_data q (unat (pi_nread q) mod PIPESIZE) in
     kthen (set_pipe pi (\<lambda>q. q\<lparr>pi_nread := pi_nread q + 1\<rparr>)) (
     kbind (get_proc pr) (\<lambda>pp.
     kbind (copyout (p_pagetable pp) (addr + of_nat i) [ch]) (\<lambda>r.
     ret (if r = -1 then Some (int i) else None)))))"

definition piperead_loop :: "u64 \<Rightarrow> nat \<Rightarrow> u64 \<Rightarrow> int \<Rightarrow> (int, 'z file_state_scheme) M" where
  "piperead_loop pi pr addr n =
     kbind (get_pipe pi) (\<lambda>q.
     if pi_nread q = pi_nwrite q \<and> pi_writeopen q \<noteq> 0 then
       kbind (killed pr) (\<lambda>k.
       if k \<noteq> 0 then kthen (release (LkPipe pi)) (ret (-1))
       else sleep (ChPipeRead pi) (LkPipe pi))
     else
       kbind (kfor [0..<nat n] (piperead_copy pi pr addr)) (\<lambda>r.
       kthen (wakeup (ChPipeWrite pi)) (
       kthen (release (LkPipe pi))
       (ret (case r of Some i \<Rightarrow> i | None \<Rightarrow> max n 0)))))"

definition piperead :: "u64 \<Rightarrow> u64 \<Rightarrow> int \<Rightarrow> (int, 'z file_state_scheme) M" where
  "piperead pi addr n =
     kbind curproc (\<lambda>pr.
     kthen (acquire (LkPipe pi))
     (piperead_loop pi pr addr n))"

section \<open>file.c\<close>

definition fileinit :: "(unit, 'z file_state_scheme) M" where
  "fileinit = initlock LkFtable ''ftable''"

definition filealloc :: "(nat option, 'z file_state_scheme) M" where
  "filealloc =
     kthen (acquire LkFtable) (
     kbind (kfor [0..<NFILE] (\<lambda>f.
       kbind (get_file f f_ref) (\<lambda>r.
       if r = 0 then kthen (set_file f (\<lambda>q. q\<lparr>f_ref := 1\<rparr>)) (ret (Some f)) else ret None)))
     (\<lambda>f.
     kthen (release LkFtable)
     (ret f)))"

definition filedup :: "nat \<Rightarrow> (nat, 'z file_state_scheme) M" where
  "filedup f =
     kthen (acquire LkFtable) (
     kbind (get_file f f_ref) (\<lambda>r.
     if r < 1 then panic ''filedup'' else
     kthen (set_file f (\<lambda>q. q\<lparr>f_ref := f_ref q + 1\<rparr>)) (
     kthen (release LkFtable)
     (ret f))))"

definition fileclose :: "nat \<Rightarrow> (unit, 'z file_state_scheme) M" where
  "fileclose f =
     kthen (acquire LkFtable) (
     kbind (get_file f f_ref) (\<lambda>r.
     if r < 1 then panic ''fileclose'' else
     kthen (set_file f (\<lambda>q. q\<lparr>f_ref := f_ref q - 1\<rparr>)) (
     kbind (get_file f (\<lambda>q. q)) (\<lambda>ff.
     if f_ref ff > 0 then release LkFtable else
     kthen (set_file f (\<lambda>q. q\<lparr>f_ref := 0, f_type := FD_NONE\<rparr>)) (
     kthen (release LkFtable) (
     if f_type ff = FD_PIPE then pipeclose (f_pipe ff) (f_writable ff \<noteq> 0)
     else if f_type ff = FD_INODE \<or> f_type ff = FD_DEVICE then
       kthen begin_op (
       kbind (the_ip (f_ip ff)) (\<lambda>ip.
       kthen (iput ip)
       end_op))
     else ret ()))))))"

text \<open>A \<open>struct stat\<close> has 24 bytes, four of them padding that \<open>stati\<close> does not write.\<close>

definition stat_bytes :: "u8 list \<Rightarrow> stat \<Rightarrow> u8 list" where
  "stat_bytes pad st = le_bytes 4 (st_dev st) @ le_bytes 4 (st_ino st) @ le_bytes 2 (st_type st) @
     le_bytes 2 (st_nlink st) @ pad @ le_bytes 8 (st_size st)"

definition filestat :: "u8 list \<Rightarrow> nat \<Rightarrow> u64 \<Rightarrow> (int, 'z file_state_scheme) M" where
  "filestat pad f addr =
     kbind curproc (\<lambda>p.
     kbind (get_file f (\<lambda>q. q)) (\<lambda>q.
     if f_type q = FD_INODE \<or> f_type q = FD_DEVICE then
       kbind (the_ip (f_ip q)) (\<lambda>ip.
       kthen (ilock ip) (
       kbind (stati ip) (\<lambda>st.
       kthen (iunlock ip) (
       kbind (get_proc p) (\<lambda>pp.
       kbind (copyout (p_pagetable pp) addr (stat_bytes pad st)) (\<lambda>r.
       ret (if r < 0 then -1 else 0)))))))
     else ret (-1)))"

definition call_dev :: "devfn \<Rightarrow> u64 \<Rightarrow> int \<Rightarrow> (int, 'z file_state_scheme) M" where
  "call_dev fn addr n = (case fn of
     Consoleread \<Rightarrow> consoleread (UserDst addr) n
   | Consolewrite \<Rightarrow> consolewrite (UserSrc addr) n)"

definition fileread :: "nat \<Rightarrow> u64 \<Rightarrow> int \<Rightarrow> (int, 'z file_state_scheme) M" where
  "fileread f addr n =
     kbind (get_file f (\<lambda>q. q)) (\<lambda>q.
     if f_readable q = 0 then ret (-1) else
     case f_type q of
       FD_PIPE \<Rightarrow> piperead (f_pipe q) addr n
     | FD_DEVICE \<Rightarrow>
         kbind (gets devtab) (\<lambda>tab.
         if sint (f_major q) < 0 \<or> sint (f_major q) \<ge> int NDEV then ret (-1) else
         case dev_read (tab (unat (f_major q))) of
           None \<Rightarrow> ret (-1)
         | Some fn \<Rightarrow> call_dev fn addr n)
     | FD_INODE \<Rightarrow>
         kbind (the_ip (f_ip q)) (\<lambda>ip.
         kthen (ilock ip) (
         kbind (get_file f f_off) (\<lambda>off.
         kbind (readi ip (UserDst addr) off (of_int n)) (\<lambda>(r, _).
         kthen (kwhen (r > 0) (set_file f (\<lambda>q. q\<lparr>f_off := f_off q + of_int r\<rparr>))) (
         kthen (iunlock ip)
         (ret r))))))
     | FD_NONE \<Rightarrow> panic ''fileread'')"

definition write_max :: int where
  "write_max = (MAXOPBLOCKS - 1 - 1 - 2) div 2 * int BSIZE"

definition filewrite_body :: "nat \<Rightarrow> u64 \<Rightarrow> int \<Rightarrow> int \<Rightarrow> (int + int, 'z file_state_scheme) M" where
  "filewrite_body f addr n i =
     (if \<not> i < n then ret (Inr i) else
      let n1 = min (n - i) write_max in
      kthen begin_op (
      kbind (get_file f f_ip) (\<lambda>fip.
      kbind (the_ip fip) (\<lambda>ip.
      kthen (ilock ip) (
      kbind (get_file f f_off) (\<lambda>off.
      kbind (writei ip (UserSrc (addr + of_int i)) off (of_int n1)) (\<lambda>r.
      kthen (kwhen (r > 0) (set_file f (\<lambda>q. q\<lparr>f_off := f_off q + of_int r\<rparr>))) (
      kthen (iunlock ip) (
      kthen end_op
      (ret (if r \<noteq> n1 then Inr i else Inl (i + r))))))))))))"

definition filewrite :: "nat \<Rightarrow> u64 \<Rightarrow> int \<Rightarrow> (int, 'z file_state_scheme) M" where
  "filewrite f addr n =
     kbind (get_file f (\<lambda>q. q)) (\<lambda>q.
     if f_writable q = 0 then ret (-1) else
     case f_type q of
       FD_PIPE \<Rightarrow> pipewrite (f_pipe q) addr n
     | FD_DEVICE \<Rightarrow>
         kbind (gets devtab) (\<lambda>tab.
         if sint (f_major q) < 0 \<or> sint (f_major q) \<ge> int NDEV then ret (-1) else
         case dev_write (tab (unat (f_major q))) of
           None \<Rightarrow> ret (-1)
         | Some fn \<Rightarrow> call_dev fn addr n)
     | FD_INODE \<Rightarrow>
         kbind (kloop (nat n + 1) (filewrite_body f addr n) 0) (\<lambda>i.
         ret (if i = n then n else -1))
     | FD_NONE \<Rightarrow> panic ''filewrite'')"

section \<open>pipealloc\<close>

definition pipealloc_bad :: "nat option \<Rightarrow> nat option \<Rightarrow> ((nat \<times> nat) option, 'z file_state_scheme) M" where
  "pipealloc_bad f0 f1 =
     kthen (case f0 of None \<Rightarrow> ret () | Some f \<Rightarrow> fileclose f) (
     kthen (case f1 of None \<Rightarrow> ret () | Some f \<Rightarrow> fileclose f)
     (ret None))"

text \<open>The two files, or \<open>None\<close> where the code returns -1. No path reaches \<open>bad\<close> with a page allocated.\<close>

definition pipealloc :: "((nat \<times> nat) option, 'z file_state_scheme) M" where
  "pipealloc =
     kbind filealloc (\<lambda>f0.
     case f0 of None \<Rightarrow> pipealloc_bad None None | Some r \<Rightarrow>
     kbind filealloc (\<lambda>f1.
     case f1 of None \<Rightarrow> pipealloc_bad f0 None | Some w \<Rightarrow>
     kbind kalloc (\<lambda>pi.
     if pi = 0 then pipealloc_bad f0 f1 else
     kthen (set_pipe pi (\<lambda>q. q\<lparr>pi_readopen := 1, pi_writeopen := 1, pi_nwrite := 0, pi_nread := 0\<rparr>)) (
     kthen (initlock (LkPipe pi) ''pipe'') (
     kthen (set_file r (\<lambda>q. q\<lparr>f_type := FD_PIPE, f_readable := 1, f_writable := 0, f_pipe := pi\<rparr>)) (
     kthen (set_file w (\<lambda>q. q\<lparr>f_type := FD_PIPE, f_readable := 0, f_writable := 1, f_pipe := pi\<rparr>))
     (ret (Some (r, w)))))))))"

section \<open>Pipes as queues\<close>

definition pipe_put :: "u8 \<Rightarrow> pipe \<Rightarrow> pipe" where
  "pipe_put c q = q\<lparr>pi_data := (pi_data q)(unat (pi_nwrite q) mod PIPESIZE := c), pi_nwrite := pi_nwrite q + 1\<rparr>"

definition pipe_get :: "pipe \<Rightarrow> pipe" where
  "pipe_get q = q\<lparr>pi_nread := pi_nread q + 1\<rparr>"

interpretation pq: byte_ring pi_data pi_nread pi_nwrite pipe_put pipe_get PIPESIZE
  by unfold_locales (simp_all add: PIPESIZE_def pipe_put_def pipe_get_def)

definition pipe_queue :: "pipe \<Rightarrow> u8 list" where
  "pipe_queue q = ring_queue PIPESIZE (pi_data q) (pi_nread q) (pi_nwrite q)"

lemma pipe_queue_eq: "pipe_queue = pq.queue"
  by (rule ext) (simp add: pipe_queue_def pq.queue_def)

lemma pipe_put_fields [simp]:
  "pi_readopen (fold pipe_put cs q) = pi_readopen q" "pi_writeopen (fold pipe_put cs q) = pi_writeopen q"
  by (induction cs arbitrary: q) (simp_all add: pipe_put_def)

lemma runs_killed: "hart_ok (hw s) \<Longrightarrow> lock_idle (hw s) (LkProc p) \<Longrightarrow> runs (killed p) s P = P (p_killed (procs s p)) s"
  by (simp add: killed_def)

lemma runs_pipe_access [simp]:
  "runs (get_pipe a) s P = P (pipes s a) s" "runs (set_pipe a g) s Q = Q () (s\<lparr>pipes := (pipes s)(a := g (pipes s a))\<rparr>)"
  by (simp_all add: get_pipe_def set_pipe_def)

text \<open>The copies of single bytes.\<close>

lemma copyin_byte:
  assumes "as_wf (sym s) (mem s) pt"
  shows "copyin pt va 1 s = Ok (if upage (mem s) pt va \<noteq> 0 then (0, [ubyte (mem s) pt va]) else (-1, [])) s"
proof (rule runs_eqI)
  have "runs (copyin pt va 1) s (\<lambda>(r, bs) t. t = s \<and> copyin_post (mem s) pt va 1 r bs)"
    using assms by (intro runs_copyin) (simp_all add: as_wf_def)
  then show "runs (copyin pt va 1) s (\<lambda>x t. x = (if upage (mem s) pt va \<noteq> 0 then (0, [ubyte (mem s) pt va]) else (-1, [])) \<and> t = s)"
    by (rule runs_mono) (auto simp: copyin_post_def accessible_def ubytes_def le_Suc_eq)
qed

lemma runs_copyout_byte:
  assumes "as_wf (sym s) (mem s) pt"
  shows "runs (copyout pt va [c]) s (\<lambda>r t. if upage (mem s) pt va \<noteq> 0 then r = 0 \<and> copied s t pt va [c] else r = -1 \<and> copied s t pt va [])"
  using runs_copyout [OF assms, of va "[c]"]
  by (rule runs_mono) (auto simp: copyout_post_def accessible_def le_Suc_eq)

lemma ubytes_Suc: "ubytes m pt va (Suc i) = ubytes m pt va i @ [ubyte m pt (va + of_nat i)]"
  by (simp add: ubytes_def)

text \<open>Writing: the state with \<open>i\<close> bytes written.\<close>

definition wrote_pipe :: "'z file_state_scheme \<Rightarrow> u64 \<Rightarrow> u64 \<Rightarrow> u64 \<Rightarrow> nat \<Rightarrow> 'z file_state_scheme" where
  "wrote_pipe s pi pt va i = s\<lparr>pipes := (pipes s)(pi := fold pipe_put (ubytes (mem s) pt va i) (pipes s pi))\<rparr>"

lemma wrote_pipe_fields [simp]:
  "hw (wrote_pipe s pi pt va i) = hw s" "procs (wrote_pipe s pi pt va i) = procs s" "mem (wrote_pipe s pi pt va i) = mem s"
  "sym (wrote_pipe s pi pt va i) = sym s"
  by (simp_all add: wrote_pipe_def)

lemma runs_pipewrite_step:
  assumes i: "others_idle (hw s)" "lock_idle (hw s) (LkProc p)" and wf: "as_wf (sym s) (mem s) pt" and p: "p_killed (procs s p) = 0" "p_pagetable (procs s p) = pt"
    and opn: "pi_readopen (pipes s pi) \<noteq> 0" and room: "length (pipe_queue (pipes s pi)) + j < PIPESIZE" and lt: "int j < n"
    and u: "upage (mem s) pt (va + of_nat j) \<noteq> 0"
  shows "runs (pipewrite_body pi p va n (int j)) (wrote_pipe s pi pt va j) P = P (Inl (int (Suc j))) (wrote_pipe s pi pt va (Suc j))"
proof -
  let ?t = "wrote_pipe s pi pt va j"
  have q: "pipe_queue (pipes ?t pi) = pipe_queue (pipes s pi) @ ubytes (mem s) pt va j"
    using room by (simp add: wrote_pipe_def pipe_queue_eq pq.queue_puts)
  then have "length (pq.queue (pipes ?t pi)) \<noteq> PIPESIZE" using room by (simp add: pipe_queue_eq)
  then have nf: "pi_nwrite (pipes ?t pi) \<noteq> pi_nread (pipes ?t pi) + of_nat PIPESIZE" using pq.full_iff by blast
  have ro: "pi_readopen (pipes ?t pi) \<noteq> 0" using opn by (simp add: wrote_pipe_def)
  have c: "runs (copyin pt (va + of_nat j) (Suc 0)) ?t Q = Q (0, [ubyte (mem s) pt (va + of_nat j)]) ?t" for Q
    using copyin_byte [of ?t pt "va + of_nat j"] wf u by (simp add: runs_def)
  have e: "?t\<lparr>pipes := (pipes ?t)(pi := pipe_put (ubyte (mem s) pt (va + of_nat j)) (pipes ?t pi))\<rparr> = wrote_pipe s pi pt va (Suc j)"
    by (simp add: wrote_pipe_def ubytes_Suc)
  have k: "runs (killed p) ?t Q = Q 0 ?t" for Q using runs_killed [of ?t p Q] i p by (simp add: others_idle_def)
  show ?thesis using lt nf ro p(2)
    by (simp add: pipewrite_body_def k c flip: e) (simp add: pipe_put_def add.commute)
qed

text \<open>The end of a write or read: the other side is woken and the lock given back.\<close>

definition pipe_left :: "hart \<Rightarrow> chan \<Rightarrow> 'z file_state_scheme \<Rightarrow> 'z file_state_scheme" where
  "pipe_left h cn s = s\<lparr>procs := wake_all (c_proc (cur_cpu h)) cn (procs s), hw := h\<rparr>"

lemma pipe_left_fields [simp]:
  "hw (pipe_left h cn s) = h" "pipes (pipe_left h cn s) = pipes s" "mem (pipe_left h cn s) = mem s" "wakes (procs s) (procs (pipe_left h cn s))"
  by (simp_all add: pipe_left_def)

lemma runs_pipe_leave:
  assumes "others_idle h" "lock_idle h (LkPipe pi)" "hw s = acq (LkPipe pi) h"
  shows "runs (kthen (wakeup cn) (kthen (release (LkPipe pi)) (ret x))) s P = P x (pipe_left h cn s)"
proof -
  have o: "others_idle (hw s)" unfolding assms(3) by (rule others_acq [OF assms(1)]) simp
  have "hart_ok h" using assms(1) by (simp add: others_idle_def)
  then show ?thesis using assms(2) by (simp add: runs_wakeup [OF o] assms(3) pipe_left_def)
qed

lemma runs_pipewrite_end:
  assumes h: "others_idle h" "lock_idle h (LkPipe pi)" "hw s = acq (LkPipe pi) h" and wf: "as_wf (sym s) (mem s) pt"
    and p: "lock_idle h (LkProc p)" "p_killed (procs s p) = 0" "p_pagetable (procs s p) = pt"
    and opn: "pi_readopen (pipes s pi) \<noteq> 0"
    and e: "\<not> int j < n \<or> upage (mem s) pt (va + of_nat j) = 0 \<and> length (pipe_queue (pipes s pi)) + j < PIPESIZE"
  shows "runs (pipewrite_body pi p va n (int j)) (wrote_pipe s pi pt va j) P =
    P (Inr (int j)) (pipe_left h (ChPipeRead pi) (wrote_pipe s pi pt va j))"
proof -
  let ?t = "wrote_pipe s pi pt va j"
  have l: "runs (pipewrite_done pi (int j)) ?t Q = Q (int j) (pipe_left h (ChPipeRead pi) ?t)" for Q
    unfolding pipewrite_done_def by (rule runs_pipe_leave [OF h(1,2)]) (simp add: h(3))
  show ?thesis
  proof (cases "int j < n")
    case False
    then show ?thesis by (simp add: pipewrite_body_def l)
  next
    case True
    then have u: "upage (mem s) pt (va + of_nat j) = 0" and room: "length (pipe_queue (pipes s pi)) + j < PIPESIZE" using e by simp_all
    have "pipe_queue (pipes ?t pi) = pipe_queue (pipes s pi) @ ubytes (mem s) pt va j"
      using room by (simp add: wrote_pipe_def pipe_queue_eq pq.queue_puts)
    then have "length (pq.queue (pipes ?t pi)) \<noteq> PIPESIZE" using room by (simp add: pipe_queue_eq)
    then have nf: "pi_nwrite (pipes ?t pi) \<noteq> pi_nread (pipes ?t pi) + of_nat PIPESIZE" using pq.full_iff by blast
    have ro: "pi_readopen (pipes ?t pi) \<noteq> 0" using opn by (simp add: wrote_pipe_def)
    have c: "runs (copyin pt (va + of_nat j) (Suc 0)) ?t Q = Q (-1, []) ?t" for Q
      using copyin_byte [of ?t pt "va + of_nat j"] wf u by (simp add: runs_def)
    have k: "runs (killed p) ?t Q = Q 0 ?t" for Q
      using runs_killed [of ?t p Q] h p by (simp add: others_idle_def)
    show ?thesis using True nf ro p(3) by (simp add: pipewrite_body_def k c l)
  qed
qed

lemma runs_pipewrite:
  assumes c: "ctx s p" and wf: "as_wf (sym s) (mem s) pt" and p: "p_killed (procs s p) = 0" "p_pagetable (procs s p) = pt"
    and opn: "pi_readopen (pipes s pi) \<noteq> 0" and room: "length (pipe_queue (pipes s pi)) + nat n \<le> PIPESIZE"
    and k: "accessible (mem s) pt va (nat n) k"
  shows "runs (pipewrite pi va n) s P = P (int k) (pipe_left (hw s) (ChPipeRead pi) (wrote_pipe s pi pt va k))"
proof -
  note h = ctx_hart [OF c]
  let ?a = "s\<lparr>hw := acq (LkPipe pi) (hw s)\<rparr>"
  let ?b = "pipewrite_body pi p va n"
  have o: "others_idle (hw ?a)" using others_acq [OF h(5), of "LkPipe pi"] by simp
  have kn: "k \<le> nat n" "\<And>i. i < k \<Longrightarrow> upage (mem s) pt (va + of_nat i) \<noteq> 0" "k < nat n \<Longrightarrow> upage (mem s) pt (va + of_nat k) = 0"
    using k by (auto simp: accessible_def)
  have step: "runs (?b (int j)) (wrote_pipe ?a pi pt va j) Q = Q (Inl (int (Suc j))) (wrote_pipe ?a pi pt va (Suc j))" if "j < k" for j Q
    by (rule runs_pipewrite_step [OF o]) (use h wf p opn room kn that in auto)
  have fin: "runs (?b (int k)) (wrote_pipe ?a pi pt va k) Q = Q (Inr (int k)) (pipe_left (hw s) (ChPipeRead pi) (wrote_pipe ?a pi pt va k))" for Q
    by (rule runs_pipewrite_end [OF h(5,2)]) (use h wf p opn room kn in auto)
  have loop: "runs (kloop (m + Suc f) ?b (int (k - m))) (wrote_pipe ?a pi pt va (k - m)) Q =
      Q (int k) (pipe_left (hw s) (ChPipeRead pi) (wrote_pipe ?a pi pt va k))" if "m \<le> k" for m f Q
    using that
  proof (induction m)
    case (Suc m)
    then have "Suc (k - Suc m) = k - m" by simp
    then show ?case using Suc step [of "k - Suc m"] by simp
  qed (simp add: fin)
  have e: "pipe_left (hw s) (ChPipeRead pi) (wrote_pipe ?a pi pt va k) = pipe_left (hw s) (ChPipeRead pi) (wrote_pipe s pi pt va k)"
    by (simp add: pipe_left_def wrote_pipe_def)
  have "wrote_pipe ?a pi pt va 0 = ?a" by (simp add: wrote_pipe_def ubytes_def)
  moreover have "k + Suc (nat n - k) = nat n + 1" using kn(1) by simp
  ultimately have "runs (kloop (nat n + 1) ?b 0) ?a P = P (int k) (pipe_left (hw s) (ChPipeRead pi) (wrote_pipe s pi pt va k))"
    using loop [of k "nat n - k" P] e by simp
  then show ?thesis using h(1,3,6) by (simp add: pipewrite_def pipewrite_loop_def del: kloop.simps)
qed

text \<open>Reading: the state with \<open>i\<close> bytes delivered and \<open>d\<close> taken out of the pipe.\<close>

lemma copied_upd: "copied s t pt va bs \<Longrightarrow> copied (u\<lparr>mem := mem s\<rparr>) (u\<lparr>mem := mem t\<rparr>) pt va bs"
  by (simp add: copied_def)

lemma mem_pipes: "s\<lparr>mem := m, pipes := x\<rparr> = s\<lparr>pipes := x, mem := m\<rparr>"
  by (rule file_state.equality) simp_all

definition read_pipe :: "'z file_state_scheme \<Rightarrow> u64 \<Rightarrow> u64 \<Rightarrow> u64 \<Rightarrow> nat \<Rightarrow> nat \<Rightarrow> 'z file_state_scheme \<Rightarrow> bool" where
  "read_pipe s pi pt va i d t \<longleftrightarrow> (\<exists>m. t = s\<lparr>pipes := (pipes s)(pi := (pipe_get ^^ d) (pipes s pi)), mem := m\<rparr> \<and>
     copied s (s\<lparr>mem := m\<rparr>) pt va (take i (pipe_queue (pipes s pi))))"

lemma read_pipe_0: "read_pipe s pi pt va 0 0 s"
  unfolding read_pipe_def by (intro exI [of _ "mem s"]) (simp add: copied_Nil)

lemma runs_piperead_copy:
  assumes wf: "as_wf (sym s) (mem s) pt" and p: "p_pagetable (procs s p) = pt"
    and i: "i < length (pipe_queue (pipes s pi))" "length (pipe_queue (pipes s pi)) \<le> PIPESIZE" and t: "read_pipe s pi pt va i i t"
  shows "runs (piperead_copy pi p va i) t (\<lambda>r u. if upage (mem s) pt (va + of_nat i) \<noteq> 0 then r = None \<and> read_pipe s pi pt va (Suc i) (Suc i) u
    else r = Some (int i) \<and> read_pipe s pi pt va i (Suc i) u)"
proof -
  let ?Q = "pipe_queue (pipes s pi)" and ?q = "(pipe_get ^^ i) (pipes s pi)"
  obtain m where tm: "t = s\<lparr>pipes := (pipes s)(pi := ?q), mem := m\<rparr>" and c: "copied s (s\<lparr>mem := m\<rparr>) pt va (take i ?Q)"
    using t by (auto simp: read_pipe_def)
  have ag: "agree (pageno ` {p. \<exists>va. upage (mem s) pt va = p \<and> p \<noteq> 0}) (mem s) m" using c by (simp add: copied_def)
  have up: "upage m pt v = upage (mem s) pt v" for v by (rule as_wf_agree(2) [OF wf ag])
  have wfm: "as_wf (sym s) m pt" by (rule as_wf_agree(1) [OF wf ag])
  have q: "pipe_queue ?q = drop i ?Q" using i(1) by (simp add: pipe_queue_eq pq.queue_gets)
  then have "pq.queue ?q \<noteq> []" using i(1) by (simp add: pipe_queue_eq)
  then have ne: "pi_nread ?q \<noteq> pi_nwrite ?q" using pq.empty_iff by blast
  have hd: "pi_data ?q (unat (pi_nread ?q) mod PIPESIZE) = ?Q ! i"
    using pq.queue_get [OF ne] q i(1) by (simp add: pipe_queue_eq Cons_nth_drop_Suc [symmetric])
  let ?u = "s\<lparr>pipes := (pipes s)(pi := (pipe_get ^^ Suc i) (pipes s pi)), mem := m\<rparr>"
  have app: "copied s (s\<lparr>mem := mem v\<rparr>) pt va (take i ?Q @ cs)" "v = s\<lparr>pipes := pipes ?u, mem := mem v\<rparr>"
    if v: "copied ?u v pt (va + of_nat i) cs" "length cs \<le> 1" for v cs
  proof -
    have "copied (s\<lparr>mem := m\<rparr>) (s\<lparr>mem := mem v\<rparr>) pt (va + of_nat (length (take i ?Q))) cs"
      using copied_upd [OF v(1), of s] i(1) by simp
    then show "copied s (s\<lparr>mem := mem v\<rparr>) pt va (take i ?Q @ cs)"
      by (rule copied_append [OF wf c]) (use i v(2) in \<open>simp_all add: PIPESIZE_def\<close>)
    have "v = ?u\<lparr>mem := mem v\<rparr>" using v(1) by (simp add: copied_def)
    then show "v = s\<lparr>pipes := pipes ?u, mem := mem v\<rparr>" by simp
  qed
  have "runs (copyout pt (va + of_nat i) [?Q ! i]) ?u (\<lambda>r v. if upage (mem s) pt (va + of_nat i) \<noteq> 0
      then r = 0 \<and> read_pipe s pi pt va (Suc i) (Suc i) v else r = -1 \<and> read_pipe s pi pt va i (Suc i) v)"
  proof (rule runs_mono [OF runs_copyout_byte])
    show "as_wf (sym ?u) (mem ?u) pt" using wfm by simp
    fix r v assume r: "if upage (mem ?u) pt (va + of_nat i) \<noteq> 0 then r = 0 \<and> copied ?u v pt (va + of_nat i) [?Q ! i]
      else r = -1 \<and> copied ?u v pt (va + of_nat i) []"
    show "if upage (mem s) pt (va + of_nat i) \<noteq> 0 then r = 0 \<and> read_pipe s pi pt va (Suc i) (Suc i) v
      else r = -1 \<and> read_pipe s pi pt va i (Suc i) v"
    proof (cases "upage (mem s) pt (va + of_nat i) \<noteq> 0")
      case True
      then have "copied ?u v pt (va + of_nat i) [?Q ! i]" "r = 0" using r up by simp_all
      with app [of v "[?Q ! i]"] show ?thesis using True i(1) unfolding read_pipe_def
        by (auto simp: take_Suc_conv_app_nth intro!: exI [of _ "mem v"])
    next
      case False
      then have "copied ?u v pt (va + of_nat i) []" "r = -1" using r up by simp_all
      with app [of v "[]"] show ?thesis using False unfolding read_pipe_def by (auto intro!: exI [of _ "mem v"])
    qed
  qed
  then show ?thesis unfolding tm piperead_copy_def
    using ne p by (simp add: hd Let_def pipe_get_def mem_pipes) (erule runs_mono, auto split: if_splits)
qed

lemma runs_piperead_loop:
  assumes wf: "as_wf (sym s) (mem s) pt" and p: "p_pagetable (procs s p) = pt"
    and Q: "length (pipe_queue (pipes s pi)) \<le> PIPESIZE" and k: "k = min N (length (pipe_queue (pipes s pi)))" and j: "accessible (mem s) pt va k j"
  shows "runs (kfor [0..<N] (piperead_copy pi p va)) s (\<lambda>r t. (case r of Some i \<Rightarrow> i | None \<Rightarrow> int N) = int j \<and>
    read_pipe s pi pt va j (if j < k then Suc j else j) t)"
proof -
  let ?Q = "pipe_queue (pipes s pi)" and ?R = "read_pipe s pi pt va"
  let ?d = "if j < k then Suc j else j"
  have jk: "j \<le> k" "\<And>i. i < j \<Longrightarrow> upage (mem s) pt (va + of_nat i) \<noteq> 0" "j < k \<Longrightarrow> upage (mem s) pt (va + of_nat j) = 0"
    using j by (auto simp: accessible_def)
  let ?I = "\<lambda>is t. \<exists>i. is = [i..<N] \<and> i \<le> j \<and> ?R i i t"
  have "runs (kfor [0..<N] (piperead_copy pi p va)) s (\<lambda>r t. case r of None \<Rightarrow> ?I [] t | Some b \<Rightarrow> b = int j \<and> ?R j ?d t)"
  proof (rule runs_kfor_inv [where I = ?I])
    show "?I [0..<N] s" using read_pipe_0 by blast
    fix i "is" t assume "?I (i # is) t"
    then obtain l where l: "[l..<N] = i # is" "l \<le> j" "?R l l t" by metis
    then have i: "i < N" "is = [Suc i..<N]" "i \<le> j" and t: "?R i i t" by (auto simp: upt_eq_Cons_conv)
    show "runs (piperead_copy pi p va i) t (\<lambda>r u. case r of None \<Rightarrow> ?I is u | Some b \<Rightarrow> b = int j \<and> ?R j ?d u)"
    proof (cases "i < k")
      case True
      then have "i < length ?Q" using k by simp
      note run = runs_piperead_copy [OF wf p this Q t]
      show ?thesis
      proof (cases "i < j")
        case True
        then show ?thesis using jk(2) [OF True] i(2) by (intro runs_mono [OF run]) auto
      next
        case False
        then show ?thesis using i(3) jk(3) True by (intro runs_mono [OF run]) auto
      qed
    next
      case False
      then have e: "i = j" "j = k" "k = length ?Q" using i jk(1) k by auto
      obtain m where tm: "t = s\<lparr>pipes := (pipes s)(pi := (pipe_get ^^ i) (pipes s pi)), mem := m\<rparr>" using t by (auto simp: read_pipe_def)
      have "pq.queue ((pipe_get ^^ i) (pipes s pi)) = []" using e pq.queue_gets [of i "pipes s pi"] by (simp add: pipe_queue_eq)
      then have "pi_nread (pipes t pi) = pi_nwrite (pipes t pi)" using pq.empty_iff by (simp add: tm)
      then show ?thesis using e t by (simp add: piperead_copy_def)
    qed
  qed
  then show ?thesis
  proof (rule runs_mono)
    fix r t assume r: "case r of None \<Rightarrow> ?I [] t | Some b \<Rightarrow> b = int j \<and> ?R j ?d t"
    show "(case r of Some i \<Rightarrow> i | None \<Rightarrow> int N) = int j \<and> ?R j ?d t"
    proof (cases r)
      case None
      then obtain i where i: "[] = [i..<N]" "i \<le> j" "?R i i t" using r by auto
      have "\<not> i < N" using i(1) by (metis upt_eq_Nil_conv not_less_zero linorder_not_le le_less_trans)
      then have "i = j" "j = N" "\<not> j < k" using i(2) jk(1) k by auto
      then show ?thesis using None i(3) by simp
    qed (use r in simp)
  qed
qed

lemma runs_piperead:
  assumes c: "ctx s p" and wf: "as_wf (sym s) (mem s) pt" and p: "p_pagetable (procs s p) = pt"
    and ready: "pipe_queue (pipes s pi) \<noteq> [] \<or> pi_writeopen (pipes s pi) = 0" "length (pipe_queue (pipes s pi)) \<le> PIPESIZE"
    and k: "k = min (nat n) (length (pipe_queue (pipes s pi)))" and j: "accessible (mem s) pt va k j"
    and P: "\<And>t. read_pipe s pi pt va j (if j < k then Suc j else j) t \<Longrightarrow> P (int j) (pipe_left (hw s) (ChPipeWrite pi) t)"
  shows "runs (piperead pi va n) s P"
proof -
  note h = ctx_hart [OF c]
  let ?a = "s\<lparr>hw := acq (LkPipe pi) (hw s)\<rparr>" and ?d = "if j < k then Suc j else j"
  have ne: "\<not> (pi_nread (pipes s pi) = pi_nwrite (pipes s pi) \<and> pi_writeopen (pipes s pi) \<noteq> 0)"
    using ready(1) by (auto simp: pipe_queue_def)
  have "runs (kfor [0..<nat n] (piperead_copy pi p va)) ?a (\<lambda>r t.
      runs (kthen (wakeup (ChPipeWrite pi)) (kthen (release (LkPipe pi)) (ret (case r of Some i \<Rightarrow> i | None \<Rightarrow> max n 0)))) t P)"
  proof (rule runs_mono [OF runs_piperead_loop [where N = "nat n" and k = k and j = j]])
    fix r t assume r: "(case r of Some i \<Rightarrow> i | None \<Rightarrow> int (nat n)) = int j \<and> read_pipe ?a pi pt va j ?d t"
    obtain m where t: "t = ?a\<lparr>pipes := (pipes s)(pi := (pipe_get ^^ ?d) (pipes s pi)), mem := m\<rparr>"
      and cp: "copied ?a (?a\<lparr>mem := m\<rparr>) pt va (take j (pipe_queue (pipes s pi)))" using r by (auto simp: read_pipe_def)
    let ?t = "s\<lparr>pipes := (pipes s)(pi := (pipe_get ^^ ?d) (pipes s pi)), mem := m\<rparr>"
    have "read_pipe s pi pt va j ?d ?t" unfolding read_pipe_def using copied_upd [OF cp, of s] by (intro exI [of _ m]) simp
    then have "P (int j) (pipe_left (hw s) (ChPipeWrite pi) ?t)" by (rule P)
    moreover have "pipe_left (hw s) (ChPipeWrite pi) t = pipe_left (hw s) (ChPipeWrite pi) ?t"
      unfolding t pipe_left_def by (rule file_state.equality) simp_all
    moreover have "(case r of Some i \<Rightarrow> i | None \<Rightarrow> max n 0) = int j" using r by (auto simp: max_def split: option.splits if_splits)
    ultimately show "runs (kthen (wakeup (ChPipeWrite pi)) (kthen (release (LkPipe pi)) (ret (case r of Some i \<Rightarrow> i | None \<Rightarrow> max n 0)))) t P"
      using runs_pipe_leave [OF h(5,2), of t pi "ChPipeWrite pi" "int j" P] t by simp
  qed (use wf p ready(2) k j in simp_all)
  then show ?thesis using h(1,3,6) ne by (auto simp: piperead_def piperead_loop_def)
qed

section \<open>Properties\<close>

text \<open>A system with a pipe at \<open>0x80113000\<close> that holds the bytes 7 and 8, with indices around the wrap-around.\<close>

definition demo_pipe :: pipe where
  "demo_pipe = \<lparr>pi_data = (\<lambda>i. if i = 511 then 7 else if i = 0 then 8 else 0), pi_nread = 0xffffffff, pi_nwrite = 1, pi_readopen = 1, pi_writeopen = 1\<rparr>"

definition demo_files :: "nat \<Rightarrow> xfile" where
  "demo_files f = \<lparr>f_type = (if f = 0 then FD_PIPE else FD_NONE), f_ref = (if f = 0 then 1 else 0), f_readable = 1, f_writable = 0,
     f_pipe = 0x80113000, f_ip = None, f_off = 0, f_major = 0\<rparr>"

definition demo_file :: file_state where
  "demo_file = con_state.extend demo_con (file_state.fields demo_files (\<lambda>_. demo_pipe))"

lemma demo_file_simps:
  "hw demo_file = run_hart" "procs demo_file = demo_table" "mem demo_file = demo_mem" "sym demo_file = boot_symbols"
  "pipes demo_file pi = demo_pipe" "ftable demo_file = demo_files"
  by (simp_all add: demo_file_def con_state.defs file_state.defs demo_con_def fs_state.defs demo_fs_def)

lemma demo_file_ctx: "ctx demo_file 0" "p_pagetable (procs demo_file 0) = demo_root" "p_killed (procs demo_file 0) = 0"
  by (simp_all add: ctx_def demo_file_simps demo_table_def zero_proc_def NPROC_def)

lemma demo_pipe_queue: "pipe_queue demo_pipe = [7, 8]" "pi_readopen demo_pipe = 1"
  by (simp_all add: pipe_queue_def ring_queue_def demo_pipe_def PIPESIZE_def upt_rec)

lemma demo_file_wf: "as_wf (sym demo_file) (mem demo_file) (p_pagetable (procs demo_file 0))"
  using demo_as_wf by (simp add: demo_file_simps demo_file_ctx [unfolded demo_file_simps])

lemma demo_accessible:
  "accessible demo_mem demo_root 0 (nat 3) 3" "accessible demo_mem demo_root 0xfff 2 1"
proof -
  have p: "demo_page \<noteq> 0" by (simp add: demo_page_def)
  have "pageno (of_nat i) = 0" if "i < 3" for i using that by (auto simp: pageno_def unsigned_of_nat take_bit_nat_eq_self)
  then show "accessible demo_mem demo_root 0 (nat 3) 3" using p by (simp add: accessible_def demo_upage)
  show "accessible demo_mem demo_root 0xfff 2 1" using p by (simp add: accessible_def demo_upage pageno_def)
qed



text \<open>C35: \<open>piperead\<close> takes from the front of a pipe. When the pipe holds bytes or has no writer, it delivers the oldest bytes, at most
  \<open>n\<close> and as far as the user's buffer is mapped, returns their number and takes them out of the pipe; where the
  copy to the user stops at an unmapped address, one more byte, which was not delivered, is gone. The rest
  of the user's memory and the other pipes stay.\<close>

theorem piperead_takes:
  assumes "ctx s p" and "as_wf (sym s) (mem s) (p_pagetable (procs s p))"
    and "pipe_queue (pipes s pi) \<noteq> [] \<or> pi_writeopen (pipes s pi) = 0" and "length (pipe_queue (pipes s pi)) \<le> PIPESIZE"
    and "k = min (nat n) (length (pipe_queue (pipes s pi)))" and "accessible (mem s) (p_pagetable (procs s p)) addr k j"
  shows "runs (piperead pi addr n) s (\<lambda>r t. r = int j \<and>
    pipe_queue (pipes t pi) = drop (if j < k then Suc j else j) (pipe_queue (pipes s pi)) \<and>
    copied s (s\<lparr>mem := mem t\<rparr>) (p_pagetable (procs s p)) addr (take j (pipe_queue (pipes s pi))) \<and>
    (\<forall>pj. pj \<noteq> pi \<longrightarrow> pipes t pj = pipes s pj) \<and> hw t = hw s \<and> wakes (procs s) (procs t))"
proof (rule runs_piperead [OF assms(1,2) refl assms(3-6)])
  let ?d = "if j < k then Suc j else j"
  fix t assume "read_pipe s pi (p_pagetable (procs s p)) addr j ?d t"
  then obtain m where t: "t = s\<lparr>pipes := (pipes s)(pi := (pipe_get ^^ ?d) (pipes s pi)), mem := m\<rparr>"
    and c: "copied s (s\<lparr>mem := m\<rparr>) (p_pagetable (procs s p)) addr (take j (pipe_queue (pipes s pi)))" by (auto simp: read_pipe_def)
  have "j \<le> k" using assms(6) by (simp add: accessible_def)
  then have "?d \<le> length (pipe_queue (pipes s pi))" using assms(5) by auto
  then have "pipe_queue ((pipe_get ^^ ?d) (pipes s pi)) = drop ?d (pipe_queue (pipes s pi))" by (simp add: pipe_queue_eq pq.queue_gets)
  moreover have "pipes t = (pipes s)(pi := (pipe_get ^^ ?d) (pipes s pi))" "mem t = m" "procs t = procs s" using t by simp_all
  moreover have "wakes (procs t) (procs (pipe_left (hw s) (ChPipeWrite pi) t))" by (rule pipe_left_fields)
  ultimately show "int j = int j \<and> pipe_queue (pipes (pipe_left (hw s) (ChPipeWrite pi) t) pi) = drop ?d (pipe_queue (pipes s pi)) \<and>
    copied s (s\<lparr>mem := mem (pipe_left (hw s) (ChPipeWrite pi) t)\<rparr>) (p_pagetable (procs s p)) addr (take j (pipe_queue (pipes s pi))) \<and>
    (\<forall>pj. pj \<noteq> pi \<longrightarrow> pipes (pipe_left (hw s) (ChPipeWrite pi) t) pj = pipes s pj) \<and> hw (pipe_left (hw s) (ChPipeWrite pi) t) = hw s \<and>
    wakes (procs s) (procs (pipe_left (hw s) (ChPipeWrite pi) t))"
    using c by simp
qed

theorem piperead_takes_witness:
  "ctx demo_file 0 \<and> runs (piperead 0x80113000 0xfff 2) demo_file (\<lambda>r t. r = 1 \<and> pipe_queue (pipes t 0x80113000) = [])"
proof -
  have "runs (piperead 0x80113000 0xfff 2) demo_file (\<lambda>r t. r = 1 \<and> pipe_queue (pipes t 0x80113000) = [])"
    by (rule runs_mono [OF piperead_takes [of demo_file 0 "0x80113000" 2 2 "0xfff" 1, OF demo_file_ctx(1) demo_file_wf]])
       (use demo_file_ctx(2) demo_accessible(2) in \<open>auto simp: demo_file_simps demo_pipe_queue PIPESIZE_def\<close>)
  then show ?thesis using demo_file_ctx(1) by blast
qed

end
