(* ===== verification/Xv6_Lifecycle.thy ===== *)
theory Xv6_Lifecycle
  imports Xv6_File
begin

text \<open>
  The life of a process in kernel/proc.c: \<open>userinit\<close>, \<open>fork\<close>, \<open>exit\<close>, \<open>wait\<close> and the calls \<open>forkn\<close> and \<open>waitall\<close>
  that this kernel adds. A loop that may sleep is a definition of its own, since it is what the process
  goes on with after the wakeup.
\<close>

section \<open>The first process\<close>

definition initcode :: "u8 list" where
  "initcode =
    [0x17, 0x05, 0x00, 0x00, 0x13, 0x05, 0x45, 0x02,
     0x97, 0x05, 0x00, 0x00, 0x93, 0x85, 0x35, 0x02,
     0x93, 0x08, 0x70, 0x00, 0x73, 0x00, 0x00, 0x00,
     0x93, 0x08, 0x20, 0x00, 0x73, 0x00, 0x00, 0x00,
     0xef, 0xf0, 0x9f, 0xff, 0x2f, 0x69, 0x6e, 0x69,
     0x74, 0x00, 0x00, 0x24, 0x00, 0x00, 0x00, 0x00,
     0x00, 0x00, 0x00, 0x00]"

text \<open>A string literal as an array.\<close>

definition cstring :: "u8 list \<Rightarrow> nat \<Rightarrow> u8" where
  "cstring bs = (\<lambda>i. if i < length bs then bs ! i else 0)"

definition userinit :: "(unit, 'z file_state_scheme) M" where
  "userinit =
     kbind allocproc (\<lambda>np. case np of None \<Rightarrow> fault ''null process'' | Some p \<Rightarrow>
     kthen (modify (\<lambda>s. s\<lparr>initproc := Some p\<rparr>)) (
     kbind (get_proc p) (\<lambda>q.
     kthen (uvmfirst (p_pagetable q) initcode) (
     kthen (set_proc p (\<lambda>q. q\<lparr>p_sz := PGSIZE\<rparr>)) (
     kthen (tf_store p TF_epc 0) (
     kthen (tf_store p TF_sp PGSIZE) (
     kthen (set_proc p (\<lambda>q. q\<lparr>p_name := safestrcpy (p_name q) (cstring (bytes_of ''initcode'')) 16\<rparr>)) (
     kbind (namei [SLASH]) (\<lambda>cwd.
     kthen (set_proc p (\<lambda>q. q\<lparr>p_cwd := cwd\<rparr>)) (
     kthen (set_proc p (\<lambda>q. q\<lparr>p_state := RUNNABLE\<rparr>))
     (release (LkProc p))))))))))))"

section \<open>fork\<close>

definition copy_trapframe :: "nat \<Rightarrow> nat \<Rightarrow> (unit, 'z file_state_scheme) M" where
  "copy_trapframe p np =
     kbind (get_proc p) (\<lambda>q.
     kbind (get_proc np) (\<lambda>nq.
     kthen (nonnull (p_trapframe q)) (
     kthen (nonnull (p_trapframe nq)) (
     set_mem (\<lambda>m. write_bytes (p_trapframe nq) (read_bytes (p_trapframe q) TF_SIZE m) m)))))"

definition dup_files :: "nat \<Rightarrow> nat \<Rightarrow> (unit, 'z file_state_scheme) M" where
  "dup_files p np =
     kforall [0..<NOFILE] (\<lambda>i.
       kbind (get_proc p) (\<lambda>q.
       case p_ofile q i of
         None \<Rightarrow> ret ()
       | Some f \<Rightarrow>
           kbind (filedup f) (\<lambda>f.
           set_proc np (\<lambda>q. q\<lparr>p_ofile := (p_ofile q)(i := Some f)\<rparr>))))"

definition dup_cwd :: "nat \<Rightarrow> nat \<Rightarrow> (unit, 'z file_state_scheme) M" where
  "dup_cwd p np =
     kbind (get_proc p) (\<lambda>q.
     kbind (the_ip (p_cwd q)) (\<lambda>cwd.
     kbind (idup cwd) (\<lambda>cwd.
     set_proc np (\<lambda>q. q\<lparr>p_cwd := Some cwd\<rparr>))))"

definition copy_name :: "nat \<Rightarrow> nat \<Rightarrow> (unit, 'z file_state_scheme) M" where
  "copy_name p np =
     kbind (get_proc p) (\<lambda>q.
     set_proc np (\<lambda>nq. nq\<lparr>p_name := safestrcpy (p_name nq) (p_name q) 16\<rparr>))"

definition fork :: "(int, 'z file_state_scheme) M" where
  "fork =
     kbind curproc (\<lambda>p.
     kbind allocproc (\<lambda>r. case r of None \<Rightarrow> ret (-1) | Some np \<Rightarrow>
     kbind (get_proc p) (\<lambda>q.
     kbind (get_proc np) (\<lambda>nq.
     kbind (uvmcopy (p_pagetable q) (p_pagetable nq) (p_sz q)) (\<lambda>r.
     if r < 0 then
       kthen (freeproc np) (
       kthen (release (LkProc np))
       (ret (-1)))
     else
     kthen (set_proc np (\<lambda>nq. nq\<lparr>p_sz := p_sz q\<rparr>)) (
     kthen (copy_trapframe p np) (
     kthen (tf_store np TF_a0 0) (
     kthen (dup_files p np) (
     kthen (dup_cwd p np) (
     kthen (copy_name p np) (
     kbind (get_proc np) (\<lambda>nq.
     kthen (release (LkProc np)) (
     kthen (acquire LkWait) (
     kthen (set_proc np (\<lambda>q. q\<lparr>p_parent := Some p\<rparr>)) (
     kthen (release LkWait) (
     kthen (acquire (LkProc np)) (
     kthen (set_proc np (\<lambda>q. q\<lparr>p_state := RUNNABLE\<rparr>)) (
     kthen (release (LkProc np))
     (ret (p_pid nq))))))))))))))))))))"

section \<open>exit\<close>

text \<open>\<open>wakeup\<close> on the address of a process, or on the null pointer.\<close>

definition wakeup_proc :: "nat option \<Rightarrow> (unit, 'z proc_table_scheme) M" where
  "wakeup_proc i = (case i of
     Some i \<Rightarrow> wakeup (ChProc i)
   | None \<Rightarrow>
       kforall [0..<NPROC] (\<lambda>p.
         kbind myproc (\<lambda>me.
         kwhen (Some p \<noteq> me) (
           kthen (acquire (LkProc p)) (
           kbind (get_proc p) (\<lambda>q.
           kthen (kwhen (p_state q = SLEEPING \<and> p_chan q = None)
             (set_proc p (\<lambda>q. q\<lparr>p_state := RUNNABLE\<rparr>)))
           (release (LkProc p))))))))"

definition reparent :: "nat \<Rightarrow> (unit, 'z proc_table_scheme) M" where
  "reparent p =
     kforall [0..<NPROC] (\<lambda>pp.
       kbind (get_proc pp) (\<lambda>q.
       kwhen (p_parent q = Some p) (
         kbind (gets initproc) (\<lambda>init.
         kthen (set_proc pp (\<lambda>q. q\<lparr>p_parent := init\<rparr>))
         (wakeup_proc init)))))"

definition close_files :: "nat \<Rightarrow> (unit, 'z file_state_scheme) M" where
  "close_files p =
     kforall [0..<NOFILE] (\<lambda>fd.
       kbind (get_proc p) (\<lambda>q.
       case p_ofile q fd of
         None \<Rightarrow> ret ()
       | Some f \<Rightarrow>
           kthen (fileclose f)
           (set_proc p (\<lambda>q. q\<lparr>p_ofile := (p_ofile q)(fd := None)\<rparr>))))"

definition exit_fn :: "int \<Rightarrow> (nat \<Rightarrow> u8) \<Rightarrow> (unit, 'z file_state_scheme) M" where
  "exit_fn status msg =
     kbind curproc (\<lambda>p.
     kbind (gets initproc) (\<lambda>init.
     if init = Some p then panic ''init exiting'' else
     kthen (close_files p) (
     kthen begin_op (
     kbind (get_proc p) (\<lambda>q.
     kbind (the_ip (p_cwd q)) (\<lambda>cwd.
     kthen (iput cwd) (
     kthen end_op (
     kthen (set_proc p (\<lambda>q. q\<lparr>p_cwd := None\<rparr>)) (
     kthen (acquire LkWait) (
     kthen (set_proc p (\<lambda>q. q\<lparr>p_exit_msg := safestrcpy (p_exit_msg q) msg 32\<rparr>)) (
     kthen (reparent p) (
     kbind (get_proc p) (\<lambda>q.
     kthen (wakeup_proc (p_parent q)) (
     kthen (acquire (LkProc p)) (
     kthen (set_proc p (\<lambda>q. q\<lparr>p_xstate := status, p_state := ZOMBIE\<rparr>)) (
     kthen (release LkWait) (
     kthen (sched OnSched)
     (panic ''zombie exit'')))))))))))))))))) "

section \<open>wait\<close>

text \<open>The bytes of an \<open>int\<close>, and of a C string with its NUL.\<close>

definition int_bytes :: "int \<Rightarrow> u8 list" where
  "int_bytes x = le_bytes 4 (word_of_int x :: u32)"

definition str_bytes :: "(nat \<Rightarrow> u8) \<Rightarrow> (u8 list, 's) M" where
  "str_bytes s = (case strlen s of None \<Rightarrow> fault ''strlen'' | Some n \<Rightarrow> ret (map s [0..<n + 1]))"

definition wait_zombie :: "nat \<Rightarrow> nat \<Rightarrow> u64 \<Rightarrow> u64 \<Rightarrow> (int, 'z file_state_scheme) M" where
  "wait_zombie p pp addr msg =
     kbind (get_proc p) (\<lambda>q.
     kbind (get_proc pp) (\<lambda>c.
     kthen (kwhen (msg \<noteq> 0) (
       kbind (str_bytes (p_exit_msg c)) (\<lambda>bs.
       kbind (copyout (p_pagetable q) msg bs) (\<lambda>_.
       ret ())))) (
     kbind (if addr \<noteq> 0 then copyout (p_pagetable q) addr (int_bytes (p_xstate c)) else ret 0) (\<lambda>r.
     if r < 0 then
       kthen (release (LkProc pp)) (
       kthen (release LkWait)
       (ret (-1)))
     else
       kthen (freeproc pp) (
       kthen (release (LkProc pp)) (
       kthen (release LkWait)
       (ret (p_pid c))))))))"

definition wait_body :: "nat \<Rightarrow> u64 \<Rightarrow> u64 \<Rightarrow> nat \<times> bool \<Rightarrow> ((nat \<times> bool) + int, 'z file_state_scheme) M" where
  "wait_body p addr msg = (\<lambda>(pp, havekids).
     if pp = NPROC then
       kbind (if \<not> havekids then ret True else kbind (killed p) (\<lambda>k. ret (k \<noteq> 0))) (\<lambda>stop.
       if stop then kthen (release LkWait) (ret (Inr (-1)))
       else sleep (ChProc p) LkWait)
     else
       kbind (get_proc pp) (\<lambda>c.
       if p_parent c \<noteq> Some p then ret (Inl (Suc pp, havekids)) else
       kthen (acquire (LkProc pp)) (
       kbind (get_proc pp) (\<lambda>c.
       if p_state c = ZOMBIE then kbind (wait_zombie p pp addr msg) (\<lambda>r. ret (Inr r))
       else kthen (release (LkProc pp)) (ret (Inl (Suc pp, True)))))))"

definition wait_loop :: "nat \<Rightarrow> u64 \<Rightarrow> u64 \<Rightarrow> (int, 'z file_state_scheme) M" where
  "wait_loop p addr msg = kloop (NPROC + 1) (wait_body p addr msg) (0, False)"

definition wait_fn :: "u64 \<Rightarrow> u64 \<Rightarrow> (int, 'z file_state_scheme) M" where
  "wait_fn addr msg = kbind curproc (\<lambda>p. kthen (acquire LkWait) (wait_loop p addr msg))"

section \<open>forkn\<close>

definition forkn_undo :: "nat list \<Rightarrow> (unit, 'z file_state_scheme) M" where
  "forkn_undo kids =
     kforall kids (\<lambda>child.
       kthen (acquire (LkProc child)) (
       kthen (set_proc child (\<lambda>q. q\<lparr>p_state := UNUSED\<rparr>)) (
       kthen (freeproc child)
       (release (LkProc child)))))"

text \<open>One round: the children made so far and their pids; \<open>Inr\<close> where the code returns -1.\<close>

definition forkn_child :: "nat \<Rightarrow> (nat \<times> int) list \<Rightarrow> ((nat \<times> int) list + int, 'z file_state_scheme) M" where
  "forkn_child p kids =
     kbind allocproc (\<lambda>r. case r of None \<Rightarrow> kthen (forkn_undo (map fst kids)) (ret (Inr (-1))) | Some np \<Rightarrow>
     kbind (get_proc p) (\<lambda>q.
     kbind (get_proc np) (\<lambda>nq.
     kbind (uvmcopy (p_pagetable q) (p_pagetable nq) (p_sz q)) (\<lambda>r.
     if r < 0 then
       kthen (freeproc np) (
       kthen (forkn_undo (map fst kids))
       (ret (Inr (-1))))
     else
     kthen (set_proc np (\<lambda>nq. nq\<lparr>p_sz := p_sz q\<rparr>)) (
     kthen (copy_trapframe p np) (
     kthen (tf_store np TF_a0 (of_nat (length kids) + 1)) (
     kthen (dup_files p np) (
     kthen (dup_cwd p np) (
     kthen (copy_name p np) (
     kthen (release (LkProc np))
     (ret (Inl (kids @ [(np, p_pid nq)])))))))))))))"

definition forkn_body :: "nat \<Rightarrow> nat \<Rightarrow> (nat \<times> int) list \<Rightarrow> ((nat \<times> int) list + (nat \<times> int) list option, 'z file_state_scheme) M" where
  "forkn_body p n kids =
     (if length kids = n then ret (Inr (Some kids))
      else kbind (forkn_child p kids) (\<lambda>r. case r of Inl kids \<Rightarrow> ret (Inl kids) | Inr _ \<Rightarrow> ret (Inr None)))"

definition forkn_start :: "nat \<Rightarrow> nat list \<Rightarrow> (unit, 'z file_state_scheme) M" where
  "forkn_start p kids =
     kthen (acquire LkWait) (
     kthen (kforall kids (\<lambda>child.
       kthen (set_proc child (\<lambda>q. q\<lparr>p_parent := Some p\<rparr>)) (
       kthen (acquire (LkProc child)) (
       kthen (set_proc child (\<lambda>q. q\<lparr>p_state := RUNNABLE\<rparr>))
       (release (LkProc child))))))
     (release LkWait))"

definition forkn :: "int \<Rightarrow> u64 \<Rightarrow> (int, 'z file_state_scheme) M" where
  "forkn n pids =
     kbind curproc (\<lambda>p.
     if n < 1 \<or> n > 16 then ret (-1) else
     kbind (kloop (nat n + 1) (forkn_body p (nat n)) []) (\<lambda>r. case r of None \<Rightarrow> ret (-1) | Some kids \<Rightarrow>
     kthen (forkn_start p (map fst kids)) (
     if pids \<noteq> 0 then
       kbind (get_proc p) (\<lambda>q.
       kbind (copyout (p_pagetable q) pids (concat (map (int_bytes \<circ> snd) kids))) (\<lambda>r.
       ret (if r < 0 then -1 else 0)))
     else ret 0)))"

section \<open>waitall\<close>

text \<open>What a scan of the table gathers.\<close>

record waitall_scan =
  wa_statuses :: "nat \<Rightarrow> int"
  wa_count :: nat
  wa_to_free :: "nat list"
  wa_all_done :: bool
  wa_found :: bool

definition waitall_see :: "nat \<Rightarrow> nat \<Rightarrow> proc \<Rightarrow> waitall_scan \<Rightarrow> waitall_scan" where
  "waitall_see p pp c w =
     (if p_parent c = Some p then
        (if p_state c \<noteq> ZOMBIE then w\<lparr>wa_all_done := False\<rparr>
         else w\<lparr>wa_statuses := (wa_statuses w)(wa_count w := p_xstate c), wa_to_free := wa_to_free w @ [pp]\<rparr>)
        \<lparr>wa_count := wa_count w + 1, wa_found := True\<rparr>
      else w)"

definition waitall_finish :: "nat \<Rightarrow> u64 \<Rightarrow> u64 \<Rightarrow> waitall_scan \<Rightarrow> (int, 'z file_state_scheme) M" where
  "waitall_finish p n_addr statuses_addr w =
     kthen (kforall (wa_to_free w) (\<lambda>child.
       kthen (acquire (LkProc child)) (
       kthen (freeproc child)
       (release (LkProc child))))) (
     kthen (release LkWait) (
     kbind (get_proc p) (\<lambda>q.
     kthen (kwhen (n_addr \<noteq> 0) (
       kbind (copyout (p_pagetable q) n_addr (int_bytes (int (wa_count w)))) (\<lambda>_. ret ()))) (
     kthen (kwhen (statuses_addr \<noteq> 0) (
       kbind (copyout (p_pagetable q) statuses_addr
         (concat (map (int_bytes \<circ> wa_statuses w) [0..<wa_count w]))) (\<lambda>_. ret ())))
     (ret 0)))))"

definition waitall_body :: "nat \<Rightarrow> u64 \<Rightarrow> u64 \<Rightarrow> nat \<times> waitall_scan \<Rightarrow> ((nat \<times> waitall_scan) + int, 'z file_state_scheme) M" where
  "waitall_body p n_addr statuses_addr = (\<lambda>(pp, w).
     if pp = NPROC then
       (if \<not> wa_found w then
          kthen (release LkWait) (
          kbind (get_proc p) (\<lambda>q.
          kthen (kwhen (n_addr \<noteq> 0) (
            kbind (copyout (p_pagetable q) n_addr (int_bytes 0)) (\<lambda>_. ret ())))
          (ret (Inr 0))))
        else if wa_all_done w then
          kbind (waitall_finish p n_addr statuses_addr w) (\<lambda>r. ret (Inr r))
        else
          kbind (killed p) (\<lambda>k.
          if k \<noteq> 0 then kthen (release LkWait) (ret (Inr (-1)))
          else sleep (ChProc p) LkWait))
     else
       kthen (acquire (LkProc pp)) (
       kbind (get_proc pp) (\<lambda>c.
       kthen (release (LkProc pp))
       (ret (Inl (Suc pp, waitall_see p pp c w))))))"

definition waitall_loop :: "nat \<Rightarrow> u64 \<Rightarrow> u64 \<Rightarrow> (nat \<Rightarrow> int) \<Rightarrow> (int, 'z file_state_scheme) M" where
  "waitall_loop p n_addr statuses_addr statuses =
     kloop (NPROC + 1) (waitall_body p n_addr statuses_addr)
       (0, \<lparr>wa_statuses = statuses, wa_count = 0, wa_to_free = [], wa_all_done = True, wa_found = False\<rparr>)"

definition waitall :: "u64 \<Rightarrow> u64 \<Rightarrow> (int, 'z file_state_scheme) M" where
  "waitall n_addr statuses_addr =
     kbind curproc (\<lambda>p.
     kthen (acquire LkWait)
     (waitall_loop p n_addr statuses_addr (\<lambda>_. 0)))"

end
