(* ===== verification/Xv6_Exec.thy ===== *)
theory Xv6_Exec
  imports Xv6_Lifecycle
begin

text \<open>
  kernel/exec.c, and the argument fetching of kernel/syscall.c. The ELF structures are read at their offsets.
  The strings in \<open>argv\<close> lie in pages of kernel memory, named by their addresses.
\<close>

section \<open>syscall.c: arguments\<close>

definition fetchaddr :: "u64 \<Rightarrow> (int \<times> u64, 'z proc_table_scheme) M" where
  "fetchaddr addr =
     kbind curproc (\<lambda>p.
     kbind (get_proc p) (\<lambda>q.
     if addr \<ge> p_sz q \<or> addr + 8 > p_sz q then ret (-1, 0) else
     kbind (copyin (p_pagetable q) addr 8) (\<lambda>(r, bs).
     ret (if r \<noteq> 0 then (-1, 0) else (0, get64 0 bs)))))"

text \<open>The result and what \<open>buf\<close> then holds.\<close>

definition fetchstr :: "u64 \<Rightarrow> nat \<Rightarrow> (int \<times> u8 list, 'z proc_table_scheme) M" where
  "fetchstr addr mx =
     kbind curproc (\<lambda>p.
     kbind (get_proc p) (\<lambda>q.
     kbind (copyinstr (p_pagetable q) addr mx) (\<lambda>(r, bs).
     ret (if r < 0 then -1 else int (length (takeWhile (\<lambda>c. c \<noteq> 0) bs)), bs))))"

definition argraw :: "nat \<Rightarrow> (u64, 'z proc_table_scheme) M" where
  "argraw n = kbind curproc (\<lambda>p. if n \<le> 5 then tf_load p (TF_a0 + 8 * of_nat n) else panic ''argraw'')"

definition argint :: "nat \<Rightarrow> (int, 'z proc_table_scheme) M" where
  "argint n = kbind (argraw n) (\<lambda>v. ret (sint (ucast v :: u32)))"

definition argaddr :: "nat \<Rightarrow> (u64, 'z proc_table_scheme) M" where
  "argaddr n = argraw n"

definition argstr :: "nat \<Rightarrow> nat \<Rightarrow> (int \<times> u8 list, 'z proc_table_scheme) M" where
  "argstr n mx = kbind (argaddr n) (\<lambda>addr. fetchstr addr mx)"

section \<open>elf.h\<close>

definition ELF_MAGIC :: u32 where "ELF_MAGIC = 0x464C457F"
definition ELF_PROG_LOAD :: u32 where "ELF_PROG_LOAD = 1"
definition ELFHDR_SIZE :: u32 where "ELFHDR_SIZE = 64"
definition PROGHDR_SIZE :: u32 where "PROGHDR_SIZE = 56"

definition elf_magic :: "u8 list \<Rightarrow> u32" where "elf_magic d = get32 0 d"
definition elf_entry :: "u8 list \<Rightarrow> u64" where "elf_entry d = get64 24 d"
definition elf_phoff :: "u8 list \<Rightarrow> u64" where "elf_phoff d = get64 32 d"
definition elf_phnum :: "u8 list \<Rightarrow> u16" where "elf_phnum d = get16 56 d"

definition ph_type :: "u8 list \<Rightarrow> u32" where "ph_type d = get32 0 d"
definition ph_flags :: "u8 list \<Rightarrow> u32" where "ph_flags d = get32 4 d"
definition ph_off :: "u8 list \<Rightarrow> u64" where "ph_off d = get64 8 d"
definition ph_vaddr :: "u8 list \<Rightarrow> u64" where "ph_vaddr d = get64 16 d"
definition ph_filesz :: "u8 list \<Rightarrow> u64" where "ph_filesz d = get64 32 d"
definition ph_memsz :: "u8 list \<Rightarrow> u64" where "ph_memsz d = get64 40 d"

section \<open>exec.c\<close>

definition MAXARG :: nat where "MAXARG = 32"

definition flags2perm :: "u32 \<Rightarrow> u64" where
  "flags2perm flags = (if flags AND 1 \<noteq> 0 then PTE_X else 0) OR (if flags AND 2 \<noteq> 0 then PTE_W else 0)"

definition loadseg_body :: "u64 \<Rightarrow> u64 \<Rightarrow> nat \<Rightarrow> u32 \<Rightarrow> u32 \<Rightarrow> u32 \<Rightarrow> (u32 + int, 'z file_state_scheme) M" where
  "loadseg_body pagetable va ip offset sz i =
     (if \<not> i < sz then ret (Inr 0) else
      kbind (walkaddr pagetable (va + ucast i)) (\<lambda>pa.
      if pa = 0 then panic ''loadseg: address should exist'' else
      let n = (if sz - i < ucast PGSIZE then sz - i else ucast PGSIZE) in
      kbind (readi ip (MemDst pa) (offset + i) n) (\<lambda>(r, _).
      ret (if r \<noteq> uint n then Inr (-1) else Inl (i + ucast PGSIZE)))))"

text \<open>Less than \<open>2 ^ 32\<close> bytes are at most \<open>2 ^ 20\<close> pages.\<close>

definition loadseg :: "u64 \<Rightarrow> u64 \<Rightarrow> nat \<Rightarrow> u32 \<Rightarrow> u32 \<Rightarrow> (int, 'z file_state_scheme) M" where
  "loadseg pagetable va ip offset sz = kloop (2 ^ 20 + 1) (loadseg_body pagetable va ip offset sz) 0"

text \<open>The loop over the program headers; \<open>Inl\<close> where the code goes to \<open>bad\<close>. Both carry \<open>sz\<close>.\<close>

definition exec_load_body ::
  "nat \<Rightarrow> u64 \<Rightarrow> nat \<Rightarrow> nat \<times> u32 \<times> u64 \<Rightarrow> ((nat \<times> u32 \<times> u64) + (u64 + u64), 'z file_state_scheme) M"
where
  "exec_load_body ip pagetable phnum = (\<lambda>(i, off, sz).
     if \<not> i < phnum then ret (Inr (Inr sz)) else
     kbind (readi ip ObjDst off PROGHDR_SIZE) (\<lambda>(r, ph).
     if r \<noteq> uint PROGHDR_SIZE then ret (Inr (Inl sz))
     else if ph_type ph \<noteq> ELF_PROG_LOAD then ret (Inl (Suc i, off + PROGHDR_SIZE, sz))
     else if ph_memsz ph < ph_filesz ph then ret (Inr (Inl sz))
     else if ph_vaddr ph + ph_memsz ph < ph_vaddr ph then ret (Inr (Inl sz))
     else if ph_vaddr ph mod PGSIZE \<noteq> 0 then ret (Inr (Inl sz))
     else
       kbind (uvmalloc pagetable sz (ph_vaddr ph + ph_memsz ph) (flags2perm (ph_flags ph))) (\<lambda>sz1.
       if sz1 = 0 then ret (Inr (Inl sz)) else
       kbind (loadseg pagetable (ph_vaddr ph) ip (ucast (ph_off ph)) (ucast (ph_filesz ph))) (\<lambda>r.
       if r < 0 then ret (Inr (Inl sz1))
       else ret (Inl (Suc i, off + PROGHDR_SIZE, sz1))))))"

text \<open>A NUL-terminated string in a page of kernel memory.\<close>

definition kstring :: "memory \<Rightarrow> u64 \<Rightarrow> u8 list" where
  "kstring m a = takeWhile (\<lambda>c. c \<noteq> 0) (read_bytes a 4096 m)"

definition push_arg :: "u64 \<Rightarrow> u64 \<Rightarrow> u64 \<times> u64 list \<Rightarrow> u64 \<Rightarrow> ((u64 \<times> u64 list) option, 'z file_state_scheme) M" where
  "push_arg pagetable stackbase = (\<lambda>(sp, ustack) a.
     if length ustack \<ge> MAXARG then ret None else
     kbind (gets (\<lambda>s. kstring (mem s) a)) (\<lambda>str.
     let sp = sp - of_nat (length str + 1); sp = sp - sp mod 16 in
     if sp < stackbase then ret None else
     kbind (copyout pagetable sp (str @ [0])) (\<lambda>r.
     if r < 0 then ret None else ret (Some (sp, ustack @ [sp])))))"

fun push_args :: "u64 \<Rightarrow> u64 \<Rightarrow> u64 list \<Rightarrow> u64 \<times> u64 list \<Rightarrow> ((u64 \<times> u64 list) option, 'z file_state_scheme) M" where
  "push_args pagetable stackbase [] st = ret (Some st)"
| "push_args pagetable stackbase (a # argv) st =
     kbind (push_arg pagetable stackbase st a) (\<lambda>r. case r of
       None \<Rightarrow> ret None
     | Some st \<Rightarrow> push_args pagetable stackbase argv st)"

definition exec_bad :: "u64 \<Rightarrow> u64 \<Rightarrow> nat option \<Rightarrow> (int, 'z file_state_scheme) M" where
  "exec_bad pagetable sz ip =
     kthen (kwhen (pagetable \<noteq> 0) (proc_freepagetable pagetable sz)) (
     kthen (case ip of None \<Rightarrow> ret () | Some ip \<Rightarrow> kthen (iunlockput ip) end_op)
     (ret (-1)))"

definition last_elem :: "u8 list \<Rightarrow> u8 list" where
  "last_elem pth = rev (takeWhile (\<lambda>c. c \<noteq> SLASH) (rev pth))"

definition exec_commit :: "nat \<Rightarrow> u8 list \<Rightarrow> u64 \<Rightarrow> u64 \<Rightarrow> u64 \<Rightarrow> u64 \<Rightarrow> u64 \<Rightarrow> (unit, 'z file_state_scheme) M" where
  "exec_commit p pth pagetable sz oldsz pc sp =
     kthen (tf_store p TF_a1 sp) (
     kthen (set_proc p (\<lambda>q. q\<lparr>p_name := safestrcpy (p_name q) (cstring (last_elem pth)) 16\<rparr>)) (
     kbind (get_proc p) (\<lambda>q.
     kthen (set_proc p (\<lambda>q. q\<lparr>p_pagetable := pagetable, p_sz := sz\<rparr>)) (
     kthen (tf_store p TF_epc pc) (
     kthen (tf_store p TF_sp sp)
     (proc_freepagetable (p_pagetable q) oldsz))))))"

text \<open>From the allocation of the user stack on.\<close>

definition exec_stack :: "nat \<Rightarrow> u8 list \<Rightarrow> u64 list \<Rightarrow> u64 \<Rightarrow> u64 \<Rightarrow> u64 \<Rightarrow> (int, 'z file_state_scheme) M" where
  "exec_stack p pth argv pagetable sz pc =
     kbind (get_proc p) (\<lambda>q.
     let oldsz = p_sz q; sz = PGROUNDUP sz in
     kbind (uvmalloc pagetable sz (sz + 2 * PGSIZE) PTE_W) (\<lambda>sz1.
     if sz1 = 0 then exec_bad pagetable sz None else
     kthen (uvmclear pagetable (sz1 - 2 * PGSIZE)) (
     let stackbase = sz1 - PGSIZE in
     kbind (push_args pagetable stackbase argv (sz1, [])) (\<lambda>r.
     case r of None \<Rightarrow> exec_bad pagetable sz1 None
     | Some (sp, ustack) \<Rightarrow>
         let argc = length ustack; sp = sp - of_nat ((argc + 1) * 8); sp = sp - sp mod 16 in
         if sp < stackbase then exec_bad pagetable sz1 None else
         kbind (copyout pagetable sp (concat (map (le_bytes 8) (ustack @ [0])))) (\<lambda>r.
         if r < 0 then exec_bad pagetable sz1 None else
         kthen (exec_commit p pth pagetable sz1 oldsz pc sp)
         (ret (int argc)))))))"

definition exec :: "u8 list \<Rightarrow> u64 list \<Rightarrow> (int, 'z file_state_scheme) M" where
  "exec pth argv =
     kbind curproc (\<lambda>p.
     kthen begin_op (
     kbind (namei pth) (\<lambda>ip. case ip of None \<Rightarrow> kthen end_op (ret (-1)) | Some ip \<Rightarrow>
     kthen (ilock ip) (
     kbind (readi ip ObjDst 0 ELFHDR_SIZE) (\<lambda>(r, elf).
     if r \<noteq> uint ELFHDR_SIZE then exec_bad 0 0 (Some ip)
     else if elf_magic elf \<noteq> ELF_MAGIC then exec_bad 0 0 (Some ip)
     else
       kbind (proc_pagetable p) (\<lambda>pagetable.
       if pagetable = 0 then exec_bad 0 0 (Some ip) else
       kbind (kloop (unat (elf_phnum elf) + 1) (exec_load_body ip pagetable (unat (elf_phnum elf)))
         (0, ucast (elf_phoff elf), 0)) (\<lambda>r.
       case r of Inl sz \<Rightarrow> exec_bad pagetable sz (Some ip)
       | Inr sz \<Rightarrow>
           kthen (iunlockput ip) (
           kthen end_op (
           kbind curproc (\<lambda>p.
           exec_stack p pth argv pagetable sz (elf_entry elf))))))))))) "

end
