(* ===== verification/Xv6_Sysfile.thy ===== *)
theory Xv6_Sysfile
  imports Xv6_Exec
begin

text \<open>
  kernel/sysfile.c: the system calls on files. A path is the list of bytes before the NUL that \<open>argstr\<close> found.
  The results are the 64-bit values that go to \<open>a0\<close>.
\<close>

section \<open>fcntl.h, param.h\<close>

definition O_RDONLY :: u32 where "O_RDONLY = 0"
definition O_WRONLY :: u32 where "O_WRONLY = 1"
definition O_RDWR :: u32 where "O_RDWR = 2"
definition O_CREATE :: u32 where "O_CREATE = 0x200"
definition O_TRUNC :: u32 where "O_TRUNC = 0x400"
definition MAXPATH :: nat where "MAXPATH = 128"

definition path_of :: "u8 list \<Rightarrow> u8 list" where
  "path_of buf = takeWhile (\<lambda>c. c \<noteq> 0) buf"

section \<open>File descriptors\<close>

text \<open>The descriptor and its file; \<open>None\<close> where the code returns -1.\<close>

definition argfd :: "nat \<Rightarrow> ((nat \<times> nat) option, 'z proc_table_scheme) M" where
  "argfd n =
     kbind (argint n) (\<lambda>fd.
     if fd < 0 \<or> fd \<ge> int NOFILE then ret None else
     kbind curproc (\<lambda>p.
     kbind (get_proc p) (\<lambda>q.
     case p_ofile q (nat fd) of None \<Rightarrow> ret None | Some f \<Rightarrow> ret (Some (nat fd, f)))))"

definition fdalloc :: "nat \<Rightarrow> (int, 'z proc_table_scheme) M" where
  "fdalloc f =
     kbind curproc (\<lambda>p.
     kbind (kfor [0..<NOFILE] (\<lambda>fd.
       kbind (get_proc p) (\<lambda>q.
       case p_ofile q fd of
         None \<Rightarrow> kthen (set_proc p (\<lambda>q. q\<lparr>p_ofile := (p_ofile q)(fd := Some f)\<rparr>)) (ret (Some (int fd)))
       | Some _ \<Rightarrow> ret None)))
     (\<lambda>r. ret (case r of Some fd \<Rightarrow> fd | None \<Rightarrow> -1)))"

definition sys_dup :: "(u64, 'z file_state_scheme) M" where
  "sys_dup =
     kbind (argfd 0) (\<lambda>a. case a of None \<Rightarrow> ret (-1) | Some (_, f) \<Rightarrow>
     kbind (fdalloc f) (\<lambda>fd.
     if fd < 0 then ret (-1) else
     kbind (filedup f) (\<lambda>_. ret (of_int fd))))"

definition sys_read :: "(u64, 'z file_state_scheme) M" where
  "sys_read =
     kbind (argaddr 1) (\<lambda>p.
     kbind (argint 2) (\<lambda>n.
     kbind (argfd 0) (\<lambda>a. case a of None \<Rightarrow> ret (-1) | Some (_, f) \<Rightarrow>
     kbind (fileread f p n) (\<lambda>r. ret (of_int r)))))"

definition sys_write :: "(u64, 'z file_state_scheme) M" where
  "sys_write =
     kbind (argaddr 1) (\<lambda>p.
     kbind (argint 2) (\<lambda>n.
     kbind (argfd 0) (\<lambda>a. case a of None \<Rightarrow> ret (-1) | Some (_, f) \<Rightarrow>
     kbind (filewrite f p n) (\<lambda>r. ret (of_int r)))))"

definition sys_close :: "(u64, 'z file_state_scheme) M" where
  "sys_close =
     kbind (argfd 0) (\<lambda>a. case a of None \<Rightarrow> ret (-1) | Some (fd, f) \<Rightarrow>
     kbind curproc (\<lambda>p.
     kthen (set_proc p (\<lambda>q. q\<lparr>p_ofile := (p_ofile q)(fd := None)\<rparr>)) (
     kthen (fileclose f)
     (ret 0))))"

definition sys_fstat :: "u8 list \<Rightarrow> (u64, 'z file_state_scheme) M" where
  "sys_fstat pad =
     kbind (argaddr 1) (\<lambda>st.
     kbind (argfd 0) (\<lambda>a. case a of None \<Rightarrow> ret (-1) | Some (_, f) \<Rightarrow>
     kbind (filestat pad f st) (\<lambda>r. ret (of_int r))))"

section \<open>Links\<close>

definition link_bad :: "nat \<Rightarrow> (u64, 'z file_state_scheme) M" where
  "link_bad ip =
     kthen (ilock ip) (
     kthen (set_inode ip (\<lambda>i. i\<lparr>i_nlink := i_nlink i - 1\<rparr>)) (
     kthen (iupdate ip) (
     kthen (iunlockput ip) (
     kthen end_op
     (ret (-1))))))"

definition sys_link :: "(u64, 'z file_state_scheme) M" where
  "sys_link =
     kbind (argstr 0 MAXPATH) (\<lambda>(r, old).
     if r < 0 then ret (-1) else
     kbind (argstr 1 MAXPATH) (\<lambda>(r, new).
     if r < 0 then ret (-1) else
     kthen begin_op (
     kbind (namei (path_of old)) (\<lambda>ip. case ip of None \<Rightarrow> kthen end_op (ret (-1)) | Some ip \<Rightarrow>
     kthen (ilock ip) (
     kbind (get_inode ip i_type) (\<lambda>ty.
     if ty = T_DIR then kthen (iunlockput ip) (kthen end_op (ret (-1))) else
     kthen (set_inode ip (\<lambda>i. i\<lparr>i_nlink := i_nlink i + 1\<rparr>)) (
     kthen (iupdate ip) (
     kthen (iunlock ip) (
     kbind (nameiparent (path_of new)) (\<lambda>(dp, name). case dp of None \<Rightarrow> link_bad ip | Some dp \<Rightarrow>
     kthen (ilock dp) (
     kbind (get_inode dp i_dev) (\<lambda>ddev.
     kbind (get_inode ip (\<lambda>i. i)) (\<lambda>i.
     kbind (if ddev \<noteq> i_dev i then ret (-1) else dirlink dp name (i_inum i)) (\<lambda>r.
     if r < 0 then kthen (iunlockput dp) (link_bad ip) else
     kthen (iunlockput dp) (
     kthen (iput ip) (
     kthen end_op
     (ret 0)))))))))))))))))"

definition isdirempty_body :: "nat \<Rightarrow> u32 \<Rightarrow> (u32 + bool, 'z fs_state_scheme) M" where
  "isdirempty_body dp off =
     kbind (get_inode dp i_size) (\<lambda>size.
     if \<not> off < size then ret (Inr True) else
     kbind (readi dp ObjDst off DE_SIZE) (\<lambda>(r, de).
     if r \<noteq> uint DE_SIZE then panic ''isdirempty: readi''
     else if de_inum de \<noteq> 0 then ret (Inr False)
     else ret (Inl (off + DE_SIZE))))"

definition isdirempty :: "nat \<Rightarrow> (bool, 'z fs_state_scheme) M" where
  "isdirempty dp =
     kbind (get_inode dp i_size) (\<lambda>size.
     kloop (unat size div 16 + 2) (isdirempty_body dp) (2 * DE_SIZE))"

definition unlink_bad :: "nat \<Rightarrow> (u64, 'z file_state_scheme) M" where
  "unlink_bad dp = kthen (iunlockput dp) (kthen end_op (ret (-1)))"

definition unlink_entry :: "nat \<Rightarrow> nat \<Rightarrow> u32 \<Rightarrow> (u64, 'z file_state_scheme) M" where
  "unlink_entry dp ip off =
     kbind (writei dp (ObjSrc (replicate 16 0)) off DE_SIZE) (\<lambda>r.
     if r \<noteq> uint DE_SIZE then panic ''unlink: writei'' else
     kbind (get_inode ip i_type) (\<lambda>ty.
     kthen (kwhen (ty = T_DIR) (
       kthen (set_inode dp (\<lambda>i. i\<lparr>i_nlink := i_nlink i - 1\<rparr>))
       (iupdate dp))) (
     kthen (iunlockput dp) (
     kthen (set_inode ip (\<lambda>i. i\<lparr>i_nlink := i_nlink i - 1\<rparr>)) (
     kthen (iupdate ip) (
     kthen (iunlockput ip) (
     kthen end_op
     (ret 0))))))))"

definition sys_unlink :: "(u64, 'z file_state_scheme) M" where
  "sys_unlink =
     kbind (argstr 0 MAXPATH) (\<lambda>(r, pth).
     if r < 0 then ret (-1) else
     kthen begin_op (
     kbind (nameiparent (path_of pth)) (\<lambda>(dp, name). case dp of None \<Rightarrow> kthen end_op (ret (-1)) | Some dp \<Rightarrow>
     kthen (ilock dp) (
     if namecmp name (cstring (bytes_of ''.'')) = 0 \<or> namecmp name (cstring (bytes_of ''..'')) = 0 then unlink_bad dp else
     kbind (dirlookup dp name) (\<lambda>r. case r of None \<Rightarrow> unlink_bad dp | Some (ip, off) \<Rightarrow>
     kthen (ilock ip) (
     kbind (get_inode ip (\<lambda>i. i)) (\<lambda>i.
     if sint (i_nlink i) < 1 then panic ''unlink: nlink < 1'' else
     kbind (if i_type i = T_DIR then isdirempty ip else ret True) (\<lambda>ok.
     if \<not> ok then kthen (iunlockput ip) (unlink_bad dp)
     else unlink_entry dp ip off))))))))"

section \<open>create\<close>

definition create_fail :: "nat \<Rightarrow> nat \<Rightarrow> (nat option, 'z fs_state_scheme) M" where
  "create_fail dp ip =
     kthen (set_inode ip (\<lambda>i. i\<lparr>i_nlink := 0\<rparr>)) (
     kthen (iupdate ip) (
     kthen (iunlockput ip) (
     kthen (iunlockput dp)
     (ret None))))"

definition create_dots :: "nat \<Rightarrow> nat \<Rightarrow> (bool, 'z fs_state_scheme) M" where
  "create_dots dp ip =
     kbind (get_inode ip i_inum) (\<lambda>inum.
     kbind (dirlink ip (cstring (bytes_of ''.'')) inum) (\<lambda>r.
     if r < 0 then ret False else
     kbind (get_inode dp i_inum) (\<lambda>dinum.
     kbind (dirlink ip (cstring (bytes_of ''..'')) dinum) (\<lambda>r.
     ret (\<not> r < 0)))))"

definition create_new :: "nat \<Rightarrow> (nat \<Rightarrow> u8) \<Rightarrow> u16 \<Rightarrow> u16 \<Rightarrow> u16 \<Rightarrow> (nat option, 'z fs_state_scheme) M" where
  "create_new dp name type major minor =
     kbind (get_inode dp i_dev) (\<lambda>dev.
     kbind (ialloc dev type) (\<lambda>r. case r of None \<Rightarrow> kthen (iunlockput dp) (ret None) | Some ip \<Rightarrow>
     kthen (ilock ip) (
     kthen (set_inode ip (\<lambda>i. i\<lparr>i_major := major, i_minor := minor, i_nlink := 1\<rparr>)) (
     kthen (iupdate ip) (
     kbind (if type = T_DIR then create_dots dp ip else ret True) (\<lambda>ok.
     if \<not> ok then create_fail dp ip else
     kbind (get_inode ip i_inum) (\<lambda>inum.
     kbind (dirlink dp name inum) (\<lambda>r.
     if r < 0 then create_fail dp ip else
     kthen (kwhen (type = T_DIR) (
       kthen (set_inode dp (\<lambda>i. i\<lparr>i_nlink := i_nlink i + 1\<rparr>))
       (iupdate dp))) (
     kthen (iunlockput dp)
     (ret (Some ip)))))))))))"

definition create :: "u8 list \<Rightarrow> u16 \<Rightarrow> u16 \<Rightarrow> u16 \<Rightarrow> (nat option, 'z fs_state_scheme) M" where
  "create pth type major minor =
     kbind (nameiparent pth) (\<lambda>(dp, name). case dp of None \<Rightarrow> ret None | Some dp \<Rightarrow>
     kthen (ilock dp) (
     kbind (dirlookup dp name) (\<lambda>r. case r of
       Some (ip, _) \<Rightarrow>
         kthen (iunlockput dp) (
         kthen (ilock ip) (
         kbind (get_inode ip i_type) (\<lambda>ty.
         if type = T_FILE \<and> (ty = T_FILE \<or> ty = T_DEVICE) then ret (Some ip)
         else kthen (iunlockput ip) (ret None))))
     | None \<Rightarrow> create_new dp name type major minor)))"

section \<open>open, mkdir, mknod, chdir\<close>

definition open_inode :: "u8 list \<Rightarrow> u32 \<Rightarrow> (nat option, 'z fs_state_scheme) M" where
  "open_inode pth omode =
     (if omode AND O_CREATE \<noteq> 0 then create pth T_FILE 0 0
      else
        kbind (namei pth) (\<lambda>ip. case ip of None \<Rightarrow> ret None | Some ip \<Rightarrow>
        kthen (ilock ip) (
        kbind (get_inode ip i_type) (\<lambda>ty.
        if ty = T_DIR \<and> omode \<noteq> O_RDONLY then kthen (iunlockput ip) (ret None)
        else ret (Some ip)))))"

definition open_bad :: "nat \<Rightarrow> (u64, 'z file_state_scheme) M" where
  "open_bad ip = kthen (iunlockput ip) (kthen end_op (ret (-1)))"

definition open_file :: "nat \<Rightarrow> nat \<Rightarrow> u32 \<Rightarrow> (unit, 'z file_state_scheme) M" where
  "open_file f ip omode =
     kbind (get_inode ip (\<lambda>i. i)) (\<lambda>i.
     kthen (if i_type i = T_DEVICE
       then set_file f (\<lambda>q. q\<lparr>f_type := FD_DEVICE, f_major := i_major i\<rparr>)
       else set_file f (\<lambda>q. q\<lparr>f_type := FD_INODE, f_off := 0\<rparr>)) (
     kthen (set_file f (\<lambda>q. q\<lparr>f_ip := Some ip,
       f_readable := (if omode AND O_WRONLY = 0 then 1 else 0),
       f_writable := (if omode AND O_WRONLY \<noteq> 0 \<or> omode AND O_RDWR \<noteq> 0 then 1 else 0)\<rparr>)) (
     kwhen (omode AND O_TRUNC \<noteq> 0 \<and> i_type i = T_FILE) (itrunc ip))))"

definition sys_open :: "(u64, 'z file_state_scheme) M" where
  "sys_open =
     kbind (argint 1) (\<lambda>om.
     let omode = of_int om in
     kbind (argstr 0 MAXPATH) (\<lambda>(n, pth).
     if n < 0 then ret (-1) else
     kthen begin_op (
     kbind (open_inode (path_of pth) omode) (\<lambda>r. case r of None \<Rightarrow> kthen end_op (ret (-1)) | Some ip \<Rightarrow>
     kbind (get_inode ip (\<lambda>i. i)) (\<lambda>i.
     if i_type i = T_DEVICE \<and> (sint (i_major i) < 0 \<or> sint (i_major i) \<ge> int NDEV) then open_bad ip else
     kbind filealloc (\<lambda>f. case f of None \<Rightarrow> open_bad ip | Some f \<Rightarrow>
     kbind (fdalloc f) (\<lambda>fd.
     if fd < 0 then kthen (fileclose f) (open_bad ip) else
     kthen (open_file f ip omode) (
     kthen (iunlock ip) (
     kthen end_op
     (ret (of_int fd)))))))))))"

definition sys_mkdir :: "(u64, 'z file_state_scheme) M" where
  "sys_mkdir =
     kthen begin_op (
     kbind (argstr 0 MAXPATH) (\<lambda>(r, pth).
     kbind (if r < 0 then ret None else create (path_of pth) T_DIR 0 0) (\<lambda>ip. case ip of
       None \<Rightarrow> kthen end_op (ret (-1))
     | Some ip \<Rightarrow> kthen (iunlockput ip) (kthen end_op (ret 0)))))"

definition sys_mknod :: "(u64, 'z file_state_scheme) M" where
  "sys_mknod =
     kthen begin_op (
     kbind (argint 1) (\<lambda>major.
     kbind (argint 2) (\<lambda>minor.
     kbind (argstr 0 MAXPATH) (\<lambda>(r, pth).
     kbind (if r < 0 then ret None else create (path_of pth) T_DEVICE (of_int major) (of_int minor)) (\<lambda>ip. case ip of
       None \<Rightarrow> kthen end_op (ret (-1))
     | Some ip \<Rightarrow> kthen (iunlockput ip) (kthen end_op (ret 0)))))))"

definition sys_chdir :: "(u64, 'z file_state_scheme) M" where
  "sys_chdir =
     kbind curproc (\<lambda>p.
     kthen begin_op (
     kbind (argstr 0 MAXPATH) (\<lambda>(r, pth).
     kbind (if r < 0 then ret None else namei (path_of pth)) (\<lambda>ip. case ip of
       None \<Rightarrow> kthen end_op (ret (-1))
     | Some ip \<Rightarrow>
         kthen (ilock ip) (
         kbind (get_inode ip i_type) (\<lambda>ty.
         if ty \<noteq> T_DIR then kthen (iunlockput ip) (kthen end_op (ret (-1))) else
         kthen (iunlock ip) (
         kbind (get_proc p) (\<lambda>q.
         kbind (the_ip (p_cwd q)) (\<lambda>cwd.
         kthen (iput cwd) (
         kthen end_op (
         kthen (set_proc p (\<lambda>q. q\<lparr>p_cwd := Some ip\<rparr>))
         (ret 0))))))))))))"

section \<open>exec and pipe\<close>

text \<open>The loop that fetches the arguments: the pages so far, and whether it ended well.\<close>

definition exec_args_body :: "u64 \<Rightarrow> u64 list \<Rightarrow> (u64 list + (u64 list \<times> bool), 'z file_state_scheme) M" where
  "exec_args_body uargv argv =
     (if length argv \<ge> MAXARG then ret (Inr (argv, False)) else
      kbind (fetchaddr (uargv + 8 * of_nat (length argv))) (\<lambda>(r, uarg).
      if r < 0 then ret (Inr (argv, False))
      else if uarg = 0 then ret (Inr (argv, True))
      else
        kbind kalloc (\<lambda>page.
        if page = 0 then ret (Inr (argv, False)) else
        kbind (fetchstr uarg 4096) (\<lambda>(r, bs).
        kthen (set_mem (write_bytes page bs))
        (ret (if r < 0 then Inr (argv @ [page], False) else Inl (argv @ [page])))))))"

definition sys_exec :: "(u64, 'z file_state_scheme) M" where
  "sys_exec =
     kbind (argaddr 1) (\<lambda>uargv.
     kbind (argstr 0 MAXPATH) (\<lambda>(r, pth).
     if r < 0 then ret (-1) else
     kbind (kloop (MAXARG + 1) (exec_args_body uargv) []) (\<lambda>(argv, ok).
     kbind (if ok then exec (path_of pth) argv else ret (-1)) (\<lambda>r.
     kthen (kforall argv kfree)
     (ret (of_int r))))))"

definition clear_fd :: "nat \<Rightarrow> int \<Rightarrow> (unit, 'z proc_table_scheme) M" where
  "clear_fd p fd = set_proc p (\<lambda>q. q\<lparr>p_ofile := (p_ofile q)(nat fd := None)\<rparr>)"

definition sys_pipe :: "(u64, 'z file_state_scheme) M" where
  "sys_pipe =
     kbind curproc (\<lambda>p.
     kbind (argaddr 0) (\<lambda>fdarray.
     kbind pipealloc (\<lambda>r. case r of None \<Rightarrow> ret (-1) | Some (rfile, wfile) \<Rightarrow>
     kbind (fdalloc rfile) (\<lambda>fd0.
     kbind (if fd0 < 0 then ret (-1) else fdalloc wfile) (\<lambda>fd1.
     if fd0 < 0 \<or> fd1 < 0 then
       kthen (kwhen (fd0 \<ge> 0) (clear_fd p fd0)) (
       kthen (fileclose rfile) (
       kthen (fileclose wfile)
       (ret (-1))))
     else
       kbind (get_proc p) (\<lambda>q.
       kbind (copyout (p_pagetable q) fdarray (int_bytes fd0)) (\<lambda>r0.
       kbind (if r0 < 0 then ret (-1) else copyout (p_pagetable q) (fdarray + 4) (int_bytes fd1)) (\<lambda>r1.
       if r0 < 0 \<or> r1 < 0 then
         kthen (clear_fd p fd0) (
         kthen (clear_fd p fd1) (
         kthen (fileclose rfile) (
         kthen (fileclose wfile)
         (ret (-1)))))
       else ret 0))))))))"

end
