(* ===== verification/Xv6_Trap.thy ===== *)
theory Xv6_Trap
  imports Xv6_Sysfile
begin

text \<open>
  kernel/sysproc.c, the dispatch of kernel/syscall.c, kernel/trap.c, \<open>forkret\<close> of kernel/proc.c, kernel/start.c
  and kernel/main.c. The trap registers are those of the hart that runs. \<open>usertrapret\<close> ends with the address it jumps to and
  the value it passes in \<open>a0\<close>; what follows is assembly code.
\<close>

section \<open>State\<close>

record trap_state = file_state +
  ticks :: u32
  forkret_first :: int
  stvec :: u64
  sepc :: u64
  scause :: u64
  stval :: u64
  sip :: u64
  started :: int

definition SSTATUS_SPP :: u64 where "SSTATUS_SPP = push_bit 8 1"
definition SSTATUS_SPIE :: u64 where "SSTATUS_SPIE = push_bit 5 1"

definition r_sstatus :: "(u64, 'z kbase_scheme) M" where
  "r_sstatus = gets (\<lambda>s. sstatus (hw s) (tp (hw s)))"

definition w_sstatus :: "u64 \<Rightarrow> (unit, 'z kbase_scheme) M" where
  "w_sstatus x = modify (\<lambda>s. s\<lparr>hw := set_sstatus x (hw s)\<rparr>)"

section \<open>sysproc.c\<close>

definition sys_exit :: "(nat \<Rightarrow> u8) \<Rightarrow> (u64, 'z file_state_scheme) M" where
  "sys_exit msgbuf =
     kbind (argint 0) (\<lambda>status.
     kbind (argaddr 1) (\<lambda>msgaddr.
     kbind (if msgaddr \<noteq> 0 then
         kbind (fetchstr msgaddr 32) (\<lambda>(r, bs).
         let buf = (\<lambda>i. if i < length bs then bs ! i else msgbuf i) in
         ret (if r < 0 then buf(0 := 0) else buf))
       else ret (msgbuf(0 := 0))) (\<lambda>buf.
     kthen (exit_fn status buf)
     (ret 0))))"

definition sys_getpid :: "(u64, 'z file_state_scheme) M" where
  "sys_getpid = kbind curproc (\<lambda>p. kbind (get_proc p) (\<lambda>q. ret (of_int (p_pid q))))"

definition sys_fork :: "(u64, 'z file_state_scheme) M" where
  "sys_fork = kbind fork (\<lambda>r. ret (of_int r))"

definition sys_wait :: "(u64, 'z file_state_scheme) M" where
  "sys_wait =
     kbind (argaddr 0) (\<lambda>statusaddr.
     kbind (argaddr 1) (\<lambda>msgaddr.
     kbind (wait_fn statusaddr msgaddr) (\<lambda>r. ret (of_int r))))"

definition sys_sbrk :: "(u64, 'z file_state_scheme) M" where
  "sys_sbrk =
     kbind (argint 0) (\<lambda>n.
     kbind curproc (\<lambda>p.
     kbind (get_proc p) (\<lambda>q.
     kbind (growproc n) (\<lambda>r.
     ret (if r < 0 then -1 else p_sz q)))))"

text \<open>The loop of \<open>sys_sleep\<close>; the comparison is unsigned.\<close>

definition sleep_loop :: "u32 \<Rightarrow> int \<Rightarrow> (u64, 'z trap_state_scheme) M" where
  "sleep_loop ticks0 n =
     kbind (gets ticks) (\<lambda>t.
     if t - ticks0 < of_int n then
       kbind curproc (\<lambda>p.
       kbind (killed p) (\<lambda>k.
       if k \<noteq> 0 then kthen (release LkTicks) (ret (-1))
       else sleep ChTicks LkTicks))
     else kthen (release LkTicks) (ret 0))"

definition sys_sleep :: "(u64, 'z trap_state_scheme) M" where
  "sys_sleep =
     kbind (argint 0) (\<lambda>n.
     kthen (acquire LkTicks) (
     kbind (gets ticks) (\<lambda>ticks0.
     sleep_loop ticks0 n)))"

definition sys_kill :: "(u64, 'z file_state_scheme) M" where
  "sys_kill = kbind (argint 0) (\<lambda>pid. kbind (kill pid) (\<lambda>r. ret (of_int r)))"

definition sys_uptime :: "(u64, 'z trap_state_scheme) M" where
  "sys_uptime =
     kthen (acquire LkTicks) (
     kbind (gets ticks) (\<lambda>xticks.
     kthen (release LkTicks)
     (ret (ucast xticks))))"

definition sys_memsize :: "(u64, 'z file_state_scheme) M" where
  "sys_memsize = kbind curproc (\<lambda>p. kbind (get_proc p) (\<lambda>q. ret (p_sz q)))"

definition sys_forkn :: "(u64, 'z file_state_scheme) M" where
  "sys_forkn =
     kbind (argint 0) (\<lambda>n.
     kbind (argaddr 1) (\<lambda>pids.
     kbind (forkn n pids) (\<lambda>r. ret (of_int r))))"

definition sys_waitall :: "(u64, 'z file_state_scheme) M" where
  "sys_waitall =
     kbind (argaddr 0) (\<lambda>n_addr.
     kbind (argaddr 1) (\<lambda>statuses_addr.
     kbind (waitall n_addr statuses_addr) (\<lambda>r. ret (of_int r))))"

section \<open>syscall.c: dispatch\<close>

text \<open>\<open>pad\<close> and \<open>buf\<close> are what the stack holds where \<open>filestat\<close> and \<open>sys_exit\<close> leave memory unset.\<close>

definition syscalls :: "u8 list \<Rightarrow> (nat \<Rightarrow> u8) \<Rightarrow> (u64, 'z trap_state_scheme) M list" where
  "syscalls pad buf = [sys_fork, sys_exit buf, sys_wait, sys_pipe, sys_read, sys_kill, sys_exec, sys_fstat pad,
     sys_chdir, sys_dup, sys_getpid, sys_sbrk, sys_sleep, sys_uptime, sys_open, sys_write, sys_mknod, sys_unlink,
     sys_link, sys_mkdir, sys_close, sys_memsize, sys_forkn, sys_waitall]"

definition syscall :: "u8 list \<Rightarrow> (nat \<Rightarrow> u8) \<Rightarrow> (unit, 'z trap_state_scheme) M" where
  "syscall pad buf =
     kbind curproc (\<lambda>p.
     kbind (tf_load p TF_a7) (\<lambda>a7.
     let num = sint (ucast a7 :: u32) in
     if num > 0 \<and> num < int (length (syscalls pad buf :: (u64, 'z trap_state_scheme) M list)) + 1 then
       kbind (syscalls pad buf ! (nat num - 1)) (\<lambda>r. tf_store p TF_a0 r)
     else
       kbind (get_proc p) (\<lambda>q.
       kthen (printf (bytes_of ''%d %s: unknown sys call %d'' @ [10])
         [PInt (p_pid q), PStr (Some (cstr 16 (p_name q))), PInt num])
       (tf_store p TF_a0 (-1)))))"

section \<open>trap.c\<close>

definition trapinit :: "(unit, 'z trap_state_scheme) M" where
  "trapinit = initlock LkTicks ''time''"

definition trapinithart :: "(unit, 'z trap_state_scheme) M" where
  "trapinithart = modify (\<lambda>s. s\<lparr>stvec := sym_kernelvec (sym s)\<rparr>)"

definition clockintr :: "(unit, 'z trap_state_scheme) M" where
  "clockintr =
     kthen (acquire LkTicks) (
     kthen (modify (\<lambda>s. s\<lparr>ticks := ticks s + 1\<rparr>)) (
     kthen (wakeup ChTicks)
     (release LkTicks)))"

text \<open>\<open>n\<close> bounds the bytes the UART has ready, as in \<open>uartintr\<close>.\<close>

definition devintr :: "nat \<Rightarrow> (int, 'z trap_state_scheme) M" where
  "devintr n =
     kbind (gets scause) (\<lambda>cause.
     if cause AND 0x8000000000000000 \<noteq> 0 \<and> cause AND 0xff = 9 then
       kbind plic_claim (\<lambda>irq.
       kthen (if irq = UART0_IRQ then uartintr n
         else if irq = VIRTIO0_IRQ then virtio_disk_intr
         else kwhen (irq \<noteq> 0) (printf (bytes_of ''unexpected interrupt irq=%d'' @ [10]) [PInt (sint irq)])) (
       kthen (kwhen (irq \<noteq> 0) (plic_complete irq))
       (ret 1)))
     else if cause = 0x8000000000000001 then
       kbind cpuid (\<lambda>c.
       kthen (kwhen (c = 0) clockintr) (
       kthen (modify (\<lambda>s. s\<lparr>sip := sip s AND NOT 2\<rparr>))
       (ret 2)))
     else ret 0)"

definition usertrapret :: "(u64 \<times> u64, 'z trap_state_scheme) M" where
  "usertrapret =
     kbind curproc (\<lambda>p.
     kthen intr_off (
     kbind (gets sym) (\<lambda>y.
     kthen (modify (\<lambda>s. s\<lparr>stvec := TRAMPOLINE + (sym_uservec y - sym_trampoline y)\<rparr>)) (
     kbind (gets (\<lambda>s. satp s (tp (hw s)))) (\<lambda>ksatp.
     kthen (tf_store p TF_kernel_satp ksatp) (
     kbind (get_proc p) (\<lambda>q.
     kthen (tf_store p TF_kernel_sp (p_kstack q + PGSIZE)) (
     kthen (tf_store p TF_kernel_trap (sym_usertrap y)) (
     kbind cpuid (\<lambda>id.
     kthen (tf_store p TF_kernel_hartid (of_nat id)) (
     kbind r_sstatus (\<lambda>x.
     kthen (w_sstatus (x AND NOT SSTATUS_SPP OR SSTATUS_SPIE)) (
     kbind (tf_load p TF_epc) (\<lambda>pc.
     kthen (modify (\<lambda>s. s\<lparr>sepc := pc\<rparr>))
     (ret (TRAMPOLINE + (sym_userret y - sym_trampoline y), MAKE_SATP (p_pagetable q)))))))))))))))))"

text \<open>\<open>usertrap\<close> up to \<open>yield\<close> or \<open>usertrapret\<close>; \<open>exit\<close> does not return.\<close>

definition exit_if_killed :: "nat \<Rightarrow> (unit, 'z file_state_scheme) M" where
  "exit_if_killed p = kbind (killed p) (\<lambda>k. kwhen (k \<noteq> 0) (exit_fn (-1) (\<lambda>_. 0)))"

definition usertrap :: "u8 list \<Rightarrow> (nat \<Rightarrow> u8) \<Rightarrow> nat \<Rightarrow> (u64 \<times> u64, 'z trap_state_scheme) M" where
  "usertrap pad buf n =
     kbind r_sstatus (\<lambda>x.
     if x AND SSTATUS_SPP \<noteq> 0 then panic ''usertrap: not from user mode'' else
     kthen (modify (\<lambda>s. s\<lparr>stvec := sym_kernelvec (sym s)\<rparr>)) (
     kbind curproc (\<lambda>p.
     kbind (gets sepc) (\<lambda>pc.
     kthen (tf_store p TF_epc pc) (
     kbind (gets scause) (\<lambda>cause.
     kbind (if cause = 8 then
         kthen (exit_if_killed p) (
         kbind (tf_load p TF_epc) (\<lambda>pc.
         kthen (tf_store p TF_epc (pc + 4)) (
         kthen intr_on (
         kthen (syscall pad buf)
         (ret 0)))))
       else
         kbind (devintr n) (\<lambda>which_dev.
         kthen (kwhen (which_dev = 0) (
           kbind (get_proc p) (\<lambda>q.
           kthen (printf (bytes_of ''usertrap(): unexpected scause %p pid=%d'' @ [10]) [PPtr cause, PInt (p_pid q)]) (
           kbind (gets sepc) (\<lambda>pc.
           kbind (gets stval) (\<lambda>v.
           kthen (printf (bytes_of ''            sepc=%p stval=%p'' @ [10]) [PPtr pc, PPtr v])
           (setkilled p)))))))
         (ret which_dev))) (\<lambda>which_dev.
     kthen (exit_if_killed p) (
     kthen (kwhen (which_dev = 2) yield)
     usertrapret))))))))"

definition kerneltrap :: "nat \<Rightarrow> (unit, 'z trap_state_scheme) M" where
  "kerneltrap n =
     kbind (gets sepc) (\<lambda>pc.
     kbind r_sstatus (\<lambda>x.
     kbind (gets scause) (\<lambda>cause.
     if x AND SSTATUS_SPP = 0 then panic ''kerneltrap: not from supervisor mode'' else
     kbind intr_get (\<lambda>i.
     if i then panic ''kerneltrap: interrupts enabled'' else
     kbind (devintr n) (\<lambda>which_dev.
     if which_dev = 0 then
       kthen (printf (bytes_of ''scause %p'' @ [10]) [PPtr cause]) (
       kbind (gets sepc) (\<lambda>pc.
       kbind (gets stval) (\<lambda>v.
       kthen (printf (bytes_of ''sepc=%p stval=%p'' @ [10]) [PPtr pc, PPtr v])
       (panic ''kerneltrap''))))
     else
       kbind myproc (\<lambda>me.
       kbind (case me of None \<Rightarrow> ret False | Some p \<Rightarrow> kbind (get_proc p) (\<lambda>q. ret (p_state q = RUNNING))) (\<lambda>run.
       kthen (kwhen (which_dev = 2 \<and> run) yield) (
       kthen (modify (\<lambda>s. s\<lparr>sepc := pc\<rparr>))
       (w_sstatus x))))))))) "

section \<open>proc.c: forkret\<close>

definition forkret :: "(u64 \<times> u64, 'z trap_state_scheme) M" where
  "forkret =
     kbind curproc (\<lambda>p.
     kthen (release (LkProc p)) (
     kbind (gets forkret_first) (\<lambda>first.
     kthen (kwhen (first \<noteq> 0) (
       kthen (modify (\<lambda>s. s\<lparr>forkret_first := 0\<rparr>))
       (fsinit (uint ROOTDEV))))
     usertrapret)))"

section \<open>start.c\<close>

text \<open>The machine-mode registers of a hart. The addresses of \<open>main\<close>, \<open>timervec\<close> and the scratch area, and the
  value of \<open>MTIME\<close>, are arguments; the stores to the CLINT and to the scratch area are fields.\<close>

record mregs =
  mstatus :: u64
  mepc :: u64
  m_satp :: u64
  medeleg :: u64
  mideleg :: u64
  sie_reg :: u64
  pmpaddr0 :: u64
  pmpcfg0 :: u64
  mhartid :: u64
  mtimecmp :: "u64 \<Rightarrow> u64"
  timer_scratch :: "u64 \<Rightarrow> nat \<Rightarrow> u64"
  mscratch :: u64
  mtvec :: u64
  mie :: u64
  m_tp :: u64

definition MSTATUS_MPP_MASK :: u64 where "MSTATUS_MPP_MASK = push_bit 11 3"
definition MSTATUS_MPP_S :: u64 where "MSTATUS_MPP_S = push_bit 11 1"
definition MSTATUS_MIE :: u64 where "MSTATUS_MIE = push_bit 3 1"
definition SIE_SEIE :: u64 where "SIE_SEIE = push_bit 9 1"
definition SIE_STIE :: u64 where "SIE_STIE = push_bit 5 1"
definition SIE_SSIE :: u64 where "SIE_SSIE = push_bit 1 1"
definition MIE_MTIE :: u64 where "MIE_MTIE = push_bit 7 1"
definition CLINT :: u64 where "CLINT = 0x2000000"

definition CLINT_MTIMECMP :: "u64 \<Rightarrow> u64" where
  "CLINT_MTIMECMP hartid = CLINT + 0x4000 + 8 * hartid"

definition timerinit :: "u64 \<Rightarrow> u64 \<Rightarrow> (u64 \<Rightarrow> u64) \<Rightarrow> mregs \<Rightarrow> mregs" where
  "timerinit mtime timervec scratch_addr m =
     (let id = mhartid m; interval = 1000000;
          m = m\<lparr>mtimecmp := (mtimecmp m)(CLINT_MTIMECMP id := mtime + interval)\<rparr>;
          m = m\<lparr>timer_scratch := (timer_scratch m)(id := (timer_scratch m id)(3 := CLINT_MTIMECMP id, 4 := interval))\<rparr>;
          m = m\<lparr>mscratch := scratch_addr id\<rparr>;
          m = m\<lparr>mtvec := timervec\<rparr>;
          m = m\<lparr>mstatus := mstatus m OR MSTATUS_MIE\<rparr>
      in m\<lparr>mie := mie m OR MIE_MTIE\<rparr>)"

definition start :: "u64 \<Rightarrow> u64 \<Rightarrow> u64 \<Rightarrow> (u64 \<Rightarrow> u64) \<Rightarrow> mregs \<Rightarrow> mregs" where
  "start main_addr mtime timervec scratch_addr m =
     (let m = m\<lparr>mstatus := mstatus m AND NOT MSTATUS_MPP_MASK OR MSTATUS_MPP_S\<rparr>;
          m = m\<lparr>mepc := main_addr\<rparr>;
          m = m\<lparr>m_satp := 0\<rparr>;
          m = m\<lparr>medeleg := 0xffff\<rparr>;
          m = m\<lparr>mideleg := 0xffff\<rparr>;
          m = m\<lparr>sie_reg := sie_reg m OR SIE_SEIE OR SIE_STIE OR SIE_SSIE\<rparr>;
          m = m\<lparr>pmpaddr0 := 0x3fffffffffffff\<rparr>;
          m = m\<lparr>pmpcfg0 := 0xf\<rparr>;
          m = timerinit mtime timervec scratch_addr m
      in m\<lparr>m_tp := mhartid m\<rparr>)"

section \<open>main.c\<close>

text \<open>Up to the call of \<open>scheduler\<close>.\<close>

definition main :: "(unit, 'z trap_state_scheme) M" where
  "main =
     kbind cpuid (\<lambda>c.
     if c = 0 then
       kthen consoleinit (
       kthen printfinit (
       kthen (printf [10] []) (
       kthen (printf (bytes_of ''xv6 kernel is booting'' @ [10]) []) (
       kthen (printf [10] []) (
       kthen kinit (
       kthen kvminit (
       kthen kvminithart (
       kthen procinit (
       kthen trapinit (
       kthen trapinithart (
       kthen plicinit (
       kthen plicinithart (
       kthen binit (
       kthen iinit (
       kthen fileinit (
       kthen virtio_disk_init (
       kthen userinit
       (modify (\<lambda>s. s\<lparr>started := 1\<rparr>)))))))))))))))))))
     else
       kbind (gets started) (\<lambda>st.
       if st = 0 then block Forever else
       kthen (printf (bytes_of ''hart %d starting'' @ [10]) [PInt (int c)]) (
       kthen kvminithart (
       kthen trapinithart
       plicinithart))))"

end
