(* ===== verification/Spec2Isabelle.thy ===== *)
theory Spec2Isabelle
  imports Xv6_Trap
begin

text \<open>
  A model of the xv6 kernel under src/kernel, with the system calls \<open>memsize\<close>, \<open>forkn\<close>, \<open>waitall\<close> and the exit messages this
  version adds, and the theorems that make it correct.

  \<^bold>\<open>The program.\<close> Harts enter the kernel through traps (trap.c) from user processes or devices; \<open>syscall\<close> dispatches to
  the functions of sysproc.c and sysfile.c. These use processes (proc.c), address spaces (vm.c, on pages from kalloc.c), and
  open files (file.c, pipe.c). Files are inodes (fs.c) whose blocks go through a redo log (log.c) and a
  buffer cache (bio.c) to the disk (virtio_disk.c). Spin locks (spinlock.c) protect all of it, sleep locks (sleeplock.c)
  protect buffers and inodes; \<open>sleep\<close> and \<open>wakeup\<close> block and continue processes.

  \<^bold>\<open>How code is modelled.\<close> A C function is a definition of the same name in a state monad (\<open>Xv6_Prelude\<close>). Running it ends in \<open>Ok\<close> with
  a result, in \<open>Panic\<close>, in \<open>Fault\<close> (a null pointer and the like), or in \<open>Block\<close>, where the hart spins on a lock or switches to another
  thread; what follows a switch is a definition of its own (\<open>sleep_return\<close>, \<open>wait_loop\<close>, \<open>acquiresleep_loop\<close>, \<dots>). The
  state is a record that each component extends with its globals: \<open>kbase\<close> (harts, locks, physical memory), \<open>kmem_state\<close>,
  \<open>vm_state\<close>, \<open>proc_table\<close>, \<open>sleep_table\<close>, \<open>bus_state\<close>, \<open>disk_state\<close>, \<open>log_state\<close>, \<open>fs_state\<close>, \<open>con_state\<close>, \<open>file_state\<close>,
  \<open>trap_state\<close>. Pages, page tables and trapframes are bytes of physical memory; integers have their C widths. A
  definition is the run of one hart while the other harts stand still. The interleavings of harts are modelled by
  two step relations, \<open>sl_step\<close> for a spin lock and \<open>sw_step\<close> for \<open>sleep\<close> and \<open>wakeup\<close>.

  \<^bold>\<open>Parameters.\<close> What is not C code of the kernel is an argument or a field of the state: the addresses the linker assigns
  (\<open>symbols\<close>), what device registers return (\<open>bus\<close>), what the disk does with a request (\<open>blkdev\<close>, with the contract \<open>blk_ok\<close> of a
  virtio block device), and the number of bytes the UART has received.

  \<^bold>\<open>Theories, in the order of the imports.\<close>
  \<^item> \<open>Xv6_Prelude\<close>: the monad, the rules of \<open>runs\<close>, words and lists.
  \<^item> \<open>Xv6_String\<close>, \<open>Xv6_Mem\<close>: string.c; memory accesses and page arithmetic. Shown: \<open>memmove\<close> on overlapping blocks, the bounds of \<open>safestrcpy\<close>.
  \<^item> \<open>Xv6_Spinlock\<close>: spinlock.c. Shown: mutual exclusion in every interleaving, the functions refine the protocol, nesting of interrupt states.
  \<^item> \<open>Xv6_Kalloc\<close>: kalloc.c. Shown: the contract \<open>page_alloc\<close>, no page is lost or handed out twice; \<open>kinit\<close> ends and frees every page.
  \<^item> \<open>Xv6_Vm\<close>, \<open>Xv6_Paging\<close>, \<open>Xv6_Usermem\<close>: vm.c. Shown: \<open>mappages\<close> installs the mappings; \<open>copyout\<close>, \<open>copyin\<close> and \<open>copyinstr\<close> access exactly the
    user bytes they should, and the first two are inverse.
  \<^item> \<open>Xv6_Proc\<close>: proc.c without the life cycle. Shown: no lost wakeup, what \<open>wakeup\<close>, \<open>sleep\<close>, \<open>kill\<close> and the scheduler do.
  \<^item> \<open>Xv6_Sleeplock\<close>, \<open>Xv6_Bus\<close>: sleeplock.c; device registers.
  \<^item> \<open>Xv6_Virtio\<close>, \<open>Xv6_Ring\<close>, \<open>Xv6_Bio\<close>: virtio_disk.c and bio.c. Shown: requests complete; the cache is transparent, keeps its list in
    the order of last use, and meets the contract \<open>block_cache\<close> its clients rest on.
  \<^item> \<open>Xv6_Bytes\<close>, \<open>Xv6_Log\<close>: structures in blocks; log.c. Shown: a transaction is atomic under crashes, recovery replays the
    log, \<open>log_write\<close> absorbs, and the space \<open>begin_op\<close> reserves is one block short.
  \<^item> \<open>Xv6_Printf\<close>: printf.c, polled output, and plic.c. Shown: the output is the text of a reference formatter.
  \<^item> \<open>Xv6_Fs\<close>, \<open>Xv6_Balloc\<close>, \<open>Xv6_Namei\<close>: fs.c. Shown: \<open>readi\<close> reads the file's contents, \<open>dirlookup\<close> finds names, \<open>balloc\<close> allocates a
    free block, \<open>namex\<close> resolves paths and balances the references.
  \<^item> \<open>Xv6_Fifo\<close>, \<open>Xv6_Console\<close>, \<open>Xv6_File\<close>: uart.c, console.c, file.c and pipe.c. Their three ring buffers are instances of
    the interface \<open>byte_ring\<close>. Shown: the line discipline of the console, the order of output, reads and writes of pipes.
  \<^item> \<open>Xv6_Lifecycle\<close>, \<open>Xv6_Exec\<close>, \<open>Xv6_Sysfile\<close>, \<open>Xv6_Trap\<close>: the rest of proc.c, exec.c, syscall.c, sysfile.c, sysproc.c, trap.c, start.c
    and main.c. These are definitions; no theorem is about them yet.

  \<^bold>\<open>Bounds.\<close> A loop that C bounds by a counter is a bounded loop. Other loops take fuel: \<open>VM_FUEL\<close> in vm.c covers the pages below \<open>MAXVA\<close>,
  past which \<open>walk\<close> stops the loop; a scan of a linked list, a path or a file takes one step more than its length; \<open>balloc\<close> takes one step
  per bitmap block that 32 bits can number. Running out of fuel is not \<open>Ok\<close>, and the theorems state that the
  code returns, so they cover that the fuel is enough.

  \<^bold>\<open>Assumptions of the theorems.\<close> Most take a state in which the locks the code needs are free; where the source would wait instead,
  the run is \<open>Block\<close>, and the theorems on \<open>sleep\<close> and \<open>wakeup\<close> apply. Theorems on the file system name the invariants they need: of
  the cache (\<open>bc_ready\<close>), the inode table (\<open>itab_ok\<close>), and the directories (\<open>tree_ok\<close>).

  \<^bold>\<open>Not modelled.\<close> The assembly code (entry.S, kernelvec.S, swtch.S, trampoline.S, usys.S, initcode.S), since the model is of C
  code; ramdisk.c, which is not linked; user programs and their library, since the kernel has to work for arbitrary ones; mkfs, which
  runs on the build host; the memory ordering of the hardware, the memory of the harts being one sequential store.
\<close>

end
